(* ===== verification/Prelude.thy ===== *)
theory Prelude
  imports Main "HOL-Library.Word"
begin

text \<open>
  Shared vocabulary of the development: the machine integer types of the C++ sources, arrays as
  lists with the effect of \<open>memcpy\<close>, the masked slot index that the rings and the log use, and a
  generic locale for invariants of step relations.
\<close>

unbundle bit_operations_syntax

named_theorems array_simps
named_theorems slot_simps

type_synonym u8 = "8 word"
type_synonym u16 = "16 word"
type_synonym u32 = "32 word"
type_synonym u64 = "64 word"
type_synonym bytes = "string"

section \<open>Arrays\<close>

text \<open>
  \<open>memcpy_at dst off src n\<close> is the array \<open>dst\<close> after \<open>memcpy(dst + off, src, n)\<close>. Copies that run
  past the array are undefined in C++; every use below comes with a lemma that its range is inside.
\<close>

definition memcpy_at :: "'a list \<Rightarrow> nat \<Rightarrow> 'a list \<Rightarrow> nat \<Rightarrow> 'a list" where
  "memcpy_at dst off src n = take off dst @ take n src @ drop (off + n) dst"

lemma length_memcpy_at [array_simps]:
  "off + n \<le> length dst \<Longrightarrow> n \<le> length src \<Longrightarrow> length (memcpy_at dst off src n) = length dst"
  by (simp add: memcpy_at_def)

lemma nth_memcpy_at:
  "off + n \<le> length dst \<Longrightarrow> n \<le> length src \<Longrightarrow> i < length dst \<Longrightarrow>
   memcpy_at dst off src n ! i = (if off \<le> i \<and> i < off + n then src ! (i - off) else dst ! i)"
  by (auto simp: memcpy_at_def nth_append min_def)

lemma take_memcpy_at_prefix [array_simps]:
  "n \<le> length src \<Longrightarrow> take n (memcpy_at dst 0 src n) = take n src"
  by (simp add: memcpy_at_def)

text \<open>
  A block copy is a sequence of stores that extends the copied prefix: \<open>copied dst src off\<close> is the
  destination once the first \<open>off\<close> elements have arrived.
\<close>

definition copied :: "'a list \<Rightarrow> 'a list \<Rightarrow> nat \<Rightarrow> 'a list" where
  "copied dst src off = take off src @ drop off dst"

definition copied_padded :: "'a \<Rightarrow> 'a list \<Rightarrow> 'a list \<Rightarrow> nat \<Rightarrow> nat \<Rightarrow> 'a list" where
  "copied_padded z dst src len pad = take len src @ replicate pad z @ drop (len + pad) dst"

lemma copied_0 [simp]: "copied dst src 0 = dst"
  by (simp add: copied_def)

lemma copied_padded_0 [simp]: "copied_padded z dst src len 0 = copied dst src len"
  by (simp add: copied_def copied_padded_def)

lemma length_copied [array_simps]:
  "off \<le> length src \<Longrightarrow> off \<le> length dst \<Longrightarrow> length (copied dst src off) = length dst"
  by (simp add: copied_def)

lemma memcpy_at_copied:
  "off + n \<le> length src \<Longrightarrow> off + n \<le> length dst \<Longrightarrow>
   memcpy_at (copied dst src off) off (drop off src) n = copied dst src (off + n)"
  by (simp add: memcpy_at_def copied_def take_add) (simp add: add.commute)

lemma memcpy_at_copied_padded:
  "off + n \<le> length src \<Longrightarrow> off + w \<le> length dst \<Longrightarrow> n \<le> w \<Longrightarrow>
   memcpy_at (copied dst src off) off (take n (drop off src) @ replicate (w - n) z) w
     = copied_padded z dst src (off + n) (w - n)"
  by (simp add: memcpy_at_def copied_def copied_padded_def take_add) (simp add: add.commute)

lemma length_copied_padded [array_simps]:
  "len \<le> length src \<Longrightarrow> len + pad \<le> length dst \<Longrightarrow>
   length (copied_padded z dst src len pad) = length dst"
  by (simp add: copied_padded_def)

lemma take_copied_padded [array_simps]:
  "len \<le> length src \<Longrightarrow> take len (copied_padded z dst src len pad) = take len src"
  by (simp add: copied_padded_def)

section \<open>Unsigned 64-bit arithmetic\<close>

lemma unat_u64_bound: "unat (x :: u64) < 2 ^ 64"
  using unsigned_less [of x] by simp

lemma unat_of_nat_u64: "n < 2 ^ 64 \<Longrightarrow> unat (of_nat n :: u64) = n"
  by (simp add: unat_of_nat)

lemma unat_pow2_u64: "k < 64 \<Longrightarrow> unat (2 ^ k :: u64) = 2 ^ k"
  using unat_of_nat_u64 [of "2 ^ k"] power_strict_increasing [of k 64 "2::nat"] by simp

text \<open>Distances between positions of a ring or log survive the wrap-around.\<close>

lemma diff_plus_count:
  assumes "unat (h - t) + n < 2 ^ 64"
  shows "unat (h + of_nat n - t :: u64) = unat (h - t) + n"
proof -
  have "h + of_nat n - t = (h - t) + of_nat n" by simp
  moreover have "unat ((h - t) + of_nat n) = unat (h - t) + n"
    using assms unat_add_lem [of "h - t" "of_nat n"] unat_of_nat_u64 [of n] by simp
  ultimately show ?thesis by (simp only:)
qed

lemma diff_minus_count:
  assumes "n \<le> unat (h - t)"
  shows "unat (h - (t + of_nat n) :: u64) = unat (h - t) - n"
proof -
  from assms have n: "unat (of_nat n :: u64) = n"
    using unat_u64_bound [of "h - t"] by (simp add: unat_of_nat_u64)
  have "h - (t + of_nat n) = (h - t) - of_nat n" by simp
  moreover have "unat ((h - t) - of_nat n) = unat (h - t) - n"
    using assms n by (simp add: unat_sub word_le_nat_alt)
  ultimately show ?thesis by (simp only:)
qed

section \<open>Masked slot indices\<close>

text \<open>
  The rings and the log are arrays of a power-of-two size indexed by \<open>abs & (size - 1)\<close>. Within a
  window of at most \<open>size\<close> consecutive 64-bit positions, also across the wrap-around at \<open>2 ^ 64\<close>,
  different positions have different slots.
\<close>

lemma mask_pow2: "x AND (2 ^ k - 1) = take_bit k (x :: 'a :: len word)"
  by (simp add: take_bit_eq_mask mask_eq_exp_minus_1)

lemma unat_take_bit_u64: "k \<le> 64 \<Longrightarrow> unat (take_bit k (x :: u64)) = unat x mod 2 ^ k"
  by (simp add: unsigned_take_bit_eq flip: take_bit_eq_mod)

lemma unat_add_of_nat_mod:
  "k \<le> 64 \<Longrightarrow> unat (t + of_nat i :: u64) mod 2 ^ k = (unat t + i) mod 2 ^ k"
proof -
  assume "k \<le> 64"
  then have "(2::nat) ^ k dvd 2 ^ 64" by (rule le_imp_power_dvd)
  then show ?thesis
    by (simp add: unat_word_ariths unat_of_nat mod_mod_cancel mod_add_right_eq)
qed

lemma mod_window_less:
  assumes "i \<le> j" "j < m" "(a + i) mod m = (a + j) mod (m::nat)"
  shows "i = j"
proof -
  have "m dvd (a + j) - (a + i)"
    using assms(1,3) mod_eq_dvd_iff_nat [of "a + i" "a + j" m] by simp
  then show ?thesis
    using assms(1,2) by (auto dest: dvd_imp_le)
qed

lemma mod_window_inj:
  assumes "i < m" "j < m" "(a + i) mod m = (a + j) mod (m::nat)"
  shows "i = j"
  using mod_window_less [of i j m a] mod_window_less [of j i m a] assms
  by (cases "i \<le> j") simp_all

lemma slot_window_inj:
  assumes "k \<le> 64" "i < 2 ^ k" "j < 2 ^ k"
    and "take_bit k (t + of_nat i :: u64) = take_bit k (t + of_nat j)"
  shows "i = j"
proof -
  have "(unat t + i) mod 2 ^ k = (unat t + j) mod 2 ^ k"
    using assms(1,4) unat_take_bit_u64 unat_add_of_nat_mod by metis
  with assms(2,3) show ?thesis by (rule mod_window_inj)
qed

lemma slot_eq_take_bit [slot_simps]:
  "m = 2 ^ k - 1 \<Longrightarrow> (x :: u64) AND m = take_bit k x"
  by (simp add: mask_pow2)

section \<open>Invariants of step relations\<close>

text \<open>
  A component that runs in steps chosen by a scheduler is an initial condition and a step relation.
  A predicate that holds initially and is kept by every step holds in every reachable state.
\<close>

inductive reach :: "('s \<Rightarrow> bool) \<Rightarrow> ('s \<Rightarrow> 's \<Rightarrow> bool) \<Rightarrow> 's \<Rightarrow> bool" for init step where
  reach_init: "init s \<Longrightarrow> reach init step s"
| reach_step: "reach init step s \<Longrightarrow> step s t \<Longrightarrow> reach init step t"

locale step_invariant =
  fixes init :: "'s \<Rightarrow> bool"
    and step :: "'s \<Rightarrow> 's \<Rightarrow> bool"
    and inv :: "'s \<Rightarrow> bool"
  assumes inv_init: "init s \<Longrightarrow> inv s"
    and inv_step: "inv s \<Longrightarrow> step s t \<Longrightarrow> inv t"
begin

lemma inv_reach: "reach init step s \<Longrightarrow> inv s"
  by (induction rule: reach.induct) (auto intro: inv_init inv_step)

end

end
