(* ===== verification/Cxl_Memory.thy ===== *)
theory Cxl_Memory
  imports Prelude
begin

text \<open>
  The CXL memory pool (\<open>include/cxl_memory.h\<close>, \<open>src/cxl_memory.cpp\<close>): region sizes, non-temporal
  stores, the non-temporal block copy \<open>nt_memcpy\<close> and the cache line flush. A destination region is
  the list of its bytes; stores that the code issues through the streaming intrinsics are
  \<open>memcpy_at\<close> of the object representation of the value stored.
\<close>

definition HWCC_SIZE :: nat where
  "HWCC_SIZE = 512 * 1024 * 1024"

definition NON_HWCC_SIZE :: nat where
  "NON_HWCC_SIZE = 30 * 1024 * 1024 * 1024"

text \<open>
  The object representation of an unsigned integer, lowest byte first as on x86, and the stores of
  one 8-byte or 4-byte integer.
\<close>

fun int_bytes :: "nat \<Rightarrow> 'a::len word \<Rightarrow> u8 list" where
  "int_bytes 0 v = []"
| "int_bytes (Suc k) v = ucast v # int_bytes k (drop_bit 8 v)"

definition nt_store_u64 :: "u8 list \<Rightarrow> nat \<Rightarrow> u64 \<Rightarrow> u8 list" where
  "nt_store_u64 dst off v = memcpy_at dst off (int_bytes 8 v) 8"

definition nt_store_u32 :: "u8 list \<Rightarrow> nat \<Rightarrow> u32 \<Rightarrow> u8 list" where
  "nt_store_u32 dst off v = memcpy_at dst off (int_bytes 4 v) 4"

definition nt_store_16 :: "'a list \<Rightarrow> nat \<Rightarrow> 'a list \<Rightarrow> 'a list" where
  "nt_store_16 dst off src = memcpy_at dst off src 16"

definition stream_si64 :: "'a list \<Rightarrow> nat \<Rightarrow> 'a list \<Rightarrow> 'a list" where
  "stream_si64 dst off v = memcpy_at dst off v 8"

text \<open>A \<open>uint64_t v = 0\<close> filled by \<open>memcpy(&v, s, n)\<close>, as its eight bytes.\<close>

definition load_u64_bytes :: "u8 list \<Rightarrow> nat \<Rightarrow> u8 list" where
  "load_u64_bytes s n = take n s @ replicate (8 - n) 0"

section \<open>The block copy\<close>

text \<open>
  \<open>d\<close> is the address of the destination, \<open>dst\<close> its bytes from there on, \<open>src\<close> the bytes from the
  source pointer on, \<open>off\<close> how far both pointers have advanced and \<open>len\<close> what is left to copy. The
  two vector variants have the same two loops; they differ in the width of a vector and in the
  length below which they leave everything to the tail.
\<close>

datatype vector_unit = Avx512 | Avx2

fun vector_bytes :: "vector_unit \<Rightarrow> nat" where
  "vector_bytes Avx512 = 64"
| "vector_bytes Avx2 = 32"

fun vector_threshold :: "vector_unit \<Rightarrow> nat" where
  "vector_threshold Avx512 = 512"
| "vector_threshold Avx2 = 256"

function nt_align_loop ::
  "vector_unit \<Rightarrow> nat \<Rightarrow> u8 list \<Rightarrow> nat \<Rightarrow> nat \<Rightarrow> u8 list \<Rightarrow> u8 list \<times> nat \<times> nat" where
  "nt_align_loop u d src off len dst =
     (if 0 < len \<and> (d + off) mod vector_bytes u \<noteq> 0 then
        let n = min 8 len
        in nt_align_loop u d src (off + n) (len - n)
             (stream_si64 dst off (load_u64_bytes (drop off src) n))
      else (dst, off, len))"
  by pat_completeness auto
termination
  by (relation "measure (\<lambda>(u, d, src, off, len, dst). len)") auto

lemma vector_bytes_pos [simp]: "0 < vector_bytes u"
  by (cases u) auto

lemma vector_bytes_dvd [simp]: "8 dvd vector_bytes u"
  by (cases u) auto

function nt_wide_loop ::
  "vector_unit \<Rightarrow> u8 list \<Rightarrow> nat \<Rightarrow> nat \<Rightarrow> u8 list \<Rightarrow> u8 list \<times> nat \<times> nat" where
  "nt_wide_loop u src off len dst =
     (if vector_bytes u \<le> len then
        nt_wide_loop u src (off + vector_bytes u) (len - vector_bytes u)
          (memcpy_at dst off (drop off src) (vector_bytes u))
      else (dst, off, len))"
  by pat_completeness auto
termination
  by (relation "measure (\<lambda>(u, src, off, len, dst). len)")
    (auto intro!: diff_less intro: less_le_trans [OF vector_bytes_pos])

definition nt_memcpy_vector ::
  "vector_unit \<Rightarrow> nat \<Rightarrow> u8 list \<Rightarrow> nat \<Rightarrow> u8 list \<Rightarrow> u8 list \<times> nat \<times> nat" where
  "nt_memcpy_vector u d src len dst =
     (if len < vector_threshold u then (dst, 0, len)
      else case nt_align_loop u d src 0 len dst of
        (dst1, off1, len1) \<Rightarrow> nt_wide_loop u src off1 len1 dst1)"

definition nt_memcpy_avx512 :: "nat \<Rightarrow> u8 list \<Rightarrow> nat \<Rightarrow> u8 list \<Rightarrow> u8 list \<times> nat \<times> nat" where
  "nt_memcpy_avx512 = nt_memcpy_vector Avx512"

definition nt_memcpy_avx2 :: "nat \<Rightarrow> u8 list \<Rightarrow> nat \<Rightarrow> u8 list \<Rightarrow> u8 list \<times> nat \<times> nat" where
  "nt_memcpy_avx2 = nt_memcpy_vector Avx2"

function nt_memcpy_tail_loop :: "u8 list \<Rightarrow> nat \<Rightarrow> nat \<Rightarrow> nat \<Rightarrow> u8 list \<Rightarrow> u8 list \<times> nat" where
  "nt_memcpy_tail_loop src off ll i dst =
     (if i + 8 \<le> ll then
        nt_memcpy_tail_loop src off ll (i + 8)
          (stream_si64 dst (off + i) (load_u64_bytes (drop (off + i) src) 8))
      else (dst, i))"
  by pat_completeness auto
termination
  by (relation "measure (\<lambda>(src, off, ll, i, dst). ll - i)") auto

definition nt_memcpy_tail_nt64 :: "u8 list \<Rightarrow> nat \<Rightarrow> nat \<Rightarrow> u8 list \<Rightarrow> u8 list" where
  "nt_memcpy_tail_nt64 src off ll dst =
     (case nt_memcpy_tail_loop src off ll 0 dst of
        (dst1, i) \<Rightarrow>
          if i < ll then stream_si64 dst1 (off + i) (load_u64_bytes (drop (off + i) src) (ll - i))
          else dst1)"

definition nt_memcpy :: "nat \<Rightarrow> u8 list \<Rightarrow> u8 list \<Rightarrow> nat \<Rightarrow> u8 list" where
  "nt_memcpy d dst src len =
     (if len = 0 then dst
      else case nt_memcpy_avx512 d src len dst of
        (dst1, off1, len1) \<Rightarrow> nt_memcpy_tail_nt64 src off1 len1 dst1)"

text \<open>
  The body compiled on other machines is the loop and the last store of the tail, from the start of
  the block.
\<close>

definition nt_memcpy_portable :: "u8 list \<Rightarrow> u8 list \<Rightarrow> nat \<Rightarrow> u8 list" where
  "nt_memcpy_portable dst src len =
     (if len = 0 then dst
      else case nt_memcpy_tail_loop src 0 len 0 dst of
        (dst1, i) \<Rightarrow>
          if i < len then stream_si64 dst1 i (load_u64_bytes (drop i src) (len - i)) else dst1)"

section \<open>The cache line flush\<close>

text \<open>\<open>clflush\<close> as the list of line addresses it flushes, in the order of the loop.\<close>

function clflush_loop :: "nat \<Rightarrow> nat \<Rightarrow> nat list" where
  "clflush_loop p e = (if p < e then p # clflush_loop (p + 64) e else [])"
  by pat_completeness auto
termination
  by (relation "measure (\<lambda>(p, e). e - p)") auto

definition clflush :: "nat \<Rightarrow> nat \<Rightarrow> nat list" where
  "clflush addr len = clflush_loop (addr div 64 * 64) (addr + len)"

declare nt_align_loop.simps [simp del] nt_wide_loop.simps [simp del]
  nt_memcpy_tail_loop.simps [simp del] clflush_loop.simps [simp del]

text \<open>Reading the stored bytes back, lowest byte first, gives the integer.\<close>

lemma int_bytes_value:
  "foldr (\<lambda>b n. unat b + 256 * n) (int_bytes k v) 0 = unat v mod 256 ^ k"
proof (induction k arbitrary: v)
  case (Suc k)
  have "unat (ucast v :: u8) = unat v mod 256"
    by (simp add: unsigned_ucast_eq take_bit_eq_mod)
  moreover have "unat (drop_bit 8 v) = unat v div 256"
    by (simp only: unat_drop_bit_eq drop_bit_eq_div [of 8 "unat v"]) simp
  ultimately show ?case
    using Suc.IH [of "drop_bit 8 v"] by (simp add: mod_mult2_eq)
qed simp

lemma nt_store_u64_value:
  assumes "off + 8 \<le> length dst"
  shows "foldr (\<lambda>b n. unat b + 256 * n) (take 8 (drop off (nt_store_u64 dst off v))) 0 = unat v"
proof -
  have len: "length (int_bytes k v) = k" for k and v :: u64 by (induction k arbitrary: v) auto
  have "take 8 (drop off (nt_store_u64 dst off v)) = int_bytes 8 v"
    using assms by (simp add: nt_store_u64_def memcpy_at_def len)
  moreover have "unat v < 256 ^ 8" using unsigned_less [of v] by simp
  ultimately show ?thesis by (simp only: int_bytes_value) (simp only: mod_less)
qed

section \<open>What the copy leaves in memory\<close>

text \<open>The bytes that round a length up to a whole number of 8-byte stores.\<close>

definition pad8 :: "nat \<Rightarrow> nat" where
  "pad8 len = (8 - len mod 8) mod 8"

lemma load_u64_bytes_eq: "load_u64_bytes (drop off src) n = take n (drop off src) @ replicate (8 - n) 0"
  by (simp add: load_u64_bytes_def)

lemma stream_si64_copied:
  "off + 8 \<le> length src \<Longrightarrow> off + 8 \<le> length dst \<Longrightarrow>
   stream_si64 (copied dst src off) off (load_u64_bytes (drop off src) 8) = copied dst src (off + 8)"
  using memcpy_at_copied [of off 8 src dst]
  by (simp add: stream_si64_def load_u64_bytes_def memcpy_at_def)

lemma stream_si64_copied_padded:
  "off + n \<le> length src \<Longrightarrow> off + 8 \<le> length dst \<Longrightarrow> n \<le> 8 \<Longrightarrow>
   stream_si64 (copied dst src off) off (load_u64_bytes (drop off src) n)
     = copied_padded 0 dst src (off + n) (8 - n)"
  by (simp add: stream_si64_def load_u64_bytes_eq memcpy_at_copied_padded)

text \<open>
  A stage that has copied \<open>off\<close> of \<open>tot\<close> bytes: either a multiple of 8 bytes with nothing written
  beyond them, or everything, with the padding of the last store.
\<close>

definition copy_stage :: "u8 list \<Rightarrow> u8 list \<Rightarrow> nat \<Rightarrow> u8 list \<times> nat \<times> nat \<Rightarrow> bool" where
  "copy_stage dst src tot st \<longleftrightarrow>
     (case st of (cur, off, len) \<Rightarrow>
        off + len = tot \<and>
        (8 dvd off \<and> cur = copied dst src off
         \<or> len = 0 \<and> cur = copied_padded 0 dst src tot (pad8 tot)))"

lemma pad8_rest: "8 dvd off \<Longrightarrow> len < 8 \<Longrightarrow> 0 < len \<Longrightarrow> pad8 (off + len) = 8 - len"
  by (auto simp: pad8_def elim!: dvdE)

lemma pad8_exact: "8 dvd len \<Longrightarrow> pad8 len = 0"
  by (auto simp: pad8_def elim!: dvdE)

lemma nt_align_loop_stage:
  "copy_stage dst src tot (cur, off, len) \<Longrightarrow> tot \<le> length src \<Longrightarrow>
   tot + pad8 tot \<le> length dst \<Longrightarrow>
   copy_stage dst src tot (nt_align_loop u d src off len cur)"
proof (induction u d src off len cur rule: nt_align_loop.induct)
  case (1 u d src off len cur)
  show ?case
  proof (cases "0 < len \<and> (d + off) mod vector_bytes u \<noteq> 0")
    case True
    let ?n = "min 8 len"
    from True 1(2) have off: "8 dvd off" "cur = copied dst src off" "off + len = tot"
      by (auto simp: copy_stage_def)
    have "copy_stage dst src tot
            (stream_si64 cur off (load_u64_bytes (drop off src) ?n), off + ?n, len - ?n)"
    proof (cases "8 \<le> len")
      case True
      with off 1(3,4) show ?thesis
        by (simp add: copy_stage_def stream_si64_copied)
    next
      case False
      with off True 1(3,4) have "pad8 tot = 8 - len" using pad8_rest [of off len] by simp
      with off False 1(3,4) show ?thesis
        by (simp add: copy_stage_def stream_si64_copied_padded)
    qed
    with 1 True show ?thesis by (simp add: nt_align_loop.simps [of u d src off] Let_def)
  next
    case False
    then have "nt_align_loop u d src off len cur = (cur, off, len)"
      by (subst nt_align_loop.simps) (rule if_not_P)
    with 1(2) show ?thesis by simp
  qed
qed

lemma nt_wide_loop_stage:
  "copy_stage dst src tot (cur, off, len) \<Longrightarrow> tot \<le> length src \<Longrightarrow>
   tot + pad8 tot \<le> length dst \<Longrightarrow>
   copy_stage dst src tot (nt_wide_loop u src off len cur)"
proof (induction u src off len cur rule: nt_wide_loop.induct)
  case (1 u src off len cur)
  show ?case
  proof (cases "vector_bytes u \<le> len")
    case True
    then have "0 < len" using vector_bytes_pos [of u] by linarith
    with 1(2) have off: "8 dvd off" "cur = copied dst src off" "off + len = tot"
      by (auto simp: copy_stage_def)
    with True 1(3,4) have "copy_stage dst src tot
        (memcpy_at cur off (drop off src) (vector_bytes u), off + vector_bytes u, len - vector_bytes u)"
      by (simp add: copy_stage_def memcpy_at_copied)
    with 1 True show ?thesis by (simp add: nt_wide_loop.simps [of u src off])
  next
    case False
    with 1(2) show ?thesis by (simp add: nt_wide_loop.simps [of u src off])
  qed
qed

lemma nt_memcpy_tail_loop_copied:
  "8 dvd off \<Longrightarrow> 8 dvd i \<Longrightarrow> i \<le> ll \<Longrightarrow> cur = copied dst src (off + i) \<Longrightarrow>
   off + ll \<le> length src \<Longrightarrow> off + ll \<le> length dst \<Longrightarrow>
   nt_memcpy_tail_loop src off ll i cur = (copied dst src (off + ll div 8 * 8), ll div 8 * 8)"
proof (induction src off ll i cur rule: nt_memcpy_tail_loop.induct)
  case (1 src off ll i cur)
  show ?case
  proof (cases "i + 8 \<le> ll")
    case True
    with 1 show ?thesis
      by (simp add: nt_memcpy_tail_loop.simps [of src off ll i] stream_si64_copied add.assoc)
  next
    case False
    with 1(3,4) have "i = ll div 8 * 8" by (auto elim!: dvdE)
    with False 1(5) show ?thesis by (subst nt_memcpy_tail_loop.simps) simp
  qed
qed

lemma nt_memcpy_tail_nt64_stage:
  assumes "copy_stage dst src tot (cur, off, len)" "tot \<le> length src"
    "tot + pad8 tot \<le> length dst"
  shows "nt_memcpy_tail_nt64 src off len cur = copied_padded 0 dst src tot (pad8 tot)"
proof (cases "len = 0")
  case True
  then have "nt_memcpy_tail_loop src off len 0 cur = (cur, 0)"
    by (simp add: nt_memcpy_tail_loop.simps)
  with True assms(1) show ?thesis
    by (auto simp: nt_memcpy_tail_nt64_def copy_stage_def pad8_exact)
next
  case False
  with assms(1) have off: "8 dvd off" "cur = copied dst src off" "off + len = tot"
    by (auto simp: copy_stage_def)
  have loop: "nt_memcpy_tail_loop src off len 0 cur
      = (copied dst src (off + len div 8 * 8), len div 8 * 8)"
    using off assms(2,3) by (intro nt_memcpy_tail_loop_copied) auto
  show ?thesis
  proof (cases "len mod 8 = 0")
    case True
    then have "len div 8 * 8 = len" by presburger
    with loop off True show ?thesis
      by (auto simp: nt_memcpy_tail_nt64_def pad8_exact mod_0_imp_dvd)
  next
    case False
    let ?o = "off + len div 8 * 8" and ?r = "len - len div 8 * 8"
    have r: "0 < ?r" "?r < 8" "?o + ?r = tot" "?r = len mod 8"
      using False off(3) by (auto simp: minus_div_mult_eq_mod)
    have "8 dvd ?o" using off(1) by simp
    then have "pad8 tot = 8 - ?r" using pad8_rest [of ?o ?r] r by simp
    moreover from this have "stream_si64 (copied dst src ?o) ?o (load_u64_bytes (drop ?o src) ?r)
        = copied_padded 0 dst src (?o + ?r) (8 - ?r)"
      using r assms(2,3) by (intro stream_si64_copied_padded) linarith+
    moreover have "len div 8 * 8 < len" using r(1) by linarith
    ultimately show ?thesis
      using loop r by (simp add: nt_memcpy_tail_nt64_def)
  qed
qed

lemma nt_memcpy_vector_stage:
  assumes "len \<le> length src" "len + pad8 len \<le> length dst"
  shows "copy_stage dst src len (nt_memcpy_vector u d src len dst)"
proof -
  have start: "copy_stage dst src len (dst, 0, len)" by (simp add: copy_stage_def)
  then show ?thesis
    using assms nt_wide_loop_stage nt_align_loop_stage [OF start assms, of u d]
    by (auto simp: nt_memcpy_vector_def split: prod.splits)
qed

text \<open>
  Property C38: For every destination address, \<open>nt_memcpy\<close> copies exactly \<open>len\<close> bytes, then writes
  zeroes up to the next multiple of 8 bytes and nothing further.
\<close>
theorem nt_memcpy_copies:
  assumes "len \<le> length src" "len + pad8 len \<le> length dst"
  shows "nt_memcpy d dst src len = take len src @ replicate (pad8 len) 0 @ drop (len + pad8 len) dst"
proof (cases "len = 0")
  case True
  then show ?thesis by (simp add: nt_memcpy_def pad8_def)
next
  case False
  with False assms show ?thesis
    using nt_memcpy_vector_stage [OF assms, of Avx512 d]
    by (auto simp: nt_memcpy_def nt_memcpy_avx512_def copied_padded_def nt_memcpy_tail_nt64_stage
        split: prod.splits)
qed

theorem nt_memcpy_copies_witness:
  "nt_memcpy 0 [9, 9, 9, 9, 9, 9, 9, 9, 9] [1, 2, 3] 3 = [1, 2, 3] @ replicate 5 0 @ [9]"
  using nt_memcpy_copies [of 3 "[1, 2, 3]" "[9, 9, 9, 9, 9, 9, 9, 9, 9]" 0] by (simp add: pad8_def)

text \<open>
  The three bodies that the source has for the block copy leave the same bytes behind:
  the one that is compiled in, the one for other machines, and the 32-byte variant followed by the
  tail.
\<close>
theorem nt_memcpy_variants_agree:
  assumes "len \<le> length src" "len + pad8 len \<le> length dst"
  shows "nt_memcpy_portable dst src len = nt_memcpy d dst src len
    \<and> (case nt_memcpy_avx2 d src len dst of
         (dst1, off1, len1) \<Rightarrow> nt_memcpy_tail_nt64 src off1 len1 dst1) = nt_memcpy d dst src len"
proof -
  have vector: "(case nt_memcpy_vector u d src len dst of
      (dst1, off1, len1) \<Rightarrow> nt_memcpy_tail_nt64 src off1 len1 dst1)
      = copied_padded 0 dst src len (pad8 len)" for u
    using nt_memcpy_vector_stage [OF assms, of u d] assms
    by (auto simp: nt_memcpy_tail_nt64_stage split: prod.splits)
  have tail: "nt_memcpy_tail_nt64 src 0 len dst = copied_padded 0 dst src len (pad8 len)"
    using assms by (intro nt_memcpy_tail_nt64_stage) (simp_all add: copy_stage_def)
  have empty: "len = 0 \<Longrightarrow> copied_padded 0 dst src len (pad8 len) = dst"
    by (simp add: copied_padded_def pad8_def)
  have "nt_memcpy d dst src len = copied_padded 0 dst src len (pad8 len)"
    using vector [of Avx512] empty by (simp add: nt_memcpy_def nt_memcpy_avx512_def)
  moreover have "nt_memcpy_portable dst src len = copied_padded 0 dst src len (pad8 len)"
    using tail empty
    by (simp add: nt_memcpy_portable_def nt_memcpy_tail_nt64_def add_0 cong: if_cong)
  ultimately show ?thesis using vector [of Avx2] by (simp add: nt_memcpy_avx2_def)
qed

theorem nt_memcpy_variants_agree_witness:
  "nt_memcpy_portable [9, 9, 9, 9, 9, 9, 9, 9, 9] [1, 2, 3] 3
     = nt_memcpy 5 [9, 9, 9, 9, 9, 9, 9, 9, 9] [1, 2, 3] 3"
  using nt_memcpy_variants_agree [of 3 "[1, 2, 3]" "[9, 9, 9, 9, 9, 9, 9, 9, 9]" 5]
  by (simp add: pad8_def)

lemma clflush_loop_mem:
  "q \<in> set (clflush_loop p e) \<longleftrightarrow> (\<exists>k. q = p + 64 * k \<and> q < e)"
proof (induction p e rule: clflush_loop.induct)
  case (1 p e)
  show ?case
  proof (cases "p < e")
    case True
    have "(\<exists>k. q = p + 64 * k \<and> q < e) \<longleftrightarrow> q = p \<or> (\<exists>k. q = p + 64 + 64 * k \<and> q < e)"
    proof (intro iffI; elim disjE exE conjE)
      fix k assume "q = p + 64 * k" "q < e"
      then show "q = p \<or> (\<exists>k. q = p + 64 + 64 * k \<and> q < e)" by (cases k) auto
    next
      fix k assume "q = p + 64 + 64 * k" "q < e"
      then have "q = p + 64 * Suc k \<and> q < e" by simp
      then show "\<exists>k. q = p + 64 * k \<and> q < e" by blast
    qed (use True in \<open>auto intro: exI [of _ 0]\<close>)
    with True 1 show ?thesis by (simp add: clflush_loop.simps [of p e])
  qed (auto simp: clflush_loop.simps [of p e])
qed

text \<open>\<open>clflush\<close> flushes exactly the cache lines that contain a byte of the range.\<close>

theorem clflush_exact:
  assumes "0 < len"
  shows "set (clflush addr len) = (\<lambda>b. b div 64 * 64) ` {addr..<addr + len}"
proof (intro equalityI subsetI)
  fix q assume "q \<in> set (clflush addr len)"
  then obtain k where k: "q = addr div 64 * 64 + 64 * k" "q < addr + len"
    by (auto simp: clflush_def clflush_loop_mem)
  then have "64 dvd q" by simp
  then have q: "max q addr div 64 * 64 = q" using k(1) by (cases "q \<le> addr") (auto simp: max_def)
  moreover have "max q addr \<in> {addr..<addr + len}" using k assms by auto
  ultimately show "q \<in> (\<lambda>b. b div 64 * 64) ` {addr..<addr + len}" by (metis image_eqI)
next
  fix q assume "q \<in> (\<lambda>b. b div 64 * 64) ` {addr..<addr + len}"
  then obtain b where b: "addr \<le> b" "b < addr + len" and q: "q = b div 64 * 64" by auto
  have "q = addr div 64 * 64 + 64 * (b div 64 - addr div 64)"
    using div_le_mono [OF b(1), of 64] by (simp add: q algebra_simps)
  moreover have "q < addr + len"
    using b(2) q by (meson div_times_less_eq_dividend le_less_trans)
  ultimately show "q \<in> set (clflush addr len)" unfolding clflush_def clflush_loop_mem by blast
qed

theorem clflush_exact_witness:
  "set (clflush 100 60) = (\<lambda>b. b div 64 * 64) ` {100..<160}"
  using clflush_exact [of 60 100] by simp

end
