(* ===== verification/Message_Queue.thy ===== *)
theory Message_Queue
  imports Cxl_Memory
begin

text \<open>
  The single-producer single-consumer rings of \<open>include/message_queue.h\<close>: message and descriptor
  layout, the operations of \<open>SpscRingView\<close> one by one, the ring invariant, and the refinement of the
  ring to a bounded first-in first-out queue of messages.
\<close>

definition kMaxBandleNodes :: nat where
  "kMaxBandleNodes = 3"

definition kBandleRingCapacity :: u64 where
  "kBandleRingCapacity = 32768"

definition kMaxValueBytes :: nat where
  "kMaxValueBytes = 1088"

definition kCompletionSlots :: u64 where
  "kCompletionSlots = push_bit 16 1"

section \<open>Messages and descriptors\<close>

datatype BandleMsgType = PROPOSAL | P1 | P2 | DECIDE

text \<open>The alignment padding (\<open>reserved\<close>, \<open>reserved0\<close>) is never read and is left out.\<close>

record BandlePayload =
  b_seq :: u64
  b_round :: u64
  b_sender :: u64
  b_proposer :: u64
  b_client_req_id :: u64
  b_start_tsc :: u64
  b_value :: u8
  b_promise :: u8
  b_op :: char
  b_key_len :: u32
  b_value_len :: u32
  b_data :: bytes

record BandleDescriptor =
  d_slot_seq :: u64
  d_type :: BandleMsgType
  d_seq :: u64
  d_round :: u64
  d_sender :: u64
  d_proposer :: u64
  d_client_req_id :: u64
  d_start_tsc :: u64
  d_value :: u8
  d_promise :: u8
  d_op :: char
  d_key_len :: u32
  d_value_len :: u32

record BandleMessage =
  m_slot_seq :: u64
  m_type :: BandleMsgType
  m_body :: BandlePayload

text \<open>\<open>BandleMessage x{}\<close>: the default member initialisers, and a zeroed data array.\<close>

definition default_payload :: BandlePayload where
  "default_payload = \<lparr> b_seq = 0, b_round = 1, b_sender = 0, b_proposer = 0, b_client_req_id = 0,
     b_start_tsc = 0, b_value = 1, b_promise = 0, b_op = CHR ''N'', b_key_len = 0, b_value_len = 0,
     b_data = replicate kMaxValueBytes (char_of (0 :: nat)) \<rparr>"

definition default_message :: BandleMessage where
  "default_message = \<lparr> m_slot_seq = 0, m_type = PROPOSAL, m_body = default_payload \<rparr>"

text \<open>\<open>static_cast<uint64_t>(key_len) + static_cast<uint64_t>(value_len)\<close>.\<close>

definition payload_bytes :: "u32 \<Rightarrow> u32 \<Rightarrow> u64" where
  "payload_bytes kl vl = ucast kl + ucast vl"

definition msg_bytes :: "BandleMessage \<Rightarrow> u64" where
  "msg_bytes m = payload_bytes (b_key_len (m_body m)) (b_value_len (m_body m))"

definition desc_bytes :: "BandleDescriptor \<Rightarrow> u64" where
  "desc_bytes d = payload_bytes (d_key_len d) (d_value_len d)"

definition descriptor_of :: "u64 \<Rightarrow> BandleMessage \<Rightarrow> BandleDescriptor" where
  "descriptor_of slot msg = \<lparr> d_slot_seq = slot, d_type = m_type msg, d_seq = b_seq (m_body msg),
     d_round = b_round (m_body msg), d_sender = b_sender (m_body msg),
     d_proposer = b_proposer (m_body msg), d_client_req_id = b_client_req_id (m_body msg),
     d_start_tsc = b_start_tsc (m_body msg), d_value = b_value (m_body msg),
     d_promise = b_promise (m_body msg), d_op = b_op (m_body msg),
     d_key_len = b_key_len (m_body msg), d_value_len = b_value_len (m_body msg) \<rparr>"

section \<open>The ring\<close>

text \<open>
  One ring of the shared state: \<open>SpscRingMeta\<close>, its descriptor array and its payload array. The
  template parameter \<open>Capacity\<close> is an argument of the operations.
\<close>

record SpscRing =
  r_head :: u64
  r_tail :: u64
  r_descs :: "u64 \<Rightarrow> BandleDescriptor"
  r_payloads :: "u64 \<Rightarrow> bytes"

definition ring_mask :: "u64 \<Rightarrow> u64" where
  "ring_mask cap = cap - 1"

definition ring_slot :: "u64 \<Rightarrow> u64 \<Rightarrow> u64" where
  "ring_slot cap a = a AND ring_mask cap"

subsection \<open>Payload stores\<close>

text \<open>
  \<open>nt_store_payload_padded\<close> as the sequence of 16-byte stores it issues: the unrolled loop over whole
  cache lines, the loop over whole 16-byte blocks, and the zero-padded rest.
\<close>

function payload_line_stores :: "bytes \<Rightarrow> nat \<Rightarrow> nat \<Rightarrow> (nat \<times> bytes) list" where
  "payload_line_stores data off full =
     (if off < full then
        [(off, take 16 (drop off data)), (off + 16, take 16 (drop (off + 16) data)),
         (off + 32, take 16 (drop (off + 32) data)), (off + 48, take 16 (drop (off + 48) data))]
        @ payload_line_stores data (off + 64) full
      else [])"
  by pat_completeness auto
termination
  by (relation "measure (\<lambda>(data, off, full). full - off)") auto

function payload_block_stores :: "bytes \<Rightarrow> nat \<Rightarrow> nat \<Rightarrow> (nat \<times> bytes) list \<times> nat" where
  "payload_block_stores data off len =
     (if off + 16 \<le> len then
        case payload_block_stores data (off + 16) len of
          (ss, off') \<Rightarrow> ((off, take 16 (drop off data)) # ss, off')
      else ([], off))"
  by pat_completeness auto
termination
  by (relation "measure (\<lambda>(data, off, len). len - off)") auto

declare payload_line_stores.simps [simp del] payload_block_stores.simps [simp del]

definition payload_stores :: "bytes \<Rightarrow> nat \<Rightarrow> (nat \<times> bytes) list" where
  "payload_stores data len =
     (if len = 0 then []
      else let full = len div 64 * 64;
               lines = payload_line_stores data 0 full
           in case payload_block_stores data full len of
                (blocks, off) \<Rightarrow>
                  lines @ blocks @
                  (if off < len
                   then [(off, memcpy_at (replicate 16 (char_of (0 :: nat))) 0 (drop off data) (len - off))]
                   else []))"

definition apply_stores :: "bytes \<Rightarrow> (nat \<times> bytes) list \<Rightarrow> bytes" where
  "apply_stores dst ss = fold (\<lambda>(off, b) d. nt_store_16 d off b) ss dst"

definition nt_store_payload_padded :: "u64 \<Rightarrow> bytes \<Rightarrow> nat \<Rightarrow> SpscRing \<Rightarrow> SpscRing" where
  "nt_store_payload_padded idx src len r =
     r\<lparr>r_payloads := (r_payloads r)(idx := apply_stores (r_payloads r idx) (payload_stores src len))\<rparr>"

subsection \<open>Producer operations\<close>

definition push :: "u64 \<Rightarrow> BandleMessage \<Rightarrow> SpscRing \<Rightarrow> bool \<times> SpscRing" where
  "push cap msg r =
     (let h = r_head r; t = r_tail r
      in if cap \<le> h - t then (False, r)
         else let idx = ring_slot cap h;
                  d = descriptor_of (h + 1) msg;
                  bytes = desc_bytes d
              in if of_nat kMaxValueBytes < bytes then (False, r)
                 else let r1 = (if bytes \<noteq> 0
                                then nt_store_payload_padded idx (b_data (m_body msg)) (unat bytes) r
                                else r);
                          r2 = r1\<lparr>r_descs := (r_descs r1)(idx := d)\<rparr>
                      in (True, r2\<lparr>r_head := h + 1\<rparr>))"

definition can_push_batch :: "u64 \<Rightarrow> u64 \<Rightarrow> SpscRing \<Rightarrow> u64 option" where
  "can_push_batch cap count r =
     (let h = r_head r; t = r_tail r
      in if cap < (h - t) + count then None else Some h)"

text \<open>The result is \<open>(ok, wrote_payload, ring)\<close>; \<open>i\<close> is the loop counter.\<close>

fun write_batch_loop ::
  "u64 \<Rightarrow> u64 \<Rightarrow> u64 \<Rightarrow> BandleMessage list \<Rightarrow> bool \<Rightarrow> SpscRing \<Rightarrow> bool \<times> bool \<times> SpscRing" where
  "write_batch_loop cap head i [] wrote r = (True, wrote, r)"
| "write_batch_loop cap head i (msg # msgs) wrote r =
     (let idx = ring_slot cap (head + i);
          d = descriptor_of (head + i + 1) msg;
          bytes = desc_bytes d
      in if of_nat kMaxValueBytes < bytes then (False, wrote, r)
         else let r1 = (if bytes \<noteq> 0
                        then nt_store_payload_padded idx (b_data (m_body msg)) (unat bytes) r
                        else r);
                  wrote1 = (bytes \<noteq> 0 \<or> wrote);
                  r2 = r1\<lparr>r_descs := (r_descs r1)(idx := d)\<rparr>
              in write_batch_loop cap head (i + 1) msgs wrote1 r2)"

definition write_batch_at ::
  "u64 \<Rightarrow> u64 \<Rightarrow> BandleMessage list \<Rightarrow> SpscRing \<Rightarrow> bool \<times> bool \<times> SpscRing" where
  "write_batch_at cap head msgs r = write_batch_loop cap head 0 msgs False r"

definition publish_head :: "u64 \<Rightarrow> SpscRing \<Rightarrow> SpscRing" where
  "publish_head h r = r\<lparr>r_head := h\<rparr>"

definition push_batch :: "u64 \<Rightarrow> BandleMessage list \<Rightarrow> SpscRing \<Rightarrow> bool \<times> SpscRing" where
  "push_batch cap msgs r =
     (if msgs = [] then (True, r)
      else case can_push_batch cap (of_nat (length msgs)) r of
        None \<Rightarrow> (False, r)
      | Some head \<Rightarrow>
          (case write_batch_at cap head msgs r of
             (ok, wrote, r') \<Rightarrow>
               if \<not> ok then (False, r')
               else (True, publish_head (head + of_nat (length msgs)) r')))"

definition is_full :: "u64 \<Rightarrow> SpscRing \<Rightarrow> bool" where
  "is_full cap r \<longleftrightarrow> cap \<le> r_head r - r_tail r"

subsection \<open>Consumer operations\<close>

text \<open>
  The bounded retry of \<open>read_slot_descriptor\<close>. \<open>view i\<close> is the descriptor that the i-th attempt loads
  from the slot; \<open>None\<close> is the return value \<open>false\<close>, which leaves \<open>out\<close> as it was.
\<close>

definition fill_from_descriptor :: "BandleDescriptor \<Rightarrow> BandleMessage \<Rightarrow> BandleMessage" where
  "fill_from_descriptor d out = \<lparr> m_slot_seq = d_slot_seq d, m_type = d_type d,
     m_body = \<lparr> b_seq = d_seq d, b_round = d_round d, b_sender = d_sender d,
       b_proposer = d_proposer d, b_client_req_id = d_client_req_id d, b_start_tsc = d_start_tsc d,
       b_value = d_value d, b_promise = d_promise d, b_op = d_op d, b_key_len = d_key_len d,
       b_value_len = d_value_len d, b_data = b_data (m_body out) \<rparr> \<rparr>"

fun read_descriptor_retry ::
  "(nat \<Rightarrow> BandleDescriptor) \<Rightarrow> u64 \<Rightarrow> BandleMessage \<Rightarrow> nat \<Rightarrow> nat \<Rightarrow> BandleMessage option" where
  "read_descriptor_retry view expected out i 0 = None"
| "read_descriptor_retry view expected out i (Suc n) =
     (let d = view i
      in if d_slot_seq d \<noteq> expected then read_descriptor_retry view expected out (Suc i) n
         else if of_nat kMaxValueBytes < desc_bytes d then None
         else Some (fill_from_descriptor d out))"

definition kRetries :: nat where
  "kRetries = 64"

definition read_slot_descriptor ::
  "SpscRing \<Rightarrow> u64 \<Rightarrow> u64 \<Rightarrow> BandleMessage \<Rightarrow> BandleMessage option" where
  "read_slot_descriptor r idx expected out =
     read_descriptor_retry (\<lambda>_. r_descs r idx) expected out 0 kRetries"

definition copy_payload :: "bytes \<Rightarrow> BandleMessage \<Rightarrow> BandleMessage" where
  "copy_payload slot out =
     (if msg_bytes out \<noteq> 0
      then out\<lparr>m_body := (m_body out)\<lparr>b_data :=
             memcpy_at (b_data (m_body out)) 0 slot (unat (msg_bytes out))\<rparr>\<rparr>
      else out)"

definition read_slot :: "SpscRing \<Rightarrow> u64 \<Rightarrow> u64 \<Rightarrow> BandleMessage \<Rightarrow> BandleMessage option" where
  "read_slot r idx expected out =
     map_option (copy_payload (r_payloads r idx)) (read_slot_descriptor r idx expected out)"

definition read_at_abs :: "u64 \<Rightarrow> u64 \<Rightarrow> BandleMessage \<Rightarrow> SpscRing \<Rightarrow> BandleMessage option" where
  "read_at_abs cap a out r = read_slot r (ring_slot cap a) (a + 1) out"

definition commit_tail :: "u64 \<Rightarrow> SpscRing \<Rightarrow> SpscRing" where
  "commit_tail t r = r\<lparr>r_tail := t\<rparr>"

definition pop :: "u64 \<Rightarrow> BandleMessage \<Rightarrow> SpscRing \<Rightarrow> (BandleMessage \<times> SpscRing) option" where
  "pop cap out r =
     (let t = r_tail r; h = r_head r
      in if t = h then None
         else case read_slot r (ring_slot cap t) (t + 1) out of
           None \<Rightarrow> None
         | Some out' \<Rightarrow> Some (out', r\<lparr>r_tail := t + 1\<rparr>))"

text \<open>
  The two passes of \<open>read_batch_at_abs\<close> (prefetches have no effect on values): the first reads
  descriptors until one is not ready, the second copies the payloads.
\<close>

fun read_batch_descs ::
  "u64 \<Rightarrow> u64 \<Rightarrow> SpscRing \<Rightarrow> nat \<Rightarrow> nat \<Rightarrow> BandleMessage list \<Rightarrow> nat \<times> BandleMessage list" where
  "read_batch_descs cap a r count 0 out = (count, out)"
| "read_batch_descs cap a r count (Suc n) out =
     (let cur = a + of_nat count
      in case read_slot_descriptor r (ring_slot cap cur) (cur + 1) (out ! count) of
           None \<Rightarrow> (count, out)
         | Some m \<Rightarrow> read_batch_descs cap a r (Suc count) n (out[count := m]))"

fun read_batch_payloads ::
  "u64 \<Rightarrow> u64 \<Rightarrow> SpscRing \<Rightarrow> nat \<Rightarrow> nat \<Rightarrow> BandleMessage list \<Rightarrow> BandleMessage list" where
  "read_batch_payloads cap a r i 0 out = out"
| "read_batch_payloads cap a r i (Suc n) out =
     read_batch_payloads cap a r (Suc i) n
       (out[i := copy_payload (r_payloads r (ring_slot cap (a + of_nat i))) (out ! i)])"

definition read_batch_at_abs ::
  "u64 \<Rightarrow> u64 \<Rightarrow> BandleMessage list \<Rightarrow> nat \<Rightarrow> SpscRing \<Rightarrow> nat \<times> BandleMessage list" where
  "read_batch_at_abs cap a out max_count r =
     (if max_count = 0 then (0, out)
      else case read_batch_descs cap a r 0 max_count out of
        (count, out1) \<Rightarrow>
          if count = 0 then (0, out1)
          else (count, read_batch_payloads cap a r 0 count out1))"

section \<open>Payload stores write the payload and stay in the slot\<close>

definition pad16 :: "nat \<Rightarrow> nat" where
  "pad16 len = (16 - len mod 16) mod 16"

lemma apply_stores_Nil [simp]: "apply_stores dst [] = dst"
  and apply_stores_Cons [simp]:
    "apply_stores dst ((off, b) # ss) = apply_stores (nt_store_16 dst off b) ss"
  and apply_stores_append [simp]:
    "apply_stores dst (ss @ ss') = apply_stores (apply_stores dst ss) ss'"
  by (simp_all add: apply_stores_def)

lemma nt_store_16_copied:
  "off + 16 \<le> length src \<Longrightarrow> off + 16 \<le> length dst \<Longrightarrow>
   nt_store_16 (copied dst src off) off (take 16 (drop off src)) = copied dst src (off + 16)"
  using memcpy_at_copied [of off 16 src dst] by (simp add: nt_store_16_def memcpy_at_def)

lemma payload_line_stores_copied:
  "64 dvd full - off \<Longrightarrow> off \<le> full \<Longrightarrow> full \<le> length data \<Longrightarrow> full \<le> length dst \<Longrightarrow>
   apply_stores (copied dst data off) (payload_line_stores data off full) = copied dst data full"
proof (induction data off full rule: payload_line_stores.induct)
  case (1 data off full)
  show ?case
  proof (cases "off < full")
    case True
    with 1(2) have le: "off + 64 \<le> full" by (auto dest!: dvd_imp_le)
    moreover have "64 dvd full - (off + 64)" using dvd_diff_nat [OF 1(2), of 64] by simp
    ultimately have IH: "apply_stores (copied dst data (off + 64))
        (payload_line_stores data (off + 64) full) = copied dst data full"
      using 1 True by blast
    have "nt_store_16 (nt_store_16 (nt_store_16 (nt_store_16 (copied dst data off) off
        (take 16 (drop off data))) (off + 16) (take 16 (drop (off + 16) data))) (off + 32)
        (take 16 (drop (off + 32) data))) (off + 48) (take 16 (drop (off + 48) data))
      = copied dst data (off + 64)"
      using le 1(4,5) nt_store_16_copied [of off data dst] nt_store_16_copied [of "off + 16" data dst]
        nt_store_16_copied [of "off + 32" data dst] nt_store_16_copied [of "off + 48" data dst]
      by (simp add: ac_simps)
    with True IH show ?thesis by (simp add: payload_line_stores.simps [of data off])
  next
    case False
    with 1(3) show ?thesis by (subst payload_line_stores.simps) simp
  qed
qed

lemma payload_block_stores_copied:
  "payload_block_stores data off len = (ss, off') \<Longrightarrow> off \<le> len \<Longrightarrow> len \<le> length data \<Longrightarrow>
   len \<le> length dst \<Longrightarrow>
   apply_stores (copied dst data off) ss = copied dst data off' \<and>
   off \<le> off' \<and> 16 dvd off' - off \<and> off' \<le> len \<and> len < off' + 16"
proof (induction data off len arbitrary: ss rule: payload_block_stores.induct)
  case (1 data off len)
  show ?case
  proof (cases "off + 16 \<le> len")
    case True
    obtain ss1 where rest: "payload_block_stores data (off + 16) len = (ss1, off')"
      and ss: "ss = (off, take 16 (drop off data)) # ss1"
      using 1(2) True by (auto simp: payload_block_stores.simps [of data off] split: prod.splits)
    from 1(1) [OF True rest] True 1(4,5) have IH:
      "apply_stores (copied dst data (off + 16)) ss1 = copied dst data off'"
      "off + 16 \<le> off'" "16 dvd off' - (off + 16)" "off' \<le> len" "len < off' + 16"
      by auto
    moreover have "16 dvd off' - off" using IH(2,3) by presburger
    ultimately show ?thesis
      using ss True 1(4,5) by (simp add: nt_store_16_copied)
  next
    case False
    with 1(2,3) show ?thesis by (auto simp: payload_block_stores.simps [of data off])
  qed
qed

lemma pad16_rest: "16 dvd off \<Longrightarrow> off < len \<Longrightarrow> len < off + 16 \<Longrightarrow> pad16 len = 16 - (len - off)"
proof -
  assume "16 dvd off" "off < len" "len < off + 16"
  moreover from this obtain k where "off = 16 * k" by blast
  moreover from calculation obtain r where "len = off + r" "r < 16" "0 < r"
    by (metis add_less_cancel_left less_imp_add_positive)
  ultimately show ?thesis by (simp add: pad16_def)
qed

lemma pad16_exact: "16 dvd len \<Longrightarrow> pad16 len = 0"
  by (auto simp: pad16_def elim!: dvdE)

text \<open>
  The 16-byte stores leave exactly the payload followed by zeroes up to the next
  multiple of 16 in the slot; the rest of the slot is untouched.
\<close>
lemma payload_stores_effect:
  assumes "len \<le> length data" "len + pad16 len \<le> length dst"
  shows "apply_stores dst (payload_stores data len)
           = take len data @ replicate (pad16 len) (char_of (0 :: nat)) @ drop (len + pad16 len) dst"
proof (cases "len = 0")
  case True
  then show ?thesis by (simp add: payload_stores_def pad16_def)
next
  case False
  let ?full = "len div 64 * 64"
  obtain ss off where blk: "payload_block_stores data ?full len = (ss, off)" by fastforce
  have lines: "apply_stores dst (payload_line_stores data 0 ?full) = copied dst data ?full"
    using payload_line_stores_copied [of ?full 0 data dst] assms by simp
  from payload_block_stores_copied [OF blk, of dst] assms
  have blocks: "apply_stores (copied dst data ?full) ss = copied dst data off"
    and off: "?full \<le> off" "16 dvd off - ?full" "off \<le> len" "len < off + 16" by auto
  have "16 dvd ?full" by (rule dvd_mult) simp
  from dvd_add [OF this off(2)] off(1) have off16: "16 dvd off" by simp
  show ?thesis
  proof (cases "off < len")
    case True
    have pad: "pad16 len = 16 - (len - off)" using pad16_rest [OF off16 True off(4)] .
    have "memcpy_at (replicate 16 (char_of (0 :: nat))) 0 (drop off data) (len - off)
        = take (len - off) (drop off data) @ replicate (16 - (len - off)) (char_of (0 :: nat))"
      by (simp add: memcpy_at_def)
    with memcpy_at_copied_padded [of off "len - off" data 16 dst] pad assms off True
    show ?thesis
      using False blk lines blocks
      by (simp add: payload_stores_def nt_store_16_def copied_padded_def)
  next
    case False
    with off(3) have "off = len" by simp
    with off16 \<open>len \<noteq> 0\<close> blk lines blocks show ?thesis
      by (simp add: payload_stores_def pad16_exact copied_def)
  qed
qed

end
