(* ===== verification/Ring_Refinement.thy ===== *)
theory Ring_Refinement
  imports Message_Queue
begin

text \<open>
  The rings refine bounded first-in first-out queues. The abstraction relation \<open>ring_rep\<close> ties a ring
  to the list of messages between its tail and its head; each operation of \<open>SpscRingView\<close> is shown to
  act on that list, through the wrap-around of the slot index and of the 64-bit positions.
\<close>

section \<open>Abstraction\<close>

definition pow2_capacity :: "u64 \<Rightarrow> nat \<Rightarrow> bool" where
  "pow2_capacity cap k \<longleftrightarrow> k < 64 \<and> cap = 2 ^ k"

definition wf_msg :: "BandleMessage \<Rightarrow> bool" where
  "wf_msg m \<longleftrightarrow> length (b_data (m_body m)) = kMaxValueBytes"

definition fits :: "BandleMessage \<Rightarrow> bool" where
  "fits m \<longleftrightarrow> msg_bytes m \<le> of_nat kMaxValueBytes"

text \<open>What a message carries across a ring: everything but the slot stamp and unused data bytes.\<close>

definition wire :: "BandleMessage \<Rightarrow> BandleMessage" where
  "wire m = m\<lparr>m_slot_seq := 0,
     m_body := (m_body m)\<lparr>b_data := take (unat (msg_bytes m)) (b_data (m_body m))\<rparr>\<rparr>"

definition wire_of_slot :: "BandleDescriptor \<Rightarrow> bytes \<Rightarrow> BandleMessage" where
  "wire_of_slot d p = wire (fill_from_descriptor d
     (default_message\<lparr>m_body := default_payload\<lparr>b_data := p\<rparr>\<rparr>))"

definition slot_holds :: "u64 \<Rightarrow> SpscRing \<Rightarrow> u64 \<Rightarrow> BandleMessage \<Rightarrow> bool" where
  "slot_holds cap r a m \<longleftrightarrow>
     (let d = r_descs r (ring_slot cap a)
      in d_slot_seq d = a + 1 \<and> desc_bytes d \<le> of_nat kMaxValueBytes \<and>
         wire_of_slot d (r_payloads r (ring_slot cap a)) = m)"

definition region_rep :: "u64 \<Rightarrow> SpscRing \<Rightarrow> u64 \<Rightarrow> BandleMessage list \<Rightarrow> bool" where
  "region_rep cap r a ms \<longleftrightarrow>
     (\<forall>idx. length (r_payloads r idx) = kMaxValueBytes) \<and>
     (\<forall>i<length ms. slot_holds cap r (a + of_nat i) (ms ! i))"

definition ring_rep :: "u64 \<Rightarrow> SpscRing \<Rightarrow> BandleMessage list \<Rightarrow> bool" where
  "ring_rep cap r q \<longleftrightarrow>
     unat (r_head r - r_tail r) = length q \<and> length q \<le> unat cap \<and> region_rep cap r (r_tail r) q"

section \<open>Slots and positions\<close>

lemma pow2_capacity_unat: "pow2_capacity cap k \<Longrightarrow> unat cap = 2 ^ k"
  by (simp add: pow2_capacity_def unat_pow2_u64)

lemma pow2_capacity_bound: "pow2_capacity cap k \<Longrightarrow> unat cap \<le> 2 ^ 63"
  using power_increasing [of k 63 "2 :: nat"] by (simp add: pow2_capacity_unat pow2_capacity_def unat_pow2_u64)

lemma ring_slot_inj:
  assumes "pow2_capacity cap k" "i < unat cap" "j < unat cap"
  shows "ring_slot cap (t + of_nat i) = ring_slot cap (t + of_nat j) \<longleftrightarrow> i = j"
  using assms slot_window_inj [of k i j t]
  by (auto simp: pow2_capacity_def ring_slot_def ring_mask_def mask_pow2 unat_pow2_u64)

lemma desc_bytes_descriptor_of [simp]: "desc_bytes (descriptor_of s m) = msg_bytes m"
  by (simp add: desc_bytes_def msg_bytes_def descriptor_of_def)

lemma d_slot_seq_descriptor_of [simp]: "d_slot_seq (descriptor_of s m) = s"
  by (simp add: descriptor_of_def)

lemma msg_bytes_fill [simp]: "msg_bytes (fill_from_descriptor d out) = desc_bytes d"
  by (simp add: msg_bytes_def desc_bytes_def fill_from_descriptor_def)

lemma wire_of_slot_eq:
  "b_data (m_body out) = p \<Longrightarrow> wire (fill_from_descriptor d out) = wire_of_slot d p"
  by (simp add: wire_of_slot_def wire_def fill_from_descriptor_def msg_bytes_def)

lemma fits_unat: "fits m \<Longrightarrow> unat (msg_bytes m) \<le> kMaxValueBytes"
  by (simp add: fits_def kMaxValueBytes_def word_le_nat_alt)

lemma pad16_fits: "len \<le> kMaxValueBytes \<Longrightarrow> len + pad16 len \<le> kMaxValueBytes"
proof -
  assume le: "len \<le> kMaxValueBytes"
  define q r where "q = len div 16" and "r = len mod 16"
  then have len: "len = 16 * q + r" "r < 16" by simp_all
  with le show ?thesis by (cases "r = 0") (simp_all add: kMaxValueBytes_def pad16_def)
qed


section \<open>Writing and reading one slot\<close>

text \<open>The body that \<open>push\<close> and \<open>write_batch_at\<close> share once the size check has passed.\<close>

definition put_slot :: "u64 \<Rightarrow> u64 \<Rightarrow> BandleMessage \<Rightarrow> SpscRing \<Rightarrow> SpscRing" where
  "put_slot cap a msg r =
     (let idx = ring_slot cap a;
          r1 = (if msg_bytes msg \<noteq> 0
                then nt_store_payload_padded idx (b_data (m_body msg)) (unat (msg_bytes msg)) r else r)
      in r1\<lparr>r_descs := (r_descs r1)(idx := descriptor_of (a + 1) msg)\<rparr>)"

lemma put_slot_head [simp]: "r_head (put_slot cap a msg r) = r_head r"
  and put_slot_tail [simp]: "r_tail (put_slot cap a msg r) = r_tail r"
  by (simp_all add: put_slot_def nt_store_payload_padded_def Let_def)

lemma put_slot_payload:
  "r_payloads (put_slot cap a msg r) =
     (r_payloads r)(ring_slot cap a :=
        (if msg_bytes msg = 0 then r_payloads r (ring_slot cap a)
         else apply_stores (r_payloads r (ring_slot cap a))
                (payload_stores (b_data (m_body msg)) (unat (msg_bytes msg)))))"
  by (simp add: put_slot_def nt_store_payload_padded_def Let_def)

lemma put_slot_desc:
  "r_descs (put_slot cap a msg r) = (r_descs r)(ring_slot cap a := descriptor_of (a + 1) msg)"
  by (simp add: put_slot_def nt_store_payload_padded_def Let_def)

lemma stored_payload:
  assumes "wf_msg m" "fits m" "length p = kMaxValueBytes"
  shows "length (apply_stores p (payload_stores (b_data (m_body m)) (unat (msg_bytes m)))) = kMaxValueBytes"
    and "take (unat (msg_bytes m)) (apply_stores p (payload_stores (b_data (m_body m)) (unat (msg_bytes m))))
           = take (unat (msg_bytes m)) (b_data (m_body m))"
  using assms fits_unat [of m] pad16_fits [of "unat (msg_bytes m)"]
  by (simp_all add: payload_stores_effect wf_msg_def)

lemma put_slot_length:
  "wf_msg m \<Longrightarrow> fits m \<Longrightarrow> \<forall>idx. length (r_payloads r idx) = kMaxValueBytes \<Longrightarrow>
   length (r_payloads (put_slot cap a m r) idx) = kMaxValueBytes"
  by (simp add: put_slot_payload stored_payload)

lemma wire_of_slot_descriptor_of:
  "take (unat (msg_bytes m)) p = take (unat (msg_bytes m)) (b_data (m_body m)) \<Longrightarrow>
   wire_of_slot (descriptor_of s m) p = wire m"
  by (simp add: wire_of_slot_def wire_def fill_from_descriptor_def descriptor_of_def msg_bytes_def)

lemma put_slot_holds:
  assumes "wf_msg m" "fits m" "length (r_payloads r (ring_slot cap a)) = kMaxValueBytes"
  shows "slot_holds cap (put_slot cap a m r) a (wire m)"
  using assms stored_payload(2) [OF assms]
  by (simp add: slot_holds_def put_slot_desc put_slot_payload fits_def wire_of_slot_descriptor_of)

lemma put_slot_other:
  "ring_slot cap b \<noteq> ring_slot cap a \<Longrightarrow>
   slot_holds cap (put_slot cap a m r) b w \<longleftrightarrow> slot_holds cap r b w"
  by (simp add: slot_holds_def put_slot_desc put_slot_payload)

lemma region_rep_put_slot:
  assumes "pow2_capacity cap k" "region_rep cap r t q" "length q < unat cap" "wf_msg m" "fits m"
  shows "region_rep cap (put_slot cap (t + of_nat (length q)) m r) t (q @ [wire m])"
  using assms
  by (auto simp: region_rep_def put_slot_length put_slot_holds put_slot_other ring_slot_inj
      nth_append less_Suc_eq)

lemma region_rep_put_slot_outside:
  assumes "pow2_capacity cap k" "region_rep cap r t q" "length q \<le> j" "j < unat cap" "wf_msg m" "fits m"
  shows "region_rep cap (put_slot cap (t + of_nat j) m r) t q"
  using assms by (auto simp: region_rep_def put_slot_length put_slot_other ring_slot_inj)

text \<open>A slot that carries the expected stamp is read on the first attempt.\<close>

lemma read_descriptor_retry_hit:
  "d_slot_seq (view i) = expected \<Longrightarrow> desc_bytes (view i) \<le> of_nat kMaxValueBytes \<Longrightarrow> 0 < n \<Longrightarrow>
   read_descriptor_retry view expected out i n = Some (fill_from_descriptor (view i) out)"
  by (cases n) (auto simp: not_less Let_def)

lemma read_descriptor_retry_miss:
  "(\<And>i. d_slot_seq (view i) \<noteq> expected) \<Longrightarrow> read_descriptor_retry view expected out i n = None"
  by (induction n arbitrary: i) simp_all

lemma wire_copy_payload:
  assumes "desc_bytes d \<le> of_nat kMaxValueBytes" "length p = kMaxValueBytes" "wf_msg out"
  shows "wire (copy_payload p (fill_from_descriptor d out)) = wire_of_slot d p"
    and "wf_msg (copy_payload p (fill_from_descriptor d out))"
proof -
  have n: "unat (desc_bytes d) \<le> kMaxValueBytes"
    using assms(1) by (simp add: kMaxValueBytes_def word_le_nat_alt)
  show "wire (copy_payload p (fill_from_descriptor d out)) = wire_of_slot d p"
    using n assms(2,3)
    by (simp add: copy_payload_def wire_of_slot_def wire_def msg_bytes_def desc_bytes_def
        fill_from_descriptor_def array_simps)
  show "wf_msg (copy_payload p (fill_from_descriptor d out))"
    using n assms(2,3)
    by (simp add: copy_payload_def wf_msg_def array_simps) (simp add: fill_from_descriptor_def array_simps)
qed

lemma read_slot_descriptor_holds:
  "slot_holds cap r a m \<Longrightarrow>
   read_slot_descriptor r (ring_slot cap a) (a + 1) out
     = Some (fill_from_descriptor (r_descs r (ring_slot cap a)) out)"
  by (simp add: slot_holds_def read_slot_descriptor_def read_descriptor_retry_hit kRetries_def Let_def)

lemma read_slot_holds:
  assumes "slot_holds cap r a m" "length (r_payloads r (ring_slot cap a)) = kMaxValueBytes" "wf_msg out"
  obtains out' where "read_slot r (ring_slot cap a) (a + 1) out = Some out'" "wire out' = m" "wf_msg out'"
  using assms wire_copy_payload [of "r_descs r (ring_slot cap a)" "r_payloads r (ring_slot cap a)" out]
  by (simp add: read_slot_def read_slot_descriptor_holds slot_holds_def Let_def)


section \<open>Operations on rings\<close>

lemma ring_rep_room:
  "pow2_capacity cap k \<Longrightarrow> ring_rep cap r q \<Longrightarrow> cap \<le> r_head r - r_tail r \<longleftrightarrow> length q = unat cap"
  by (auto simp: ring_rep_def word_le_nat_alt)

lemma ring_rep_head: "ring_rep cap r q \<Longrightarrow> r_head r = r_tail r + of_nat (length q)"
  by (auto simp: ring_rep_def dest: sym)

lemma push_room:
  "\<not> cap \<le> r_head r - r_tail r \<Longrightarrow> fits m \<Longrightarrow>
   push cap m r = (True, (put_slot cap (r_head r) m r)\<lparr>r_head := r_head r + 1\<rparr>)"
  by (simp add: push_def put_slot_def fits_def Let_def not_less)

lemma region_rep_head [simp]: "region_rep cap (r\<lparr>r_head := h\<rparr>) t q = region_rep cap r t q"
  and region_rep_tail [simp]: "region_rep cap (r\<lparr>r_tail := h\<rparr>) t q = region_rep cap r t q"
  by (simp_all add: region_rep_def slot_holds_def)

lemma push_rep:
  assumes cap: "pow2_capacity cap k" and rep: "ring_rep cap r q"
    and room: "length q < unat cap" and m: "wf_msg m" "fits m"
  shows "\<exists>r'. push cap m r = (True, r') \<and> ring_rep cap r' (q @ [wire m])"
proof -
  let ?r = "(put_slot cap (r_head r) m r)\<lparr>r_head := r_head r + 1\<rparr>"
  have "push cap m r = (True, ?r)"
    using ring_rep_room [OF cap rep] room m(2) by (intro push_room) auto
  moreover have "region_rep cap ?r (r_tail r) (q @ [wire m])"
    using region_rep_put_slot [OF cap _ room m] rep ring_rep_head [OF rep] by (simp add: ring_rep_def)
  moreover have "unat (r_head r + 1 - r_tail r) = Suc (length q)"
    using diff_plus_count [of "r_head r" "r_tail r" 1] rep room pow2_capacity_bound [OF cap]
    by (simp add: ring_rep_def)
  ultimately show ?thesis using room by (auto simp: ring_rep_def)
qed

lemma push_full:
  "pow2_capacity cap k \<Longrightarrow> ring_rep cap r q \<Longrightarrow> length q = unat cap \<Longrightarrow> push cap m r = (False, r)"
  by (simp add: push_def ring_rep_room)

lemma push_oversize: "\<not> fits m \<Longrightarrow> push cap m r = (False, r)"
  by (simp add: push_def fits_def Let_def not_le)

lemma region_rep_nth:
  "region_rep cap r a ms \<Longrightarrow> i < length ms \<Longrightarrow> slot_holds cap r (a + of_nat i) (ms ! i)"
  by (simp add: region_rep_def)

lemma region_rep_prefix: "region_rep cap r a (ms @ q) \<Longrightarrow> region_rep cap r a ms"
  unfolding region_rep_def by (metis length_append nth_append trans_less_add1)

lemma region_rep_drop:
  assumes "region_rep cap r a (ms @ q)"
  shows "region_rep cap r (a + of_nat (length ms)) q"
  using assms region_rep_nth [OF assms, of "length ms + i" for i]
  by (auto simp: region_rep_def add.assoc)

lemma region_rep_append1: "region_rep cap r a (ms @ q) \<Longrightarrow> region_rep cap r a ms"
  by (simp add: region_rep_def nth_append) (metis trans_less_add1)

lemma commit_tail_rep:
  assumes "ring_rep cap r (ms @ q)"
  shows "ring_rep cap (commit_tail (r_tail r + of_nat (length ms)) r) q"
  using assms diff_minus_count [of "length ms" "r_head r" "r_tail r"]
  by (auto simp: ring_rep_def commit_tail_def dest: region_rep_drop)

lemma pop_rep:
  assumes rep: "ring_rep cap r (w # q)" and out: "wf_msg out"
  shows "\<exists>m r'. pop cap out r = Some (m, r') \<and> wire m = w \<and> wf_msg m \<and> ring_rep cap r' q"
proof -
  have "slot_holds cap r (r_tail r) w" "length (r_payloads r (ring_slot cap (r_tail r))) = kMaxValueBytes"
    using rep by (auto simp: ring_rep_def region_rep_def)
  with out obtain m where m: "read_slot r (ring_slot cap (r_tail r)) (r_tail r + 1) out = Some m"
      "wire m = w" "wf_msg m"
    using read_slot_holds [of cap r "r_tail r" w out] by blast
  have "r_tail r \<noteq> r_head r" using rep by (auto simp: ring_rep_def)
  then have "pop cap out r = Some (m, commit_tail (r_tail r + 1) r)"
    using m(1) by (simp add: pop_def commit_tail_def)
  moreover have "ring_rep cap (commit_tail (r_tail r + 1) r) q"
    using commit_tail_rep [of cap r "[w]" q] rep by simp
  ultimately show ?thesis using m by blast
qed

lemma pop_empty: "ring_rep cap r [] \<Longrightarrow> pop cap out r = None"
  by (auto simp: pop_def ring_rep_def Let_def unat_eq_0)

subsection \<open>Batches\<close>

lemma write_batch_loop_fits:
  assumes "fits m"
  shows "write_batch_loop cap head i (m # ms) w r
    = write_batch_loop cap head (i + 1) ms (msg_bytes m \<noteq> 0 \<or> w) (put_slot cap (head + i) m r)"
proof -
  have "\<not> of_nat kMaxValueBytes < msg_bytes m" using assms by (simp add: fits_def not_less)
  then show ?thesis by (simp add: put_slot_def Let_def)
qed

lemma write_batch_loop_rep:
  assumes "pow2_capacity cap k"
  shows "region_rep cap r t q \<Longrightarrow> length q + length ms \<le> unat cap \<Longrightarrow>
    head + i = t + of_nat (length q) \<Longrightarrow> \<forall>m\<in>set ms. wf_msg m \<and> fits m \<Longrightarrow>
    \<exists>w' r'. write_batch_loop cap head i ms w r = (True, w', r') \<and>
      region_rep cap r' t (q @ map wire ms) \<and> r_head r' = r_head r \<and> r_tail r' = r_tail r"
proof (induction ms arbitrary: i q w r)
  case Nil
  then show ?case by simp
next
  case (Cons m ms)
  let ?r = "put_slot cap (head + i) m r"
  have m: "wf_msg m" "fits m" using Cons.prems(4) by auto
  have "region_rep cap ?r t (q @ [wire m])"
    unfolding Cons.prems(3)
    using Cons.prems(1,2) m by (intro region_rep_put_slot [OF assms]) auto
  moreover have "head + (i + 1) = t + of_nat (length (q @ [wire m]))"
    using Cons.prems(3) by (simp add: ac_simps)
  ultimately obtain w' r' where IH:
    "write_batch_loop cap head (i + 1) ms (msg_bytes m \<noteq> 0 \<or> w) ?r = (True, w', r')"
    "region_rep cap r' t ((q @ [wire m]) @ map wire ms)" "r_head r' = r_head r" "r_tail r' = r_tail r"
    using Cons.IH [of ?r "q @ [wire m]" "i + 1"] Cons.prems(2,4) by fastforce
  then show ?case by (simp add: write_batch_loop_fits [OF m(2)] del: write_batch_loop.simps)
qed

lemma write_batch_loop_reject:
  assumes "pow2_capacity cap k"
  shows "region_rep cap r t q \<Longrightarrow> j + length ms \<le> unat cap \<Longrightarrow> length q \<le> j \<Longrightarrow>
    head + i = t + of_nat j \<Longrightarrow> \<forall>m\<in>set ms. wf_msg m \<Longrightarrow> \<exists>m\<in>set ms. \<not> fits m \<Longrightarrow>
    \<exists>w' r'. write_batch_loop cap head i ms w r = (False, w', r') \<and>
      region_rep cap r' t q \<and> r_head r' = r_head r \<and> r_tail r' = r_tail r"
proof (induction ms arbitrary: i j w r)
  case Nil
  then show ?case by simp
next
  case (Cons m ms)
  show ?case
  proof (cases "fits m")
    case False
    with Cons.prems(1) show ?thesis by (simp add: fits_def Let_def not_le)
  next
    case True
    let ?r = "put_slot cap (head + i) m r"
    have "region_rep cap ?r t q"
      unfolding Cons.prems(4)
      using Cons.prems(1,2,3,5) True by (intro region_rep_put_slot_outside [OF assms]) auto
    moreover have "head + (i + 1) = t + of_nat (Suc j)" using Cons.prems(4) by (simp add: ac_simps)
    ultimately show ?thesis
      using Cons.IH [of ?r "Suc j" "i + 1"] Cons.prems True
      by (fastforce simp: write_batch_loop_fits simp del: write_batch_loop.simps)
  qed
qed

lemma can_push_batch_rep:
  assumes cap: "pow2_capacity cap k" and rep: "ring_rep cap r q" and n: "n < 2 ^ 63"
  shows "can_push_batch cap (of_nat n) r
           = (if length q + n \<le> unat cap then Some (r_tail r + of_nat (length q)) else None)"
proof -
  have "unat (r_head r - r_tail r + of_nat n) = length q + n"
    using rep n pow2_capacity_bound [OF cap] unat_add_lem [of "r_head r - r_tail r" "of_nat n"]
      unat_of_nat_u64 [of n]
    by (simp add: ring_rep_def)
  then show ?thesis
    using ring_rep_head [OF rep] by (auto simp: can_push_batch_def Let_def word_less_nat_alt)
qed

lemma push_batch_rep:
  assumes cap: "pow2_capacity cap k" and rep: "ring_rep cap r q"
    and room: "length q + length ms \<le> unat cap" and ms: "\<forall>m\<in>set ms. wf_msg m \<and> fits m"
  shows "\<exists>r'. push_batch cap ms r = (True, r') \<and> ring_rep cap r' (q @ map wire ms)"
proof (cases "ms = []")
  case True
  with rep show ?thesis by (simp add: push_batch_def)
next
  case False
  have n: "length ms < 2 ^ 63 \<or> length ms = 2 ^ 63" using room pow2_capacity_bound [OF cap] by linarith
  have cnt: "unat (r_head r - r_tail r) = length q" "region_rep cap r (r_tail r) q"
    using rep by (auto simp: ring_rep_def)
  obtain w' r' where wb:
    "write_batch_at cap (r_tail r + of_nat (length q)) ms r = (True, w', r')"
    "region_rep cap r' (r_tail r) (q @ map wire ms)" "r_tail r' = r_tail r"
    using write_batch_loop_rep [OF cap cnt(2) room, of "r_tail r + of_nat (length q)" 0 False] ms
    by (auto simp: write_batch_at_def)
  have tot: "length q + length ms < 2 ^ 64" using room pow2_capacity_bound [OF cap] by simp
  have "can_push_batch cap (of_nat (length ms)) r = Some (r_tail r + of_nat (length q))"
  proof -
    have "unat (r_head r - r_tail r + of_nat (length ms)) = length q + length ms"
      using cnt(1) tot unat_add_lem [of "r_head r - r_tail r" "of_nat (length ms)"]
        unat_of_nat_u64 [of "length ms"] by simp
    then show ?thesis
      using ring_rep_head [OF rep] room by (auto simp: can_push_batch_def Let_def word_less_nat_alt)
  qed
  with wb False have "push_batch cap ms r
      = (True, publish_head (r_tail r + of_nat (length q) + of_nat (length ms)) r')"
    by (simp add: push_batch_def)
  moreover have "unat (r_tail r + of_nat (length q) + of_nat (length ms) - r_tail r) = length q + length ms"
    using tot unat_of_nat_u64 [of "length q + length ms"] by simp
  ultimately show ?thesis using wb room by (auto simp: ring_rep_def publish_head_def)
qed

lemma push_batch_reject:
  assumes cap: "pow2_capacity cap k" and rep: "ring_rep cap r q" and n: "length ms < 2 ^ 63"
    and wf: "\<forall>m\<in>set ms. wf_msg m"
    and bad: "unat cap < length q + length ms \<or> (\<exists>m\<in>set ms. \<not> fits m)"
  shows "\<exists>r'. push_batch cap ms r = (False, r') \<and> ring_rep cap r' q"
proof -
  have ne: "ms \<noteq> []" using bad rep by (auto simp: ring_rep_def)
  note room = can_push_batch_rep [OF cap rep n]
  show ?thesis
  proof (cases "length q + length ms \<le> unat cap")
    case False
    with ne room rep show ?thesis by (simp add: push_batch_def)
  next
    case True
    have reg: "region_rep cap r (r_tail r) q" using rep by (simp add: ring_rep_def)
    obtain w' r' where "write_batch_at cap (r_tail r + of_nat (length q)) ms r = (False, w', r')"
      "region_rep cap r' (r_tail r) q" "r_head r' = r_head r" "r_tail r' = r_tail r"
      using write_batch_loop_reject [OF cap reg True, of "r_tail r + of_nat (length q)" 0 False] wf bad True
      by (auto simp: write_batch_at_def)
    with ne room True rep show ?thesis by (auto simp: push_batch_def ring_rep_def)
  qed
qed


text \<open>The first pass fills the buffer from the descriptors, the second adds the payloads.\<close>

lemma read_batch_descs_rep:
  "\<forall>i. c \<le> i \<and> i < c + n \<longrightarrow> slot_holds cap r (a + of_nat i) (ms ! i) \<Longrightarrow> c + n \<le> length out \<Longrightarrow>
   read_batch_descs cap a r c n out
     = (c + n, take c out @ map (\<lambda>i. fill_from_descriptor (r_descs r (ring_slot cap (a + of_nat i))) (out ! i))
          [c..<c + n] @ drop (c + n) out)"
proof (induction n arbitrary: c out)
  case 0
  then show ?case by simp
next
  case (Suc n)
  let ?m = "fill_from_descriptor (r_descs r (ring_slot cap (a + of_nat c))) (out ! c)"
  have "slot_holds cap r (a + of_nat c) (ms ! c)" using Suc.prems(1) by force
  then have "read_batch_descs cap a r c (Suc n) out = read_batch_descs cap a r (Suc c) n (out[c := ?m])"
    by (simp add: read_slot_descriptor_holds del: One_nat_def)
  also have "\<dots> = (Suc c + n, take (Suc c) (out[c := ?m])
      @ map (\<lambda>i. fill_from_descriptor (r_descs r (ring_slot cap (a + of_nat i))) (out[c := ?m] ! i))
          [Suc c..<Suc c + n] @ drop (Suc c + n) (out[c := ?m]))"
    using Suc.prems by (intro Suc.IH) simp_all
  also have "\<dots> = (c + Suc n, take c out
      @ map (\<lambda>i. fill_from_descriptor (r_descs r (ring_slot cap (a + of_nat i))) (out ! i)) [c..<c + Suc n]
      @ drop (c + Suc n) out)"
    using Suc.prems(2) by (simp add: take_Suc_conv_app_nth upt_conv_Cons del: upt_Suc)
  finally show ?case .
qed

lemma read_batch_payloads_rep:
  "c + n \<le> length out \<Longrightarrow>
   read_batch_payloads cap a r c n out
     = take c out @ map (\<lambda>i. copy_payload (r_payloads r (ring_slot cap (a + of_nat i))) (out ! i))
          [c..<c + n] @ drop (c + n) out"
proof (induction n arbitrary: c out)
  case 0
  then show ?case by simp
next
  case (Suc n)
  then show ?case
    by (simp add: take_Suc_conv_app_nth upt_conv_Cons del: upt_Suc)
qed

lemma read_batch_at_abs_rep:
  assumes rep: "region_rep cap r a ms" and out: "length ms \<le> length out" "\<forall>m\<in>set out. wf_msg m"
  obtains out' where "read_batch_at_abs cap a out (length ms) r = (length ms, out')"
    "map wire (take (length ms) out') = ms" "\<forall>m\<in>set out'. wf_msg m" "length out' = length out"
proof -
  let ?d = "\<lambda>i. r_descs r (ring_slot cap (a + of_nat i))"
  let ?p = "\<lambda>i. r_payloads r (ring_slot cap (a + of_nat i))"
  let ?n = "length ms"
  let ?out = "map (\<lambda>i. copy_payload (?p i) (fill_from_descriptor (?d i) (out ! i))) [0..<?n] @ drop ?n out"
  have d: "read_batch_descs cap a r 0 ?n out
      = (?n, map (\<lambda>i. fill_from_descriptor (?d i) (out ! i)) [0..<?n] @ drop ?n out)"
    using read_batch_descs_rep [of 0 ?n cap r a ms out] region_rep_nth [OF rep] out(1) by simp
  have "read_batch_at_abs cap a out ?n r = (?n, ?out)"
    using d out(1)
    by (auto simp: read_batch_at_abs_def read_batch_payloads_rep nth_append intro!: map_cong)
  moreover have "map wire (take ?n ?out) = ms"
    using region_rep_nth [OF rep] rep out wire_copy_payload(1)
    by (intro nth_equalityI) (auto simp: slot_holds_def Let_def region_rep_def)
  moreover have "\<forall>m\<in>set ?out. wf_msg m"
    using region_rep_nth [OF rep] rep out wire_copy_payload(2)
    by (auto simp: slot_holds_def Let_def region_rep_def dest: in_set_dropD)
  ultimately show ?thesis using out(1) by (intro that [of ?out]) auto
qed

section \<open>The channel interface\<close>

text \<open>
  What the node code relies on: a bounded channel whose contents are a list. \<open>view\<close> is what a message
  carries across. A history of sends and receives delivers a prefix of what was accepted, in order.
\<close>

datatype 'm chan_event = Send 'm | Recv

fun chan_run ::
  "('m \<Rightarrow> 'c \<Rightarrow> bool \<times> 'c) \<Rightarrow> ('c \<Rightarrow> ('m \<times> 'c) option) \<Rightarrow> 'm chan_event list \<Rightarrow> 'c
     \<Rightarrow> 'm list \<times> 'm list \<times> 'c" where
  "chan_run snd_op rcv_op [] c = ([], [], c)"
| "chan_run snd_op rcv_op (Send m # es) c =
     (case snd_op m c of (ok, c1) \<Rightarrow>
        case chan_run snd_op rcv_op es c1 of (acc, got, c2) \<Rightarrow> (if ok then m # acc else acc, got, c2))"
| "chan_run snd_op rcv_op (Recv # es) c =
     (case rcv_op c of
        None \<Rightarrow> chan_run snd_op rcv_op es c
      | Some (m, c1) \<Rightarrow> (case chan_run snd_op rcv_op es c1 of (acc, got, c2) \<Rightarrow> (acc, m # got, c2)))"

locale bounded_channel =
  fixes rep :: "'c \<Rightarrow> 'w list \<Rightarrow> bool"
    and bound :: nat
    and ok :: "'m \<Rightarrow> bool"
    and view :: "'m \<Rightarrow> 'w"
    and snd_op :: "'m \<Rightarrow> 'c \<Rightarrow> bool \<times> 'c"
    and rcv_op :: "'c \<Rightarrow> ('m \<times> 'c) option"
  assumes rep_bound: "rep c q \<Longrightarrow> length q \<le> bound"
    and snd_room: "rep c q \<Longrightarrow> ok m \<Longrightarrow> length q < bound \<Longrightarrow>
      \<exists>c'. snd_op m c = (True, c') \<and> rep c' (q @ [view m])"
    and snd_full: "rep c q \<Longrightarrow> length q = bound \<Longrightarrow> snd_op m c = (False, c)"
    and rcv_some: "rep c (w # q) \<Longrightarrow> \<exists>m c'. rcv_op c = Some (m, c') \<and> view m = w \<and> rep c' q"
    and rcv_none: "rep c [] \<Longrightarrow> rcv_op c = None"
begin

lemma history:
  "rep c q \<Longrightarrow> \<forall>m. Send m \<in> set es \<longrightarrow> ok m \<Longrightarrow> chan_run snd_op rcv_op es c = (acc, got, c') \<Longrightarrow>
   \<exists>q'. rep c' q' \<and> q @ map view acc = map view got @ q'"
proof (induction es arbitrary: c q acc got)
  case Nil
  then show ?case by auto
next
  case (Cons e es)
  have okes: "\<forall>m. Send m \<in> set es \<longrightarrow> ok m" using Cons.prems(2) by simp
  show ?case
  proof (cases e)
    case (Send m)
    show ?thesis
    proof (cases "length q < bound")
      case True
      with Send Cons.prems(1,2) obtain c1 where c1: "snd_op m c = (True, c1)" "rep c1 (q @ [view m])"
        using snd_room [of c q m] by auto
      obtain acc1 where run: "chan_run snd_op rcv_op es c1 = (acc1, got, c')" "acc = m # acc1"
        using Cons.prems(3) Send c1(1) by (auto split: prod.splits)
      from Cons.IH [OF c1(2) okes run(1)] run(2) show ?thesis by auto
    next
      case False
      with rep_bound [OF Cons.prems(1)] have "snd_op m c = (False, c)"
        by (intro snd_full [OF Cons.prems(1)]) simp
      with Send Cons.prems show ?thesis
        using Cons.IH [OF Cons.prems(1) okes] by (auto split: prod.splits)
    qed
  next
    case Recv
    show ?thesis
    proof (cases q)
      case Nil
      with Recv Cons.prems show ?thesis
        using Cons.IH [OF Cons.prems(1) okes] rcv_none [of c] by auto
    next
      case (Cons w q1)
      then obtain m c1 where c1: "rcv_op c = Some (m, c1)" "view m = w" "rep c1 q1"
        using rcv_some Cons.prems(1) by blast
      obtain got1 where run: "chan_run snd_op rcv_op es c1 = (acc, got1, c')" "got = m # got1"
        using Cons.prems(3) Recv c1(1) by (auto split: prod.splits)
      from Cons.IH [OF c1(3) okes run(1)] run(2) c1(2) Cons show ?thesis by auto
    qed
  qed
qed

lemma drain:
  "rep c q \<Longrightarrow> \<exists>ms c'. chan_run snd_op rcv_op (replicate (length q) Recv) c = ([], ms, c')
     \<and> map view ms = q \<and> rep c' []"
proof (induction q arbitrary: c)
  case (Cons w q)
  then obtain m c1 where "rcv_op c = Some (m, c1)" "view m = w" "rep c1 q" using rcv_some by blast
  with Cons.IH [of c1] show ?case by fastforce
qed simp

end

lemma kBandleRingCapacity_pow2: "pow2_capacity kBandleRingCapacity 15"
  by (simp add: pow2_capacity_def kBandleRingCapacity_def)

lemma wf_default_message [simp]: "wf_msg default_message"
  by (simp add: wf_msg_def default_message_def default_payload_def)

text \<open>The rings that the program allocates meet the interface.\<close>

interpretation spsc: bounded_channel
  "ring_rep kBandleRingCapacity" "unat kBandleRingCapacity" "\<lambda>m. wf_msg m \<and> fits m" wire
  "push kBandleRingCapacity" "pop kBandleRingCapacity default_message"
proof unfold_locales
  fix c q m
  assume "ring_rep kBandleRingCapacity c q" "length q = unat kBandleRingCapacity"
  then show "push kBandleRingCapacity m c = (False, c)"
    by (rule push_full [OF kBandleRingCapacity_pow2])
next
  fix c w q
  assume "ring_rep kBandleRingCapacity c (w # q)"
  from pop_rep [OF this wf_default_message]
  show "\<exists>m c'. pop kBandleRingCapacity default_message c = Some (m, c') \<and> wire m = w
      \<and> ring_rep kBandleRingCapacity c' q"
    by blast
next
  fix c q m
  assume "ring_rep kBandleRingCapacity c q" "wf_msg m \<and> fits m" "length q < unat kBandleRingCapacity"
  then show "\<exists>c'. push kBandleRingCapacity m c = (True, c')
      \<and> ring_rep kBandleRingCapacity c' (q @ [wire m])"
    by (intro push_rep [OF kBandleRingCapacity_pow2]) auto
qed (auto simp: ring_rep_def pop_empty)

section \<open>Properties of the rings\<close>

text \<open>A ring whose memory was cleared, with both positions at \<open>p\<close>.\<close>

definition fresh_ring :: "u64 \<Rightarrow> SpscRing" where
  "fresh_ring p = \<lparr> r_head = p, r_tail = p, r_descs = (\<lambda>_. descriptor_of 0 default_message),
     r_payloads = (\<lambda>_. replicate kMaxValueBytes (char_of (0 :: nat))) \<rparr>"

lemma fresh_ring_rep [simp]: "ring_rep cap (fresh_ring p) []"
  by (simp add: ring_rep_def region_rep_def fresh_ring_def)

lemma fits_default_message [simp]: "fits default_message"
  by (simp add: fits_def msg_bytes_def payload_bytes_def default_message_def default_payload_def)

text \<open>Property C14: a ring is a first-in first-out queue that neither loses, duplicates nor reorders
  messages, across any number of wrap-arounds of its slots and of its 64-bit positions. After any
  sequence of \<open>push\<close> and \<open>pop\<close> calls, what was accepted is what was delivered followed by what the ring
  still holds, and popping again delivers exactly the rest.\<close>

theorem ring_fifo:
  assumes "ring_rep kBandleRingCapacity r q" "\<forall>m. Send m \<in> set es \<longrightarrow> wf_msg m \<and> fits m"
    and "chan_run (push kBandleRingCapacity) (pop kBandleRingCapacity default_message) es r = (acc, got, r')"
  shows "\<exists>rest more r''. q @ map wire acc = map wire got @ rest \<and> ring_rep kBandleRingCapacity r' rest \<and>
      chan_run (push kBandleRingCapacity) (pop kBandleRingCapacity default_message)
        (replicate (length rest) Recv) r' = ([], more, r'') \<and> map wire more = rest \<and>
      ring_rep kBandleRingCapacity r'' []"
  using spsc.history [OF assms] spsc.drain by blast

theorem ring_fifo_witness:
  "\<exists>acc got r' rest.
     chan_run (push kBandleRingCapacity) (pop kBandleRingCapacity default_message)
       [Send default_message, Recv] (fresh_ring (- 1)) = (acc, got, r') \<and>
     map wire acc = map wire got @ rest \<and> ring_rep kBandleRingCapacity r' rest"
proof -
  obtain acc got r' where run: "chan_run (push kBandleRingCapacity) (pop kBandleRingCapacity default_message)
       [Send default_message, Recv] (fresh_ring (- 1)) = (acc, got, r')"
    by (metis prod_cases3)
  from ring_fifo [OF fresh_ring_rep _ run] run show ?thesis by auto
qed

text \<open>\<open>push_batch\<close> is all or nothing. A batch that fits in the free space and whose messages
  are all within the payload limit is appended in order; any other batch is refused and the messages in
  the ring are the same as before, although slots ahead of the head may have been written.\<close>

theorem push_batch_all_or_nothing:
  assumes "ring_rep kBandleRingCapacity r q" "length ms < 2 ^ 63" "\<forall>m\<in>set ms. wf_msg m"
  shows "\<exists>r'. if length q + length ms \<le> unat kBandleRingCapacity \<and> list_all fits ms
              then push_batch kBandleRingCapacity ms r = (True, r') \<and>
                   ring_rep kBandleRingCapacity r' (q @ map wire ms)
              else push_batch kBandleRingCapacity ms r = (False, r') \<and> ring_rep kBandleRingCapacity r' q"
proof (cases "length q + length ms \<le> unat kBandleRingCapacity \<and> list_all fits ms")
  case True
  with push_batch_rep [OF kBandleRingCapacity_pow2 assms(1), of ms] assms(3) show ?thesis
    by (simp add: list_all_iff)
next
  case False
  with push_batch_reject [OF kBandleRingCapacity_pow2 assms(1,2,3)] show ?thesis
    by (simp only: if_False list_all_iff) (metis not_le)
qed

theorem push_batch_all_or_nothing_witness:
  "\<exists>r'. push_batch kBandleRingCapacity [default_message, default_message] (fresh_ring (- 1)) = (True, r') \<and>
        ring_rep kBandleRingCapacity r' [wire default_message, wire default_message]"
  using push_batch_all_or_nothing [OF fresh_ring_rep [of kBandleRingCapacity "- 1"],
      of "[default_message, default_message]"]
  by (simp add: kBandleRingCapacity_def)

text \<open>Property C24: \<open>read_batch_at_abs\<close> at the tail returns the oldest messages of the ring in order, as
  many as asked for, and committing the tail behind them removes exactly these.\<close>

theorem read_batch_commit:
  assumes "ring_rep kBandleRingCapacity r (ms @ q)" "length ms \<le> length out" "\<forall>m\<in>set out. wf_msg m"
  shows "\<exists>out'. read_batch_at_abs kBandleRingCapacity (r_tail r) out (length ms) r = (length ms, out') \<and>
      map wire (take (length ms) out') = ms \<and>
      ring_rep kBandleRingCapacity (commit_tail (r_tail r + of_nat (length ms)) r) q"
proof -
  have "region_rep kBandleRingCapacity r (r_tail r) ms"
    using assms(1) region_rep_prefix by (auto simp: ring_rep_def)
  from read_batch_at_abs_rep [OF this assms(2,3)] commit_tail_rep [OF assms(1)] show ?thesis by metis
qed

theorem read_batch_commit_witness:
  "\<exists>r out'. read_batch_at_abs kBandleRingCapacity (r_tail r) [default_message] 1 r = (1, out') \<and>
      map wire (take 1 out') = [wire default_message] \<and>
      ring_rep kBandleRingCapacity (commit_tail (r_tail r + 1) r) []"
proof -
  from push_rep [OF kBandleRingCapacity_pow2 fresh_ring_rep [of kBandleRingCapacity "- 1"] _
      wf_default_message fits_default_message]
  obtain r where "ring_rep kBandleRingCapacity r ([wire default_message] @ [])"
    by (auto simp: kBandleRingCapacity_def)
  from read_batch_commit [OF this, of "[default_message]"]
  show ?thesis by (intro exI [of _ r]) simp
qed

end
