(* ===== verification/Payload_Coherence.thy ===== *)
theory Payload_Coherence
  imports Ring_Refinement
begin

text \<open>
  Payloads in memory without hardware coherence. The descriptors and positions of a ring lie in the coherent
  part of the shared memory, the payloads in \<open>BandleNonHwccState\<close>. The writer stores them with non-temporal
  stores and a fence, which reach the memory; the reader copies them with ordinary loads, which go through
  its cache, and never flushes a line. Here a ring is combined with the lines of the payload area that the
  reader's cache holds: a load takes a cached line as it is, whatever the memory holds by now, and brings
  the other lines in; the cache may drop a line at any time. With coherent payloads these are the
  operations of \<open>Message_Queue\<close>.
\<close>

section \<open>The reader's cache\<close>

definition payload_lines :: nat where
  "payload_lines = kMaxValueBytes div 64"

definition line_of :: "bytes \<Rightarrow> nat \<Rightarrow> bytes" where
  "line_of p j = take 64 (drop (64 * j) p)"

record NcRing =
  nc_ring :: SpscRing
  nc_cache :: "u64 \<Rightarrow> nat \<Rightarrow> bytes option"

text \<open>A payload slot as the reader's loads see it, and the lines in the cache after loading \<open>n\<close> bytes.\<close>

definition cached_view :: "(nat \<Rightarrow> bytes option) \<Rightarrow> bytes \<Rightarrow> bytes" where
  "cached_view lines p = concat (map (\<lambda>j. case lines j of Some l \<Rightarrow> l | None \<Rightarrow> line_of p j) [0..<payload_lines])"

definition load_lines :: "nat \<Rightarrow> bytes \<Rightarrow> (nat \<Rightarrow> bytes option) \<Rightarrow> nat \<Rightarrow> bytes option" where
  "load_lines n p lines j = (if 64 * j < n \<and> lines j = None then Some (line_of p j) else lines j)"

definition nc_read_slot :: "NcRing \<Rightarrow> u64 \<Rightarrow> u64 \<Rightarrow> BandleMessage \<Rightarrow> (BandleMessage \<times> NcRing) option" where
  "nc_read_slot nc idx expected out =
     map_option (\<lambda>m. let p = r_payloads (nc_ring nc) idx; lines = nc_cache nc idx
         in (copy_payload (cached_view lines p) m,
             nc\<lparr>nc_cache := (nc_cache nc)(idx := load_lines (unat (msg_bytes m)) p lines)\<rparr>))
       (read_slot_descriptor (nc_ring nc) idx expected out)"

definition nc_pop :: "u64 \<Rightarrow> BandleMessage \<Rightarrow> NcRing \<Rightarrow> (BandleMessage \<times> NcRing) option" where
  "nc_pop cap out nc =
     (let t = r_tail (nc_ring nc); h = r_head (nc_ring nc)
      in if t = h then None
         else case nc_read_slot nc (ring_slot cap t) (t + 1) out of
           None \<Rightarrow> None
         | Some (m, nc1) \<Rightarrow> Some (m, nc1\<lparr>nc_ring := (nc_ring nc1)\<lparr>r_tail := t + 1\<rparr>\<rparr>))"

definition nc_push :: "u64 \<Rightarrow> BandleMessage \<Rightarrow> NcRing \<Rightarrow> bool \<times> NcRing" where
  "nc_push cap msg nc = (case push cap msg (nc_ring nc) of (ok, r) \<Rightarrow> (ok, nc\<lparr>nc_ring := r\<rparr>))"

text \<open>Runs: calls of both sides, loads of a line by the reader, such as those of the warm-up, and evictions.\<close>

datatype nc_event = Nc_Push BandleMessage | Nc_Pop | Nc_Load u64 nat | Nc_Evict u64 nat

datatype nc_result = Pushed bool | Popped "BandleMessage option" | Silent

fun nc_step :: "u64 \<Rightarrow> nc_event \<Rightarrow> NcRing \<Rightarrow> nc_result \<times> NcRing" where
  "nc_step cap (Nc_Push m) nc = (case nc_push cap m nc of (ok, nc1) \<Rightarrow> (Pushed ok, nc1))"
| "nc_step cap Nc_Pop nc =
     (case nc_pop cap default_message nc of None \<Rightarrow> (Popped None, nc) | Some (m, nc1) \<Rightarrow> (Popped (Some m), nc1))"
| "nc_step cap (Nc_Load idx j) nc =
     (Silent, nc\<lparr>nc_cache := (nc_cache nc)(idx := (nc_cache nc idx)(j :=
        (case nc_cache nc idx j of Some l \<Rightarrow> Some l | None \<Rightarrow> Some (line_of (r_payloads (nc_ring nc) idx) j))))\<rparr>)"
| "nc_step cap (Nc_Evict idx j) nc = (Silent, nc\<lparr>nc_cache := (nc_cache nc)(idx := (nc_cache nc idx)(j := None))\<rparr>)"

fun nc_run :: "u64 \<Rightarrow> nc_event list \<Rightarrow> NcRing \<Rightarrow> nc_result list \<times> NcRing" where
  "nc_run cap [] nc = ([], nc)"
| "nc_run cap (e # es) nc =
     (case nc_step cap e nc of (x, nc1) \<Rightarrow> case nc_run cap es nc1 of (xs, nc2) \<Rightarrow> (x # xs, nc2))"

text \<open>The same calls on a ring with coherent payloads.\<close>

fun sc_step :: "u64 \<Rightarrow> nc_event \<Rightarrow> SpscRing \<Rightarrow> nc_result \<times> SpscRing" where
  "sc_step cap (Nc_Push m) r = (case push cap m r of (ok, r1) \<Rightarrow> (Pushed ok, r1))"
| "sc_step cap Nc_Pop r =
     (case pop cap default_message r of None \<Rightarrow> (Popped None, r) | Some (m, r1) \<Rightarrow> (Popped (Some m), r1))"
| "sc_step cap _ r = (Silent, r)"

fun sc_run :: "u64 \<Rightarrow> nc_event list \<Rightarrow> SpscRing \<Rightarrow> nc_result list \<times> SpscRing" where
  "sc_run cap [] r = ([], r)"
| "sc_run cap (e # es) r =
     (case sc_step cap e r of (x, r1) \<Rightarrow> case sc_run cap es r1 of (xs, r2) \<Rightarrow> (x # xs, r2))"

lemma nc_run_append:
  "nc_run cap (es @ fs) nc = (case nc_run cap es nc of (xs, nc1) \<Rightarrow> case nc_run cap fs nc1 of (ys, nc2) \<Rightarrow> (xs @ ys, nc2))"
  by (induction es arbitrary: nc) (simp_all split: prod.split)

section \<open>Lines\<close>

lemma payload_lines_eq: "payload_lines = 17" "kMaxValueBytes = 64 * payload_lines"
  by (simp_all add: payload_lines_def kMaxValueBytes_def)

lemma concat_lines: "length p = 64 * k \<Longrightarrow> concat (map (line_of p) [0..<k]) = p"
proof (induction k arbitrary: p)
  case (Suc k)
  have "map (line_of p) [0..<Suc k] = line_of p 0 # map (line_of (drop 64 p)) [0..<k]"
    by (simp add: upt_conv_Cons line_of_def add.commute flip: map_Suc_upt del: upt_Suc)
  then have "concat (map (line_of p) [0..<Suc k]) = take 64 p @ concat (map (line_of (drop 64 p)) [0..<k])"
    by (simp only: concat.simps) (simp add: line_of_def)
  with Suc.IH [of "drop 64 p"] Suc.prems show ?case by simp
qed simp

lemma length_line: "length p = kMaxValueBytes \<Longrightarrow> 64 * j < kMaxValueBytes \<Longrightarrow> length (line_of p j) = 64"
  by (simp add: line_of_def kMaxValueBytes_def min_def) arith

lemma view_uncached:
  assumes "length p = kMaxValueBytes" "\<And>j. lines j = None"
  shows "cached_view lines p = p"
  using assms concat_lines [of p payload_lines] by (simp add: cached_view_def payload_lines_eq(2))

lemma concat_same_length:
  "\<forall>x\<in>set xs. length x = n \<Longrightarrow> i < n \<Longrightarrow> j < length xs \<Longrightarrow> concat xs ! (n * j + i) = xs ! j ! i"
proof (induction xs arbitrary: j)
  case (Cons x xs)
  then show ?case by (cases j) (auto simp: nth_append)
qed simp

lemma length_concat_same: "\<forall>x\<in>set xs. length x = n \<Longrightarrow> length (concat xs) = n * length xs"
  by (induction xs) simp_all

definition lines_ok :: "(nat \<Rightarrow> bytes option) \<Rightarrow> bool" where
  "lines_ok lines \<longleftrightarrow> (\<forall>j l. lines j = Some l \<longrightarrow> length l = 64)"

lemma view_lines:
  assumes "length p = kMaxValueBytes" "lines_ok lines"
  shows "length (cached_view lines p) = kMaxValueBytes"
    and "j < payload_lines \<Longrightarrow> i < 64 \<Longrightarrow>
      cached_view lines p ! (64 * j + i) = (case lines j of Some l \<Rightarrow> l ! i | None \<Rightarrow> p ! (64 * j + i))"
proof -
  let ?ls = "map (\<lambda>j. case lines j of Some l \<Rightarrow> l | None \<Rightarrow> line_of p j) [0..<payload_lines]"
  have len: "\<forall>l\<in>set ?ls. length l = 64"
    using assms by (auto simp: lines_ok_def line_of_def payload_lines_eq(2) split: option.splits)
  show "length (cached_view lines p) = kMaxValueBytes"
    using length_concat_same [OF len] by (simp add: cached_view_def payload_lines_eq(2))
  assume "j < payload_lines" "i < 64"
  with concat_same_length [OF len, of i j] assms(1)
  show "cached_view lines p ! (64 * j + i) = (case lines j of Some l \<Rightarrow> l ! i | None \<Rightarrow> p ! (64 * j + i))"
    by (auto simp: cached_view_def line_of_def payload_lines_eq(2) split: option.splits)
qed

section \<open>The first lap\<close>

fun is_push :: "nc_event \<Rightarrow> bool" where
  "is_push (Nc_Push m) \<longleftrightarrow> True"
| "is_push _ \<longleftrightarrow> False"

fun is_load :: "nc_event \<Rightarrow> bool" where
  "is_load (Nc_Load idx j) \<longleftrightarrow> True"
| "is_load _ \<longleftrightarrow> False"

text \<open>Only slots of the first \<open>b\<close> positions from \<open>t0\<close> on are in the cache.\<close>

definition cached_below :: "u64 \<Rightarrow> u64 \<Rightarrow> nat \<Rightarrow> NcRing \<Rightarrow> bool" where
  "cached_below cap t0 b nc \<longleftrightarrow> (\<forall>idx j. nc_cache nc idx j \<noteq> None \<longrightarrow> (\<exists>i<b. idx = ring_slot cap (t0 + of_nat i)))"

lemma nc_pop_uncached:
  assumes "\<forall>j. nc_cache nc (ring_slot cap (r_tail (nc_ring nc))) j = None"
    and "length (r_payloads (nc_ring nc) (ring_slot cap (r_tail (nc_ring nc)))) = kMaxValueBytes"
  shows "map_option (map_prod id nc_ring) (nc_pop cap out nc) = pop cap out (nc_ring nc)"
    and "nc_pop cap out nc = Some (m, nc1) \<Longrightarrow> idx \<noteq> ring_slot cap (r_tail (nc_ring nc)) \<Longrightarrow> nc_cache nc1 idx = nc_cache nc idx"
  using view_uncached [OF assms(2), of "nc_cache nc (ring_slot cap (r_tail (nc_ring nc)))"] assms(1)
  by (auto simp: nc_pop_def pop_def nc_read_slot_def read_slot_def Let_def split: option.splits if_splits)

text \<open>
  The first lap: \<open>b\<close> messages have been popped since the ring stood at \<open>t0\<close>, and the reader's cache holds only
  lines of their slots.
\<close>

definition first_lap :: "u64 \<Rightarrow> u64 \<Rightarrow> nat \<Rightarrow> BandleMessage list \<Rightarrow> NcRing \<Rightarrow> bool" where
  "first_lap cap t0 b q nc \<longleftrightarrow>
     ring_rep cap (nc_ring nc) q \<and> r_tail (nc_ring nc) = t0 + of_nat b \<and> cached_below cap t0 b nc"

lemma first_lap_push:
  assumes cap: "pow2_capacity cap k" and lap: "first_lap cap t0 b q nc" and m: "wf_msg m"
    and room: "b + Suc (length q) \<le> unat cap" and p: "push cap m (nc_ring nc) = (ok, r)"
  obtains q' where "first_lap cap t0 b q' (nc\<lparr>nc_ring := r\<rparr>)" "length q' \<le> Suc (length q)"
proof (cases "fits m")
  case True
  have rep: "ring_rep cap (nc_ring nc) q" using lap by (simp add: first_lap_def)
  from push_rep [OF cap rep _ m True] push_room [OF _ True, of cap "nc_ring nc"] ring_rep_room [OF cap rep] room p
  have "ring_rep cap r (q @ [wire m])" "r_tail r = r_tail (nc_ring nc)" by auto
  then show thesis using lap by (intro that [of "q @ [wire m]"]) (simp_all add: first_lap_def cached_below_def)
next
  case False
  with p have "nc\<lparr>nc_ring := r\<rparr> = nc" by (auto simp: push_oversize)
  with lap show thesis by (intro that [of q]) simp_all
qed

lemma first_lap_pop:
  assumes cap: "pow2_capacity cap k" and lap: "first_lap cap t0 b (w # q) nc" and room: "b < unat cap"
  obtains m nc1 where "pop cap default_message (nc_ring nc) = Some (m, nc_ring nc1)"
    "nc_pop cap default_message nc = Some (m, nc1)" "first_lap cap t0 (Suc b) q nc1"
proof -
  let ?t = "ring_slot cap (r_tail (nc_ring nc))"
  have rep: "ring_rep cap (nc_ring nc) (w # q)" and tail: "r_tail (nc_ring nc) = t0 + of_nat b"
    and cached: "cached_below cap t0 b nc" using lap by (simp_all add: first_lap_def)
  have pay: "length (r_payloads (nc_ring nc) ?t) = kMaxValueBytes" using rep by (simp add: ring_rep_def region_rep_def)
  have free: "\<forall>j. nc_cache nc ?t j = None"
    using room tail cached ring_slot_inj [OF cap, of b _ t0] by (fastforce simp: cached_below_def)
  obtain m r where p: "pop cap default_message (nc_ring nc) = Some (m, r)" "ring_rep cap r q"
    using pop_rep [of cap "nc_ring nc" w q default_message] rep by auto
  note eq = nc_pop_uncached [OF free pay]
  from eq(1) [of default_message] p(1) obtain nc1 where nc1: "nc_pop cap default_message nc = Some (m, nc1)" "nc_ring nc1 = r"
    by (auto simp: map_prod_def split: prod.splits)
  have "r_tail r = t0 + of_nat (Suc b)" using p(1) tail by (auto simp: pop_def Let_def split: if_splits option.splits)
  moreover have "cached_below cap t0 (Suc b) nc1"
    using tail cached eq(2) [OF nc1(1)] by (fastforce simp: cached_below_def less_Suc_eq)
  ultimately show thesis using that [of m nc1] nc1 p by (simp add: first_lap_def)
qed

lemma first_lap_pop_empty:
  assumes "first_lap cap t0 b [] nc"
  shows "pop cap default_message (nc_ring nc) = None" "nc_pop cap default_message nc = None"
proof -
  have rep: "ring_rep cap (nc_ring nc) []" using assms by (simp add: first_lap_def)
  then show "pop cap default_message (nc_ring nc) = None" by (rule pop_empty)
  show "nc_pop cap default_message nc = None" using rep by (auto simp: nc_pop_def ring_rep_def Let_def unat_eq_0)
qed

lemma first_lap_run:
  assumes cap: "pow2_capacity cap k"
  shows "first_lap cap t0 b q nc \<Longrightarrow> b + length q + length (filter is_push es) \<le> unat cap \<Longrightarrow>
    \<forall>m. Nc_Push m \<in> set es \<longrightarrow> wf_msg m \<Longrightarrow> \<forall>e\<in>set es. \<not> is_load e \<Longrightarrow>
    fst (nc_run cap es nc) = fst (sc_run cap es (nc_ring nc))"
proof (induction es arbitrary: nc q b)
  case (Cons e es)
  have wf: "\<forall>m. Nc_Push m \<in> set es \<longrightarrow> wf_msg m" "\<forall>e\<in>set es. \<not> is_load e" using Cons.prems(3,4) by auto
  show ?case
  proof (cases e)
    case (Nc_Push m)
    have m: "wf_msg m" "b + Suc (length q) + length (filter is_push es) \<le> unat cap"
      using Cons.prems(2,3) by (auto simp: Nc_Push)
    obtain ok r where p: "push cap m (nc_ring nc) = (ok, r)" by fastforce
    obtain q' where q': "first_lap cap t0 b q' (nc\<lparr>nc_ring := r\<rparr>)" "length q' \<le> Suc (length q)"
      using first_lap_push [OF cap Cons.prems(1) m(1) _ p] m(2) by (metis add_leD1)
    have "fst (nc_run cap es (nc\<lparr>nc_ring := r\<rparr>)) = fst (sc_run cap es r)"
      using Cons.IH [OF q'(1) _ wf] q'(2) m(2) by simp
    then show ?thesis by (simp add: Nc_Push nc_push_def p split_beta)
  next
    case Nc_Pop
    have np: "b + length q + length (filter is_push es) \<le> unat cap" using Cons.prems(2) by (simp add: Nc_Pop)
    show ?thesis
    proof (cases q)
      case Nil
      with first_lap_pop_empty [of cap t0 b nc] Cons.prems(1) Cons.IH [OF Cons.prems(1) np wf] show ?thesis
        by (simp add: Nc_Pop split_beta)
    next
      case (Cons w q')
      obtain m nc1 where nc1: "pop cap default_message (nc_ring nc) = Some (m, nc_ring nc1)"
        "nc_pop cap default_message nc = Some (m, nc1)" "first_lap cap t0 (Suc b) q' nc1"
        using first_lap_pop [OF cap, of t0 b w q' nc] Cons.prems(1) np Cons by auto
      then show ?thesis using Cons.IH [OF nc1(3) _ wf] np Cons by (simp add: Nc_Pop split_beta)
    qed
  next
    case (Nc_Load idx j)
    with Cons.prems(4) show ?thesis by simp
  next
    case (Nc_Evict idx j)
    let ?nc = "nc\<lparr>nc_cache := (nc_cache nc)(idx := (nc_cache nc idx)(j := None))\<rparr>"
    have "first_lap cap t0 b q ?nc"
      using Cons.prems(1) by (auto simp: first_lap_def cached_below_def split: if_splits)
    with Cons.IH [of b q ?nc] Cons.prems(2) wf show ?thesis by (simp add: Nc_Evict split_beta)
  qed
qed simp

text \<open>Property C32: payloads of the first lap. As long as no more messages are pushed than the ring has slots, and the
  reader's cache holds no line of the payload area at first, the ring works as with coherent payloads: every
  call returns the same, however pushes, pops and evictions interleave.\<close>

theorem first_lap_coherent:
  assumes "ring_rep kBandleRingCapacity (nc_ring nc) []" "\<forall>idx j. nc_cache nc idx j = None"
    and "length (filter is_push es) \<le> unat kBandleRingCapacity" "\<forall>m. Nc_Push m \<in> set es \<longrightarrow> wf_msg m"
    and "\<forall>e\<in>set es. \<not> is_load e"
  shows "fst (nc_run kBandleRingCapacity es nc) = fst (sc_run kBandleRingCapacity es (nc_ring nc))"
  using first_lap_run [OF kBandleRingCapacity_pow2, of "r_tail (nc_ring nc)" 0 "[]" nc es] assms
  by (simp add: first_lap_def cached_below_def)

section \<open>Stale lines\<close>

definition with_data :: "bytes \<Rightarrow> BandleMessage \<Rightarrow> BandleMessage" where
  "with_data d w = w\<lparr>m_body := (m_body w)\<lparr>b_data := d\<rparr>\<rparr>"

lemma wire_of_slot_data:
  "wire_of_slot d p' = with_data (take (unat (desc_bytes d)) p') (wire_of_slot d p)"
  by (simp add: wire_of_slot_def with_data_def wire_def fill_from_descriptor_def msg_bytes_def desc_bytes_def)

lemma nc_pop_front:
  assumes rep: "ring_rep cap (nc_ring nc) (w # q)" and lines: "lines_ok (nc_cache nc (ring_slot cap (r_tail (nc_ring nc))))"
  defines "idx \<equiv> ring_slot cap (r_tail (nc_ring nc))" and "n \<equiv> unat (msg_bytes w)"
  defines "p \<equiv> r_payloads (nc_ring nc) idx"
  shows "\<exists>m. nc_pop cap default_message nc = Some (m, nc\<lparr>nc_ring := (nc_ring nc)\<lparr>r_tail := r_tail (nc_ring nc) + 1\<rparr>,
        nc_cache := (nc_cache nc)(idx := load_lines n p (nc_cache nc idx))\<rparr>) \<and>
    wire m = with_data (take n (cached_view (nc_cache nc idx) p)) w"
proof -
  let ?r = "nc_ring nc" and ?v = "cached_view (nc_cache nc idx) p"
  let ?d = "r_descs ?r idx"
  have holds: "slot_holds cap ?r (r_tail ?r) w" and p: "length p = kMaxValueBytes" and ne: "r_tail ?r \<noteq> r_head ?r"
    using rep by (auto simp: ring_rep_def region_rep_def p_def)
  then have d: "desc_bytes ?d \<le> of_nat kMaxValueBytes" "wire_of_slot ?d p = w"
    by (simp_all add: slot_holds_def idx_def p_def Let_def)
  have n: "n = unat (desc_bytes ?d)"
    unfolding n_def d(2) [symmetric] by (simp add: wire_of_slot_def wire_def msg_bytes_def desc_bytes_def fill_from_descriptor_def)
  let ?m = "copy_payload ?v (fill_from_descriptor ?d default_message)"
  have "wf_msg default_message" by (simp add: wf_msg_def default_message_def default_payload_def)
  moreover have "length ?v = kMaxValueBytes" using view_lines(1) [OF p] lines by (simp add: idx_def)
  ultimately have "wire ?m = wire_of_slot ?d ?v" using d(1) by (intro wire_copy_payload(1))
  also have "\<dots> = with_data (take n ?v) w" unfolding n d(2) [symmetric] by (rule wire_of_slot_data)
  finally have "wire ?m = with_data (take n ?v) w" .
  then show ?thesis
    using read_slot_descriptor_holds [OF holds, of default_message] ne
    by (simp add: nc_pop_def nc_read_slot_def Let_def idx_def [symmetric] p_def [symmetric] n)
qed

text \<open>A line that was in the cache before a message was written to its slot hides the message.\<close>

lemma view_stale:
  assumes "length p = kMaxValueBytes" "length p' = kMaxValueBytes" "lines_ok lines" "n \<le> kMaxValueBytes"
  shows "take n (cached_view (load_lines n p lines) p') = take n (cached_view lines p)"
proof (rule nth_equalityI)
  have ok: "lines_ok (load_lines n p lines)"
    using assms(3,4) length_line [OF assms(1)] by (auto simp: lines_ok_def load_lines_def split: if_splits)
  show "length (take n (cached_view (load_lines n p lines) p')) = length (take n (cached_view lines p))"
    using view_lines(1) [OF assms(2) ok] view_lines(1) [OF assms(1,3)] by simp
  fix x assume "x < length (take n (cached_view (load_lines n p lines) p'))"
  then have x: "x < n" "x < kMaxValueBytes" using assms(4) by auto
  define j i where "j = x div 64" and "i = x mod 64"
  have ji: "x = 64 * j + i" "i < 64" "j < payload_lines" "64 * j < n"
    using x by (auto simp: j_def i_def payload_lines_eq(2))
  have "(case load_lines n p lines j of Some l \<Rightarrow> l ! i | None \<Rightarrow> p' ! (64 * j + i))
      = (case lines j of Some l \<Rightarrow> l ! i | None \<Rightarrow> p ! (64 * j + i))"
    using ji assms(1) by (auto simp: load_lines_def line_of_def payload_lines_eq(2) split: option.splits)
  then show "take n (cached_view (load_lines n p lines) p') ! x = take n (cached_view lines p) ! x"
    using view_lines(2) [OF assms(2) ok ji(3,2)] view_lines(2) [OF assms(1,3) ji(3,2)] x(1) ji(1) by simp
qed

lemma nc_push_empty:
  assumes cap: "pow2_capacity cap k" and rep: "ring_rep cap (nc_ring nc) []" and m: "wf_msg m" "fits m"
  defines "r \<equiv> (put_slot cap (r_tail (nc_ring nc)) m (nc_ring nc))\<lparr>r_head := r_tail (nc_ring nc) + 1\<rparr>"
  shows "nc_push cap m nc = (True, nc\<lparr>nc_ring := r\<rparr>)" "ring_rep cap r [wire m]"
proof -
  have h: "r_head (nc_ring nc) = r_tail (nc_ring nc)" using rep by (auto simp: ring_rep_def unat_eq_0)
  have c: "0 < unat cap" using pow2_capacity_unat [OF cap] by simp
  have p: "push cap m (nc_ring nc) = (True, r)"
    using push_room [of cap "nc_ring nc" m] m(2) c h by (simp add: r_def word_le_nat_alt)
  then show "nc_push cap m nc = (True, nc\<lparr>nc_ring := r\<rparr>)" by (simp add: nc_push_def)
  show "ring_rep cap r [wire m]" using push_rep [OF cap rep _ m] p c by simp
qed

text \<open>A message without payload leaves the payload area and the cache alone.\<close>

lemma filler_run:
  assumes cap: "pow2_capacity cap k" and rep: "ring_rep cap (nc_ring nc) []"
    and m: "wf_msg m" "msg_bytes m = 0" and lines: "\<forall>idx. lines_ok (nc_cache nc idx)"
  shows "\<exists>xs nc'. nc_run cap (concat (replicate n [Nc_Push m, Nc_Pop])) nc = (xs, nc') \<and> ring_rep cap (nc_ring nc') [] \<and>
    r_tail (nc_ring nc') = r_tail (nc_ring nc) + of_nat n \<and> r_payloads (nc_ring nc') = r_payloads (nc_ring nc) \<and>
    nc_cache nc' = nc_cache nc"
  using rep lines
proof (induction n arbitrary: nc)
  case (Suc n)
  let ?t = "r_tail (nc_ring nc)"
  let ?r = "(put_slot cap ?t m (nc_ring nc))\<lparr>r_head := ?t + 1\<rparr>"
  let ?nc = "nc\<lparr>nc_ring := ?r\<rparr>"
  have "fits m" using m(2) by (simp add: fits_def)
  note p = nc_push_empty [OF cap Suc.prems(1) m(1) this]
  have t: "r_tail ?r = ?t" by simp
  have "msg_bytes (wire m) = 0" using m(2) by (simp add: wire_def msg_bytes_def)
  moreover have "load_lines 0 q lines = lines" for q lines by (simp add: load_lines_def fun_eq_iff)
  ultimately obtain x where x: "nc_pop cap default_message ?nc = Some (x, ?nc\<lparr>nc_ring := ?r\<lparr>r_tail := ?t + 1\<rparr>\<rparr>)"
    using nc_pop_front [of cap ?nc "wire m" "[]"] p(2) Suc.prems(2) by auto
  let ?nc1 = "?nc\<lparr>nc_ring := ?r\<lparr>r_tail := ?t + 1\<rparr>\<rparr>"
  have rep1: "ring_rep cap (nc_ring ?nc1) []" using commit_tail_rep [of cap ?r "[wire m]" "[]"] p(2) by (simp add: commit_tail_def)
  have pay: "r_payloads (nc_ring ?nc1) = r_payloads (nc_ring nc)" using m(2) by (simp add: put_slot_payload)
  from Suc.IH [OF rep1] Suc.prems(2) obtain xs nc' where
    "nc_run cap (concat (replicate n [Nc_Push m, Nc_Pop])) ?nc1 = (xs, nc')" "ring_rep cap (nc_ring nc') []"
    "r_tail (nc_ring nc') = r_tail (nc_ring ?nc1) + of_nat n" "r_payloads (nc_ring nc') = r_payloads (nc_ring ?nc1)"
    "nc_cache nc' = nc_cache ?nc1" by auto
  with pay p(1) x show ?case by (simp add: split_beta)
qed auto

lemma ring_slot_lap:
  assumes "pow2_capacity cap k"
  shows "ring_slot cap (t + cap) = ring_slot cap t"
proof -
  have cap: "k \<le> 64" "cap = of_nat (2 ^ k)" using assms by (simp_all add: pow2_capacity_def)
  have "unat (t + of_nat (2 ^ k)) mod 2 ^ k = unat t mod 2 ^ k" using unat_add_of_nat_mod [OF cap(1), of t "2 ^ k"] by simp
  then have "take_bit k (t + of_nat (2 ^ k)) = take_bit k t" using unat_take_bit_u64 [OF cap(1)] by (metis word_unat_eq_iff)
  then show ?thesis using assms by (simp add: pow2_capacity_def ring_slot_def ring_mask_def mask_pow2)
qed

text \<open>One message through an empty ring.\<close>

lemma push_pop_run:
  assumes cap: "pow2_capacity cap k" and rep: "ring_rep cap (nc_ring nc) []" and m: "wf_msg m" "fits m"
    and lines: "lines_ok (nc_cache nc idx)"
    and idx: "idx = ring_slot cap (r_tail (nc_ring nc))" and n: "n = unat (msg_bytes m)"
    and p: "p = r_payloads (put_slot cap (r_tail (nc_ring nc)) m (nc_ring nc)) idx"
  shows "\<exists>x nc'. nc_run cap [Nc_Push m, Nc_Pop] nc = ([Pushed True, Popped (Some x)], nc') \<and> ring_rep cap (nc_ring nc') [] \<and>
    wire x = with_data (take n (cached_view (nc_cache nc idx) p)) (wire m) \<and>
    r_tail (nc_ring nc') = r_tail (nc_ring nc) + 1 \<and>
    nc_cache nc' = (nc_cache nc)(idx := load_lines n p (nc_cache nc idx)) \<and>
    r_payloads (nc_ring nc') = (r_payloads (nc_ring nc))(idx := p)"
proof -
  let ?t = "r_tail (nc_ring nc)"
  let ?r = "(put_slot cap ?t m (nc_ring nc))\<lparr>r_head := ?t + 1\<rparr>"
  note pu = nc_push_empty [OF cap rep m]
  have w: "msg_bytes (wire m) = msg_bytes m" by (simp add: wire_def msg_bytes_def)
  from nc_pop_front [of cap "nc\<lparr>nc_ring := ?r\<rparr>" "wire m" "[]"] pu(2) lines
  obtain x where x: "nc_pop cap default_message (nc\<lparr>nc_ring := ?r\<rparr>) = Some (x, nc\<lparr>nc_ring := ?r\<lparr>r_tail := ?t + 1\<rparr>,
      nc_cache := (nc_cache nc)(idx := load_lines n p (nc_cache nc idx))\<rparr>)"
    "wire x = with_data (take n (cached_view (nc_cache nc idx) p)) (wire m)"
    by (auto simp: idx n p w)
  have "ring_rep cap (?r\<lparr>r_tail := ?t + 1\<rparr>) []"
    using commit_tail_rep [of cap ?r "[wire m]" "[]"] pu(2) by (simp add: commit_tail_def)
  moreover have "r_payloads ?r = (r_payloads (nc_ring nc))(idx := p)"
    by (simp add: p idx put_slot_payload fun_eq_iff)
  ultimately show ?thesis using pu(1) x by simp
qed

lemma stored_in_slot:
  fixes a :: u64
  assumes "ring_rep cap (nc_ring nc) q" "wf_msg m" "fits m"
  defines "p \<equiv> r_payloads (put_slot cap a m (nc_ring nc)) (ring_slot cap a)"
  shows "length p = kMaxValueBytes" "take (unat (msg_bytes m)) p = take (unat (msg_bytes m)) (b_data (m_body m))"
proof -
  have len: "\<forall>idx. length (r_payloads (nc_ring nc) idx) = kMaxValueBytes" using assms(1) by (simp add: ring_rep_def region_rep_def)
  show "length p = kMaxValueBytes" unfolding p_def using put_slot_length [OF assms(2,3) len] .
  show "take (unat (msg_bytes m)) p = take (unat (msg_bytes m)) (b_data (m_body m))"
    unfolding p_def put_slot_payload using stored_payload(2) [OF assms(2,3)] len by simp
qed

lemma full_lap:
  assumes "pow2_capacity cap k"
  shows "t + 1 + of_nat (unat cap - 1) = t + cap"
proof -
  have "0 < unat cap" using pow2_capacity_unat [OF assms] by simp
  then have "of_nat (Suc (unat cap - 1)) = cap" by (metis Suc_diff_1 of_nat_unat ucast_id)
  then show ?thesis by (simp add: add.assoc)
qed

lemma lap_run:
  assumes cap: "pow2_capacity cap k" and rep: "ring_rep cap (nc_ring nc) []" and cold: "\<forall>idx j. nc_cache nc idx j = None"
    and m1: "wf_msg m1" "fits m1" and m2: "wf_msg m2" "fits m2" "msg_bytes m2 = msg_bytes m1"
  shows "\<exists>xs x nc'. nc_run cap ([Nc_Push m1, Nc_Pop] @ concat (replicate (unat cap - 1) [Nc_Push default_message, Nc_Pop])
      @ [Nc_Push m2, Nc_Pop]) nc = (xs @ [Popped (Some x)], nc') \<and> wire x = with_data (b_data (m_body (wire m1))) (wire m2)"
proof -
  let ?t = "r_tail (nc_ring nc)" and ?n = "unat (msg_bytes m1)"
  define idx where "idx = ring_slot cap ?t"
  define p where "p = r_payloads (put_slot cap ?t m1 (nc_ring nc)) idx"
  have none: "nc_cache nc i = (\<lambda>_. None)" for i using cold by auto
  have ok0: "lines_ok (\<lambda>_. None)" by (simp add: lines_ok_def)
  have p: "length p = kMaxValueBytes" "take ?n p = take ?n (b_data (m_body m1))"
    using stored_in_slot [OF rep m1, of ?t] by (simp_all add: p_def idx_def)
  have n: "?n \<le> kMaxValueBytes" by (rule fits_unat [OF m1(2)])
  define lines where "lines = load_lines ?n p (\<lambda>_. None)"
  have ok: "lines_ok lines" using length_line [OF p(1)] n by (auto simp: lines_def lines_ok_def load_lines_def split: if_splits)
  obtain x1 nc1 where r1: "nc_run cap [Nc_Push m1, Nc_Pop] nc = ([Pushed True, Popped (Some x1)], nc1)" "ring_rep cap (nc_ring nc1) []"
    "r_tail (nc_ring nc1) = ?t + 1" "nc_cache nc1 = (\<lambda>_ _. None)(idx := lines)"
    using push_pop_run [OF cap rep m1 _ idx_def refl p_def] none ok0 by (auto simp: lines_def fun_eq_iff)
  have dm: "wf_msg default_message" "msg_bytes default_message = 0"
    by (simp_all add: wf_msg_def default_message_def default_payload_def msg_bytes_def payload_bytes_def)
  have "\<forall>i. lines_ok (nc_cache nc1 i)" using r1(4) ok ok0 by simp
  from filler_run [OF cap r1(2) dm this] obtain xs nc2 where
    r2: "nc_run cap (concat (replicate (unat cap - 1) [Nc_Push default_message, Nc_Pop])) nc1 = (xs, nc2)" "ring_rep cap (nc_ring nc2) []"
    "r_tail (nc_ring nc2) = r_tail (nc_ring nc1) + of_nat (unat cap - 1)" "nc_cache nc2 = nc_cache nc1" by blast
  have "r_tail (nc_ring nc2) = ?t + cap" using r2(3) r1(3) full_lap [OF cap] by simp
  then have slot: "idx = ring_slot cap (r_tail (nc_ring nc2))" using ring_slot_lap [OF cap] by (simp add: idx_def)
  let ?p2 = "r_payloads (put_slot cap (r_tail (nc_ring nc2)) m2 (nc_ring nc2)) idx"
  have l2: "nc_cache nc2 idx = lines" using r2(4) r1(4) by simp
  from push_pop_run [OF cap r2(2) m2(1,2) _ slot refl refl] ok l2 obtain x nc3 where
    r3: "nc_run cap [Nc_Push m2, Nc_Pop] nc2 = ([Pushed True, Popped (Some x)], nc3)"
    "wire x = with_data (take ?n (cached_view lines ?p2)) (wire m2)" by (auto simp: m2(3))
  have "take ?n (cached_view lines ?p2) = take ?n p"
    using view_stale [OF p(1) _ ok0 n, of ?p2] stored_in_slot(1) [OF r2(2) m2(1,2), of "r_tail (nc_ring nc2)"]
      view_uncached [OF p(1), of "\<lambda>_. None"] by (simp add: lines_def slot)
  then have "wire x = with_data (b_data (m_body (wire m1))) (wire m2)" using r3(2) p(2) by (simp add: wire_def)
  moreover have "nc_run cap ([Nc_Push m1, Nc_Pop] @ concat (replicate (unat cap - 1) [Nc_Push default_message, Nc_Pop])
      @ [Nc_Push m2, Nc_Pop]) nc = (([Pushed True, Popped (Some x1)] @ xs @ [Pushed True]) @ [Popped (Some x)], nc3)"
    unfolding nc_run_append [of cap "[Nc_Push m1, Nc_Pop]"] r1(1) prod.case nc_run_append r2(1) r3(1) by simp
  ultimately show ?thesis by blast
qed

lemma warm_run:
  assumes cap: "pow2_capacity cap k" and rep: "ring_rep cap (nc_ring nc) []" and cold: "\<forall>idx j. nc_cache nc idx j = None"
    and m: "wf_msg m" "fits m" and idx: "idx = ring_slot cap (r_tail (nc_ring nc))"
  shows "\<exists>x nc'. nc_run cap [Nc_Load idx 0, Nc_Push m, Nc_Pop] nc = ([Silent, Pushed True, Popped (Some x)], nc') \<and>
    wire x = with_data (take (unat (msg_bytes m)) (line_of (r_payloads (nc_ring nc) idx) 0 @ drop 64 (b_data (m_body m)))) (wire m)"
proof -
  let ?n = "unat (msg_bytes m)" and ?l = "line_of (r_payloads (nc_ring nc) idx) 0" and ?d = "b_data (m_body m)"
  let ?nc = "nc\<lparr>nc_cache := (nc_cache nc)(idx := (nc_cache nc idx)(0 := Some ?l))\<rparr>"
  define p where "p = r_payloads (put_slot cap (r_tail (nc_ring ?nc)) m (nc_ring ?nc)) idx"
  have load: "nc_step cap (Nc_Load idx 0) nc = (Silent, ?nc)" using cold by simp
  have len: "length (r_payloads (nc_ring nc) idx) = kMaxValueBytes" using rep by (simp add: ring_rep_def region_rep_def)
  have l: "length ?l = 64" using length_line [OF len, of 0] by (simp add: kMaxValueBytes_def)
  then have ok: "lines_ok (nc_cache ?nc idx)" using cold by (auto simp: lines_ok_def)
  have p: "length p = kMaxValueBytes" "take ?n p = take ?n ?d" and d: "length ?d = kMaxValueBytes"
    using stored_in_slot [of cap ?nc "[]" m "r_tail (nc_ring ?nc)"] rep m by (simp_all add: p_def idx wf_msg_def)
  have n: "?n \<le> kMaxValueBytes" by (rule fits_unat [OF m(2)])
  have view: "take ?n (cached_view (nc_cache ?nc idx) p) = take ?n (?l @ drop 64 ?d)"
  proof (rule nth_equalityI)
    show "length (take ?n (cached_view (nc_cache ?nc idx) p)) = length (take ?n (?l @ drop 64 ?d))"
      using view_lines(1) [OF p(1) ok] l d by (simp add: kMaxValueBytes_def)
    fix x assume "x < length (take ?n (cached_view (nc_cache ?nc idx) p))"
    then have x: "x < ?n" "x < kMaxValueBytes" using n by auto
    define j i where "j = x div 64" and "i = x mod 64"
    have ji: "x = 64 * j + i" "i < 64" "j < payload_lines" using x by (auto simp: j_def i_def payload_lines_eq(2))
    have "p ! x = ?d ! x" using p(2) x(1) by (metis nth_take)
    then show "take ?n (cached_view (nc_cache ?nc idx) p) ! x = take ?n (?l @ drop 64 ?d) ! x"
      using view_lines(2) [OF p(1) ok ji(3,2)] x(1) ji l cold d x(2) by (cases "j = 0") (auto simp: nth_append)
  qed
  from push_pop_run [of cap k ?nc m idx ?n p] cap rep m ok idx obtain x nc' where
    "nc_run cap [Nc_Push m, Nc_Pop] ?nc = ([Pushed True, Popped (Some x)], nc')"
    "wire x = with_data (take ?n (cached_view (nc_cache ?nc idx) p)) (wire m)" by (auto simp: p_def)
  with load view show ?thesis by (simp add: split_beta del: nc_step.simps)
qed

text \<open>Property C33: stale payloads are delivered. The reader never drops cached lines of a payload slot. If a line is
  in its cache from before, as after the loads of the warm-up, the next message is delivered with that line in
  place of its own bytes; and if a slot comes round again after a lap of messages without payload, its new
  message is delivered with the payload of the message that was there one lap before, although its
  descriptor is the new one.\<close>

theorem stale_payload_delivered:
  assumes "ring_rep kBandleRingCapacity (nc_ring nc) []" "\<forall>idx j. nc_cache nc idx j = None"
    and "wf_msg m1" "fits m1" "wf_msg m2" "fits m2" "msg_bytes m2 = msg_bytes m1"
  defines "idx \<equiv> ring_slot kBandleRingCapacity (r_tail (nc_ring nc))"
  shows "(\<exists>x nc'. nc_run kBandleRingCapacity [Nc_Load idx 0, Nc_Push m1, Nc_Pop] nc
        = ([Silent, Pushed True, Popped (Some x)], nc') \<and>
      wire x = with_data (take (unat (msg_bytes m1))
        (line_of (r_payloads (nc_ring nc) idx) 0 @ drop 64 (b_data (m_body m1)))) (wire m1)) \<and>
    (\<exists>xs x nc'. nc_run kBandleRingCapacity ([Nc_Push m1, Nc_Pop]
          @ concat (replicate (unat kBandleRingCapacity - 1) [Nc_Push default_message, Nc_Pop]) @ [Nc_Push m2, Nc_Pop]) nc
        = (xs @ [Popped (Some x)], nc') \<and>
      wire x = with_data (b_data (m_body (wire m1))) (wire m2))"
  using warm_run [OF kBandleRingCapacity_pow2 assms(1-4), of idx] lap_run [OF kBandleRingCapacity_pow2 assms(1-7)]
  by (simp only: idx_def simp_thms)

definition cold_ring :: NcRing where
  "cold_ring = \<lparr> nc_ring = fresh_ring 0, nc_cache = (\<lambda>_ _. None) \<rparr>"

definition put_message :: "char \<Rightarrow> BandleMessage" where
  "put_message c = default_message\<lparr>m_body := default_payload\<lparr>b_op := CHR ''P'', b_key_len := 3,
     b_data := replicate kMaxValueBytes c\<rparr>\<rparr>"

lemma put_message_ok: "wf_msg (put_message c)" "fits (put_message c)" "msg_bytes (put_message c) = 3"
  by (simp_all add: put_message_def wf_msg_def fits_def msg_bytes_def payload_bytes_def default_message_def default_payload_def
      kMaxValueBytes_def)

theorem first_lap_coherent_witness:
  "fst (nc_run kBandleRingCapacity [Nc_Push (put_message CHR ''a''), Nc_Pop, Nc_Evict 0 0, Nc_Pop] cold_ring)
   = fst (sc_run kBandleRingCapacity [Nc_Push (put_message CHR ''a''), Nc_Pop, Nc_Evict 0 0, Nc_Pop] (fresh_ring 0))"
  using first_lap_coherent [of cold_ring "[Nc_Push (put_message CHR ''a''), Nc_Pop, Nc_Evict 0 0, Nc_Pop]"]
    put_message_ok(1) fresh_ring_rep [of kBandleRingCapacity 0]
  by (simp add: cold_ring_def kBandleRingCapacity_def del: nc_run.simps sc_run.simps)

theorem stale_payload_delivered_witness:
  "\<exists>xs x nc'. nc_run kBandleRingCapacity ([Nc_Push (put_message CHR ''a''), Nc_Pop]
      @ concat (replicate (unat kBandleRingCapacity - 1) [Nc_Push default_message, Nc_Pop])
      @ [Nc_Push (put_message CHR ''b''), Nc_Pop]) cold_ring = (xs @ [Popped (Some x)], nc') \<and>
    b_data (m_body (wire x)) = ''aaa''"
proof -
  have "b_data (m_body (wire (put_message CHR ''a''))) = ''aaa''"
    using put_message_ok(3) [of "CHR ''a''"]
    by (simp add: wire_def) (simp add: put_message_def kMaxValueBytes_def numeral_eq_Suc)
  moreover have "ring_rep kBandleRingCapacity (nc_ring cold_ring) []" "\<forall>idx j. nc_cache cold_ring idx j = None"
    using fresh_ring_rep by (simp_all add: cold_ring_def)
  ultimately show ?thesis
    using stale_payload_delivered [of cold_ring "put_message CHR ''a''" "put_message CHR ''b''"] put_message_ok
    by (auto simp: with_data_def)
qed

end
