(* ===== verification/Kv_Store.thy ===== *)
theory Kv_Store
  imports Prelude "HOL-Library.AList"
begin

text \<open>
  The sharded key-value store (\<open>include/kv_store.h\<close>, \<open>src/kv_store.cpp\<close>). A shard's
  \<open>std::unordered_map\<close> is an association list with distinct keys; \<open>hash\<close> stands for
  \<open>std::hash<std::string_view>\<close>, whose values the standard leaves open, and is an argument of every
  operation that uses it. The store is shown to refine one map from keys to values.
\<close>

type_synonym MapType = "(string \<times> string) list"

section \<open>The map operations that the store uses\<close>

definition map_find :: "MapType \<Rightarrow> string \<Rightarrow> string option" where
  "map_find m k = map_of m k"

definition map_insert_or_assign :: "string \<Rightarrow> string \<Rightarrow> MapType \<Rightarrow> MapType" where
  "map_insert_or_assign k v m = AList.update k v m"

text \<open>\<open>emplace\<close> and \<open>insert\<close> leave a present key alone.\<close>

definition map_emplace :: "string \<Rightarrow> string \<Rightarrow> MapType \<Rightarrow> MapType" where
  "map_emplace k v m = (if map_find m k = None then m @ [(k, v)] else m)"

definition map_erase :: "string \<Rightarrow> MapType \<Rightarrow> MapType" where
  "map_erase k m = AList.delete k m"

definition map_wf :: "MapType \<Rightarrow> bool" where
  "map_wf m \<longleftrightarrow> distinct (map fst m)"

section \<open>The store\<close>

definition kNumShards :: nat where
  "kNumShards = 256"

record KVStore =
  kv_shards :: "MapType list"

definition empty_store :: KVStore where
  "empty_store = \<lparr> kv_shards = replicate kNumShards [] \<rparr>"

definition get_shard_idx :: "(string \<Rightarrow> u64) \<Rightarrow> string \<Rightarrow> nat" where
  "get_shard_idx hash key = unat (hash key) mod kNumShards"

definition with_shard :: "nat \<Rightarrow> (MapType \<Rightarrow> MapType) \<Rightarrow> KVStore \<Rightarrow> KVStore" where
  "with_shard i f kv = kv\<lparr>kv_shards := (kv_shards kv)[i := f (kv_shards kv ! i)]\<rparr>"

definition kv_put :: "(string \<Rightarrow> u64) \<Rightarrow> string \<Rightarrow> string \<Rightarrow> KVStore \<Rightarrow> KVStore" where
  "kv_put hash key val kv = with_shard (get_shard_idx hash key) (map_insert_or_assign key val) kv"

text \<open>The \<open>string_view\<close> overload looks the key up first.\<close>

definition kv_put_view :: "(string \<Rightarrow> u64) \<Rightarrow> string \<Rightarrow> string \<Rightarrow> KVStore \<Rightarrow> KVStore" where
  "kv_put_view hash key val kv =
     with_shard (get_shard_idx hash key)
       (\<lambda>m. case map_find m key of
              Some _ \<Rightarrow> map_insert_or_assign key val m
            | None \<Rightarrow> map_emplace key val m) kv"

definition kv_get :: "(string \<Rightarrow> u64) \<Rightarrow> string \<Rightarrow> KVStore \<Rightarrow> string" where
  "kv_get hash key kv =
     (case map_find (kv_shards kv ! get_shard_idx hash key) key of None \<Rightarrow> '''' | Some v \<Rightarrow> v)"

definition kv_update :: "(string \<Rightarrow> u64) \<Rightarrow> string \<Rightarrow> string \<Rightarrow> KVStore \<Rightarrow> bool \<times> KVStore" where
  "kv_update hash key val kv =
     (let i = get_shard_idx hash key
      in case map_find (kv_shards kv ! i) key of
           None \<Rightarrow> (False, kv)
         | Some _ \<Rightarrow> (True, with_shard i (map_insert_or_assign key val) kv))"

definition kv_erase :: "(string \<Rightarrow> u64) \<Rightarrow> string \<Rightarrow> KVStore \<Rightarrow> bool \<times> KVStore" where
  "kv_erase hash key kv =
     (let i = get_shard_idx hash key
      in case map_find (kv_shards kv ! i) key of
           None \<Rightarrow> (False, kv)
         | Some _ \<Rightarrow> (True, with_shard i (map_erase key) kv))"

subsection \<open>Batches in order\<close>

record ApplyOp =
  op_op :: char
  op_shard :: u16
  op_key :: string
  op_value :: string

datatype lock_event = Lock nat | Unlock nat

text \<open>
  The loop variables of \<open>apply_ops_in_order_progressive\<close>. \<open>held_shard = None\<close> is the initial
  \<open>numeric_limits<size_t>::max()\<close>; \<open>ap_progress\<close> lists the arguments of the progress callback and
  \<open>ap_locks\<close> the mutex operations: the assignment to \<open>held_lock\<close> locks the new shard before the move
  releases the old one.
\<close>

record apply_state =
  ap_store :: KVStore
  ap_held_shard :: "nat option"
  ap_applied :: nat
  ap_since_progress :: nat
  ap_progress :: "nat list"
  ap_locks :: "lock_event list"

definition apply_to_map :: "char \<Rightarrow> string \<Rightarrow> string \<Rightarrow> MapType \<Rightarrow> MapType" where
  "apply_to_map c key val m =
     (if c = CHR ''P'' then
        (case map_find m key of
           Some _ \<Rightarrow> map_insert_or_assign key val m
         | None \<Rightarrow> map_emplace key val m)
      else if c = CHR ''U'' then
        (case map_find m key of Some _ \<Rightarrow> map_insert_or_assign key val m | None \<Rightarrow> m)
      else if c = CHR ''D'' then
        (case map_find m key of Some _ \<Rightarrow> map_erase key m | None \<Rightarrow> m)
      else m)"

definition acquire_shard :: "nat \<Rightarrow> apply_state \<Rightarrow> apply_state" where
  "acquire_shard i st =
     (if ap_held_shard st \<noteq> Some i then
        st\<lparr>ap_locks := ap_locks st @ Lock i # (case ap_held_shard st of None \<Rightarrow> [] | Some j \<Rightarrow> [Unlock j]),
           ap_held_shard := Some i\<rparr>
      else st)"

definition note_progress :: "bool \<Rightarrow> nat \<Rightarrow> apply_state \<Rightarrow> apply_state" where
  "note_progress has_cb stride st =
     (if has_cb \<and> stride \<noteq> 0 then
        let st1 = st\<lparr>ap_since_progress := ap_since_progress st + 1\<rparr>
        in if stride \<le> ap_since_progress st1
           then st1\<lparr>ap_progress := ap_progress st1 @ [ap_applied st1], ap_since_progress := 0\<rparr>
           else st1
      else st)"

definition apply_step :: "bool \<Rightarrow> nat \<Rightarrow> ApplyOp \<Rightarrow> apply_state \<Rightarrow> apply_state" where
  "apply_step has_cb stride aop st =
     (let i = unat (op_shard aop);
          st1 = acquire_shard i st;
          st2 = st1\<lparr>ap_store :=
            with_shard i (apply_to_map (op_op aop) (op_key aop) (op_value aop)) (ap_store st1)\<rparr>;
          st3 = st2\<lparr>ap_applied := ap_applied st2 + 1\<rparr>
      in note_progress has_cb stride st3)"

definition apply_start :: "KVStore \<Rightarrow> apply_state" where
  "apply_start kv = \<lparr> ap_store = kv, ap_held_shard = None, ap_applied = 0, ap_since_progress = 0,
     ap_progress = [], ap_locks = [] \<rparr>"

definition apply_finish :: "bool \<Rightarrow> nat \<Rightarrow> apply_state \<Rightarrow> apply_state" where
  "apply_finish has_cb stride st =
     (let st1 = (if has_cb \<and> stride \<noteq> 0 \<and> ap_since_progress st \<noteq> 0
                 then st\<lparr>ap_progress := ap_progress st @ [ap_applied st]\<rparr> else st)
      in case ap_held_shard st1 of
           None \<Rightarrow> st1
         | Some j \<Rightarrow> st1\<lparr>ap_locks := ap_locks st1 @ [Unlock j], ap_held_shard := None\<rparr>)"

definition apply_ops_in_order_progressive ::
  "bool \<Rightarrow> nat \<Rightarrow> ApplyOp list \<Rightarrow> KVStore \<Rightarrow> apply_state" where
  "apply_ops_in_order_progressive has_cb stride ops kv =
     (if ops = [] then apply_start kv
      else apply_finish has_cb stride (fold (apply_step has_cb stride) ops (apply_start kv)))"

definition apply_ops_in_order :: "ApplyOp list \<Rightarrow> KVStore \<Rightarrow> KVStore" where
  "apply_ops_in_order ops kv = ap_store (apply_ops_in_order_progressive False 0 ops kv)"

subsection \<open>Snapshots\<close>

definition map_insert_all :: "MapType \<Rightarrow> MapType \<Rightarrow> MapType" where
  "map_insert_all src dst = fold (\<lambda>(k, v) m. map_emplace k v m) src dst"

definition take_snapshot :: "KVStore \<Rightarrow> MapType" where
  "take_snapshot kv = fold map_insert_all (kv_shards kv) []"

definition apply_snapshot :: "(string \<Rightarrow> u64) \<Rightarrow> MapType \<Rightarrow> KVStore \<Rightarrow> KVStore" where
  "apply_snapshot hash snapshot kv =
     fold (\<lambda>(k, v). with_shard (get_shard_idx hash k) (map_emplace k v)) snapshot
       (kv\<lparr>kv_shards := map (\<lambda>_. []) (kv_shards kv)\<rparr>)"

definition is_valid :: "KVStore \<Rightarrow> bool" where
  "is_valid kv \<longleftrightarrow> list_ex (\<lambda>m. m \<noteq> []) (kv_shards kv)"

text \<open>The element count that \<open>reserve_keys\<close> asks every shard for; reserving changes no content.\<close>

definition reserve_target :: "nat \<Rightarrow> nat option" where
  "reserve_target total_keys =
     (if total_keys = 0 then None
      else let per_shard = (total_keys + kNumShards - 1) div kNumShards
           in Some (max 4096 (per_shard + per_shard div 8 + 64)))"

section \<open>Laws of the shard maps\<close>

named_theorems map_laws

lemma map_of_update' [map_laws]: "map_of (map_insert_or_assign k v m) = (map_of m)(k \<mapsto> v)"
  by (simp add: map_insert_or_assign_def update_conv')

lemma map_of_emplace [map_laws]:
  "map_of (map_emplace k v m) = (if map_of m k = None then (map_of m)(k \<mapsto> v) else map_of m)"
  by (auto simp: map_emplace_def map_find_def fun_eq_iff map_add_def split: option.splits)

lemma map_of_erase [map_laws]: "map_of (map_erase k m) = (map_of m)(k := None)"
  by (simp add: map_erase_def delete_conv')

lemma map_wf_laws [map_laws]:
  "map_wf []"
  "map_wf m \<Longrightarrow> map_wf (map_insert_or_assign k v m)"
  "map_wf m \<Longrightarrow> map_wf (map_emplace k v m)"
  "map_wf m \<Longrightarrow> map_wf (map_erase k m)"
  by (auto simp: map_wf_def map_insert_or_assign_def map_emplace_def map_find_def map_erase_def
      distinct_update distinct_delete map_of_eq_None_iff)

lemma keys_laws [map_laws]:
  "fst ` set (map_insert_or_assign k v m) = insert k (fst ` set m)"
  "fst ` set (map_emplace k v m) = insert k (fst ` set m)"
  by (auto simp: map_insert_or_assign_def map_emplace_def map_find_def dom_update map_of_eq_None_iff)

lemma keys_erase [map_laws]: "fst ` set (map_erase k m) = fst ` set m - {k}"
  by (auto simp: map_erase_def delete_keys simp flip: set_map)

text \<open>The effect of one operation on a single map from keys to values: what the store promises.\<close>

definition spec_apply :: "char \<Rightarrow> string \<Rightarrow> string \<Rightarrow> (string \<rightharpoonup> string) \<Rightarrow> (string \<rightharpoonup> string)" where
  "spec_apply c key val m =
     (if c = CHR ''P'' then m(key \<mapsto> val)
      else if c = CHR ''U'' then (if m key = None then m else m(key \<mapsto> val))
      else if c = CHR ''D'' then m(key := None)
      else m)"

lemma map_of_apply_to_map [map_laws]:
  "map_of (apply_to_map c key val m) = spec_apply c key val (map_of m)"
  by (auto simp: apply_to_map_def spec_apply_def map_laws map_find_def fun_eq_iff split: option.splits)

lemma map_wf_apply_to_map [map_laws]: "map_wf m \<Longrightarrow> map_wf (apply_to_map c key val m)"
  by (auto simp: apply_to_map_def map_laws split: option.splits)

lemma keys_apply_to_map [map_laws]:
  "fst ` set (apply_to_map c key val m) \<subseteq> insert key (fst ` set m)"
  by (auto simp: apply_to_map_def map_laws split: option.splits)

section \<open>Refinement to one map\<close>

definition kv_lookup :: "(string \<Rightarrow> u64) \<Rightarrow> KVStore \<Rightarrow> string \<rightharpoonup> string" where
  "kv_lookup hash kv k = map_of (kv_shards kv ! get_shard_idx hash k) k"

definition kv_wf :: "(string \<Rightarrow> u64) \<Rightarrow> KVStore \<Rightarrow> bool" where
  "kv_wf hash kv \<longleftrightarrow> length (kv_shards kv) = kNumShards \<and>
     (\<forall>i<kNumShards. map_wf (kv_shards kv ! i) \<and>
        (\<forall>k\<in>fst ` set (kv_shards kv ! i). get_shard_idx hash k = i))"

lemma get_shard_idx_bound [simp]: "get_shard_idx hash k < kNumShards"
  by (simp add: get_shard_idx_def kNumShards_def)

lemma length_with_shard [simp]: "length (kv_shards (with_shard i f kv)) = length (kv_shards kv)"
  by (simp add: with_shard_def)

lemma nth_with_shard:
  "i < length (kv_shards kv) \<Longrightarrow>
   kv_shards (with_shard i f kv) ! j = (if j = i then f (kv_shards kv ! i) else kv_shards kv ! j)"
  by (simp add: with_shard_def nth_list_update)

lemma kv_wf_empty: "kv_wf hash empty_store"
  by (simp add: kv_wf_def empty_store_def map_laws)

lemma kv_lookup_empty: "kv_lookup hash empty_store = Map.empty"
  by (simp add: kv_lookup_def empty_store_def fun_eq_iff)

text \<open>
  An update of the shard that the hash selects for \<open>key\<close>, by a function that touches no other key, is
  an update of the abstract map at \<open>key\<close>.
\<close>

lemma kv_wf_key:
  "kv_wf hash kv \<Longrightarrow> i < kNumShards \<Longrightarrow> k \<in> fst ` set (kv_shards kv ! i) \<Longrightarrow> get_shard_idx hash k = i"
  by (auto simp: kv_wf_def)

lemma kv_wf_with_shard:
  assumes "kv_wf hash kv" "\<And>m. map_wf m \<Longrightarrow> map_wf (f m)"
    "\<And>m. fst ` set (f m) \<subseteq> insert key (fst ` set m)"
  shows "kv_wf hash (with_shard (get_shard_idx hash key) f kv)"
proof -
  have home: "get_shard_idx hash k = get_shard_idx hash key"
    if "k \<in> fst ` set (f (kv_shards kv ! get_shard_idx hash key))" for k
  proof -
    have "k = key \<or> k \<in> fst ` set (kv_shards kv ! get_shard_idx hash key)"
      using that assms(3) by blast
    then show ?thesis by (elim disjE) (simp, rule kv_wf_key [OF assms(1) get_shard_idx_bound])
  qed
  show ?thesis
    using assms(1,2)
    by (simp add: kv_wf_def nth_with_shard del: image_iff ball_simps) (intro ballI home)
qed

lemma kv_lookup_with_shard:
  assumes "kv_wf hash kv" "\<And>m. map_of (f m) = g (map_of m)" "\<And>m k. k \<noteq> key \<Longrightarrow> g m k = m k"
    "\<And>m m'. m key = m' key \<Longrightarrow> g m key = g m' key"
  shows "kv_lookup hash (with_shard (get_shard_idx hash key) f kv) = g (kv_lookup hash kv)"
proof
  fix k
  show "kv_lookup hash (with_shard (get_shard_idx hash key) f kv) k = g (kv_lookup hash kv) k"
    using assms(1) assms(3) [of k] assms(4) [of "kv_lookup hash kv" "map_of (kv_shards kv ! get_shard_idx hash key)"]
    by (cases "k = key") (auto simp: kv_lookup_def kv_wf_def nth_with_shard assms(2))
qed

lemma spec_apply_other: "k \<noteq> key \<Longrightarrow> spec_apply c key val m k = m k"
  and spec_apply_local: "m key = m' key \<Longrightarrow> spec_apply c key val m key = spec_apply c key val m' key"
  by (simp_all add: spec_apply_def)

lemma kv_apply_refines:
  assumes "kv_wf hash kv"
  shows "kv_wf hash (with_shard (get_shard_idx hash key) (apply_to_map c key val) kv)"
    and "kv_lookup hash (with_shard (get_shard_idx hash key) (apply_to_map c key val) kv)
           = spec_apply c key val (kv_lookup hash kv)"
proof -
  show "kv_wf hash (with_shard (get_shard_idx hash key) (apply_to_map c key val) kv)"
    using assms map_wf_apply_to_map keys_apply_to_map by (rule kv_wf_with_shard)
  show "kv_lookup hash (with_shard (get_shard_idx hash key) (apply_to_map c key val) kv)
      = spec_apply c key val (kv_lookup hash kv)"
    using assms map_of_apply_to_map spec_apply_other spec_apply_local by (rule kv_lookup_with_shard)
qed

section \<open>The replicated store interface\<close>

text \<open>
  What the replication layer relies on: a store with an invariant, an observation and an update per
  operation that acts on the observation alone. Two replicas that observe the same and apply the same
  operations in the same order observe the same afterwards, whatever their representations are.
\<close>

locale replica_store =
  fixes inv :: "'s \<Rightarrow> bool"
    and obs :: "'s \<Rightarrow> 'v"
    and okop :: "'o \<Rightarrow> bool"
    and upd :: "'o \<Rightarrow> 's \<Rightarrow> 's"
    and spec :: "'o \<Rightarrow> 'v \<Rightarrow> 'v"
  assumes inv_upd: "inv s \<Longrightarrow> okop x \<Longrightarrow> inv (upd x s)"
    and obs_upd: "inv s \<Longrightarrow> okop x \<Longrightarrow> obs (upd x s) = spec x (obs s)"
begin

lemma inv_fold: "inv s \<Longrightarrow> \<forall>x\<in>set xs. okop x \<Longrightarrow> inv (fold upd xs s)"
  by (induction xs arbitrary: s) (auto intro: inv_upd)

lemma obs_fold: "inv s \<Longrightarrow> \<forall>x\<in>set xs. okop x \<Longrightarrow> obs (fold upd xs s) = fold spec xs (obs s)"
  by (induction xs arbitrary: s) (auto simp: obs_upd inv_upd)

lemma convergence:
  "inv s \<Longrightarrow> inv t \<Longrightarrow> obs s = obs t \<Longrightarrow> \<forall>x\<in>set xs. okop x \<Longrightarrow>
   obs (fold upd xs s) = obs (fold upd xs t)"
  by (simp add: obs_fold)

end

definition apply_one :: "ApplyOp \<Rightarrow> KVStore \<Rightarrow> KVStore" where
  "apply_one aop kv =
     with_shard (unat (op_shard aop)) (apply_to_map (op_op aop) (op_key aop) (op_value aop)) kv"

definition op_routed :: "(string \<Rightarrow> u64) \<Rightarrow> ApplyOp \<Rightarrow> bool" where
  "op_routed hash aop \<longleftrightarrow> unat (op_shard aop) = get_shard_idx hash (op_key aop)"

definition spec_one :: "ApplyOp \<Rightarrow> (string \<rightharpoonup> string) \<Rightarrow> (string \<rightharpoonup> string)" where
  "spec_one aop = spec_apply (op_op aop) (op_key aop) (op_value aop)"

interpretation kv: replica_store "kv_wf hash" "kv_lookup hash" "op_routed hash" apply_one spec_one
  for hash
  by unfold_locales (simp_all add: apply_one_def op_routed_def spec_one_def kv_apply_refines)

lemma ap_store_apply_step [simp]: "ap_store (apply_step cb stride aop st) = apply_one aop (ap_store st)"
  by (simp add: apply_step_def apply_one_def note_progress_def acquire_shard_def Let_def)

lemma ap_store_fold: "ap_store (fold (apply_step cb stride) ops st) = fold apply_one ops (ap_store st)"
  by (induction ops arbitrary: st) simp_all

lemma ap_store_progressive:
  "ap_store (apply_ops_in_order_progressive cb stride ops kv) = fold apply_one ops kv"
  by (auto simp: apply_ops_in_order_progressive_def apply_finish_def ap_store_fold apply_start_def Let_def
      split: option.splits)

lemma apply_ops_in_order_fold: "apply_ops_in_order ops kv = fold apply_one ops kv"
  by (simp add: apply_ops_in_order_def ap_store_progressive)


text \<open>
  Property C15: \<open>apply_ops_in_order\<close> on operations routed by the hash has exactly the effect of applying
  them one after the other to a single map, and keeps the store well-formed.
\<close>
theorem apply_ops_in_order_refines:
  assumes "kv_wf hash kv" "\<forall>x\<in>set ops. op_routed hash x"
  shows "kv_wf hash (apply_ops_in_order ops kv) \<and>
         kv_lookup hash (apply_ops_in_order ops kv) = fold spec_one ops (kv_lookup hash kv)"
  using kv.inv_fold [OF assms] kv.obs_fold [OF assms] by (simp add: apply_ops_in_order_fold)

theorem apply_ops_in_order_refines_witness:
  "kv_lookup (\<lambda>_. 7) (apply_ops_in_order
     [\<lparr>op_op = CHR ''P'', op_shard = 7, op_key = ''k'', op_value = ''a''\<rparr>,
      \<lparr>op_op = CHR ''U'', op_shard = 7, op_key = ''k'', op_value = ''b''\<rparr>] empty_store) = [''k'' \<mapsto> ''b'']"
  using apply_ops_in_order_refines [of "\<lambda>_. 7" empty_store
      "[\<lparr>op_op = CHR ''P'', op_shard = 7, op_key = ''k'', op_value = ''a''\<rparr>,
        \<lparr>op_op = CHR ''U'', op_shard = 7, op_key = ''k'', op_value = ''b''\<rparr>]"]
  by (simp add: kv_wf_empty kv_lookup_empty op_routed_def get_shard_idx_def kNumShards_def spec_one_def
      spec_apply_def)

section \<open>Single operations\<close>

lemma kv_put_view_eq: "kv_put_view hash key val kv = kv_put hash key val kv"
proof -
  have "(case map_find m key of Some _ \<Rightarrow> map_insert_or_assign key val m | None \<Rightarrow> map_emplace key val m)
      = map_insert_or_assign key val m" for m
    by (induction m) (auto simp: map_find_def map_emplace_def map_insert_or_assign_def split: option.splits)
  then show ?thesis by (simp add: kv_put_view_def kv_put_def)
qed

lemma kv_put_refines:
  assumes "kv_wf hash kv"
  shows "kv_wf hash (kv_put hash key val kv)"
    and "kv_lookup hash (kv_put hash key val kv) = (kv_lookup hash kv)(key \<mapsto> val)"
  unfolding kv_put_def
  by (rule kv_wf_with_shard [OF assms, of _ key]; simp add: map_laws)
     (rule kv_lookup_with_shard [OF assms, of _ "\<lambda>m. m(key \<mapsto> val)"]; simp add: map_laws)

lemma kv_get_lookup: "kv_get hash key kv = (case kv_lookup hash kv key of None \<Rightarrow> '''' | Some v \<Rightarrow> v)"
  by (simp add: kv_get_def kv_lookup_def map_find_def)

lemma kv_update_refines:
  assumes "kv_wf hash kv" "kv_update hash key val kv = (b, kv')"
  shows "kv_wf hash kv'" "b \<longleftrightarrow> kv_lookup hash kv key \<noteq> None"
    and "kv_lookup hash kv' = spec_apply CHR ''U'' key val (kv_lookup hash kv)"
proof -
  have put: "b \<Longrightarrow> kv' = kv_put hash key val kv" "\<not> b \<Longrightarrow> kv' = kv"
    and b: "b \<longleftrightarrow> kv_lookup hash kv key \<noteq> None"
    using assms(2) by (auto simp: kv_update_def kv_put_def kv_lookup_def map_find_def Let_def split: option.splits)
  show "kv_wf hash kv'" using put assms(1) kv_put_refines(1) by (cases b) auto
  show "b \<longleftrightarrow> kv_lookup hash kv key \<noteq> None" by (rule b)
  show "kv_lookup hash kv' = spec_apply CHR ''U'' key val (kv_lookup hash kv)"
    using put b kv_put_refines(2) [OF assms(1)] by (cases b) (auto simp: spec_apply_def)
qed

lemma kv_erase_refines:
  assumes "kv_wf hash kv" "kv_erase hash key kv = (b, kv')"
  shows "kv_wf hash kv'" "b \<longleftrightarrow> kv_lookup hash kv key \<noteq> None"
    and "kv_lookup hash kv' = (kv_lookup hash kv)(key := None)"
proof -
  let ?e = "with_shard (get_shard_idx hash key) (map_erase key) kv"
  have e: "kv_wf hash ?e"
    by (rule kv_wf_with_shard [OF assms(1), of _ key]) (auto simp: map_laws)
  have l: "kv_lookup hash ?e = (kv_lookup hash kv)(key := None)"
    by (rule kv_lookup_with_shard [OF assms(1), of _ "\<lambda>m. m(key := None)"]) (auto simp: map_laws)
  have put: "b \<Longrightarrow> kv' = ?e" "\<not> b \<Longrightarrow> kv' = kv"
    and b: "b \<longleftrightarrow> kv_lookup hash kv key \<noteq> None"
    using assms(2) by (auto simp: kv_erase_def kv_lookup_def map_find_def Let_def split: option.splits)
  show "kv_wf hash kv'" using put e assms(1) by (cases b) auto
  show "b \<longleftrightarrow> kv_lookup hash kv key \<noteq> None" by (rule b)
  show "kv_lookup hash kv' = (kv_lookup hash kv)(key := None)"
    using put l b by (cases b) (auto simp: fun_eq_iff)
qed

section \<open>Locking\<close>

text \<open>The mutexes held after a trace, or \<open>None\<close> once a held mutex is locked or a free one unlocked.\<close>

fun locks_held :: "lock_event list \<Rightarrow> nat set \<Rightarrow> nat set option" where
  "locks_held [] held = Some held"
| "locks_held (Lock i # es) held = (if i \<in> held then None else locks_held es (insert i held))"
| "locks_held (Unlock i # es) held = (if i \<in> held then locks_held es (held - {i}) else None)"

lemma locks_held_append:
  "locks_held (es @ es') held = Option.bind (locks_held es held) (locks_held es')"
  by (induction es held rule: locks_held.induct) auto

lemma locks_held_apply_step:
  assumes "locks_held (ap_locks st) {} = Some (set_option (ap_held_shard st))"
  shows "locks_held (ap_locks (apply_step cb stride aop st)) {}
    = Some (set_option (ap_held_shard (apply_step cb stride aop st)))"
  using assms
  by (cases "ap_held_shard st")
     (auto simp: apply_step_def acquire_shard_def note_progress_def Let_def locks_held_append)

lemma locks_held_fold:
  "locks_held (ap_locks st) {} = Some (set_option (ap_held_shard st)) \<Longrightarrow>
   locks_held (ap_locks (fold (apply_step cb stride) ops st)) {}
     = Some (set_option (ap_held_shard (fold (apply_step cb stride) ops st)))"
  by (induction ops arbitrary: st) (auto simp: locks_held_apply_step)

text \<open>
  A batch never locks a shard mutex it already holds, never unlocks one it does not hold,
  and returns with every mutex released.
\<close>
theorem apply_ops_lock_discipline:
  "locks_held (ap_locks (apply_ops_in_order_progressive cb stride ops kv)) {} = Some {}"
proof -
  have "locks_held (ap_locks (apply_start kv)) {} = Some (set_option (ap_held_shard (apply_start kv)))"
    by (simp add: apply_start_def)
  from locks_held_fold [OF this, of cb stride ops] show ?thesis
    by (auto simp: apply_ops_in_order_progressive_def apply_finish_def Let_def locks_held_append
        apply_start_def split: option.splits)
qed

section \<open>Progress callbacks\<close>

lemma progress_invariant:
  assumes "0 < stride"
  shows "ap_since_progress st = ap_applied st mod stride \<Longrightarrow>
    ap_progress st = map (\<lambda>i. Suc i * stride) [0..<ap_applied st div stride] \<Longrightarrow>
    (let st' = fold (apply_step True stride) ops st
     in ap_applied st' = ap_applied st + length ops \<and> ap_since_progress st' = ap_applied st' mod stride \<and>
        ap_progress st' = map (\<lambda>i. Suc i * stride) [0..<ap_applied st' div stride])"
proof (induction ops arbitrary: st)
  case Nil
  then show ?case by simp
next
  case (Cons x ops)
  let ?st = "apply_step True stride x st"
  have app: "ap_applied ?st = Suc (ap_applied st)"
    by (simp add: apply_step_def note_progress_def acquire_shard_def Let_def)
  have "ap_since_progress ?st = ap_applied ?st mod stride \<and>
    ap_progress ?st = map (\<lambda>i. Suc i * stride) [0..<ap_applied ?st div stride]"
  proof (cases "Suc (ap_applied st mod stride) = stride")
    case True
    then have "Suc (ap_applied st) mod stride = 0" "Suc (ap_applied st) div stride = Suc (ap_applied st div stride)"
      by (simp_all add: mod_Suc div_Suc)
    moreover have "Suc (ap_applied st) = Suc (ap_applied st div stride) * stride"
      using calculation by (metis add.right_neutral div_mult_mod_eq)
    ultimately show ?thesis
      using Cons.prems True by (simp add: apply_step_def note_progress_def acquire_shard_def Let_def)
  next
    case False
    then have "Suc (ap_applied st) mod stride = Suc (ap_applied st mod stride)"
      "Suc (ap_applied st) div stride = ap_applied st div stride"
      by (simp_all add: mod_Suc div_Suc)
    moreover have "Suc (ap_applied st mod stride) < stride"
      using False assms mod_less_divisor [of stride "ap_applied st"] by linarith
    ultimately show ?thesis
      using Cons.prems by (simp add: apply_step_def note_progress_def acquire_shard_def Let_def)
  qed
  with Cons.IH [of ?st] app show ?case by (simp add: Let_def)
qed

text \<open>
  With a callback and a positive stride, the callback sees every multiple of the stride
  and, when operations are left over, the total count last.
\<close>
theorem apply_ops_progress_reports:
  assumes "0 < stride"
  shows "ap_progress (apply_ops_in_order_progressive True stride ops kv)
    = map (\<lambda>i. Suc i * stride) [0..<length ops div stride]
      @ (if length ops mod stride = 0 then [] else [length ops])"
  using progress_invariant [OF assms, of "apply_start kv" ops] assms
  by (auto simp: apply_ops_in_order_progressive_def apply_finish_def Let_def apply_start_def
      split: option.splits)


theorem apply_ops_progress_reports_witness:
  "ap_progress (apply_ops_in_order_progressive True 2
     (replicate 5 \<lparr>op_op = CHR ''P'', op_shard = 7, op_key = ''k'', op_value = ''a''\<rparr>) empty_store) = [2, 4, 5]"
  using apply_ops_progress_reports [of 2 "replicate 5 \<lparr>op_op = CHR ''P'', op_shard = 7, op_key = ''k'', op_value = ''a''\<rparr>"
      empty_store]
  by (simp add: upt_rec)

section \<open>Snapshots\<close>

lemma map_of_insert_all: "map_of (map_insert_all src dst) = map_of src ++ map_of dst"
proof (induction src arbitrary: dst)
  case Nil
  then show ?case by (simp add: map_insert_all_def)
next
  case (Cons kv src)
  obtain k v where kv: "kv = (k, v)" by fastforce
  have "map_of (map_insert_all (kv # src) dst) = map_of src ++ map_of (map_emplace k v dst)"
    using Cons.IH [of "map_emplace k v dst"] kv by (simp add: map_insert_all_def)
  then show ?case
    using kv by (auto simp: map_laws fun_eq_iff map_add_def split: option.splits)
qed

lemma map_of_take_snapshot: "map_of (take_snapshot kv) = map_of (concat (kv_shards kv))"
proof -
  have "map_of (fold map_insert_all ms acc) = map_of (concat ms) ++ map_of acc" for ms acc
    by (induction ms arbitrary: acc) (simp_all add: map_of_insert_all)
  then show ?thesis by (simp add: take_snapshot_def)
qed

lemma map_of_concat_unique:
  "i < length ms \<Longrightarrow> (\<And>j. j < length ms \<Longrightarrow> j \<noteq> i \<Longrightarrow> map_of (ms ! j) k = None) \<Longrightarrow>
   map_of (concat ms) k = map_of (ms ! i) k"
proof (induction ms arbitrary: i)
  case (Cons m ms)
  show ?case
  proof (cases i)
    case 0
    have "map_of (concat ms) k = None"
      using Cons.prems(2) 0 by (force simp: map_of_eq_None_iff in_set_conv_nth)
    with 0 show ?thesis by (simp add: map_add_def split: option.split)
  next
    case (Suc i')
    have "map_of m k = None" using Cons.prems(2) [of 0] Suc by simp
    moreover have "map_of (concat ms) k = map_of (ms ! i') k"
      using Cons.prems Suc by (intro Cons.IH) (auto dest: Cons.prems(2) [of "Suc _", simplified])
    ultimately show ?thesis using Suc by (simp add: map_add_def split: option.split)
  qed
qed simp

lemma take_snapshot_lookup:
  assumes "kv_wf hash kv"
  shows "map_of (take_snapshot kv) = kv_lookup hash kv"
proof
  fix k
  have "map_of (kv_shards kv ! j) k = None" if "j < kNumShards" "j \<noteq> get_shard_idx hash k" for j
    using kv_wf_key [OF assms that(1), of k] that(2) by (auto simp: map_of_eq_None_iff)
  with assms show "map_of (take_snapshot kv) k = kv_lookup hash kv k"
    unfolding map_of_take_snapshot kv_lookup_def
    by (intro map_of_concat_unique) (auto simp: kv_wf_def)
qed

lemma kv_emplace_refines:
  assumes "kv_wf hash kv"
  shows "kv_wf hash (with_shard (get_shard_idx hash k) (map_emplace k v) kv)"
    and "kv_lookup hash (with_shard (get_shard_idx hash k) (map_emplace k v) kv)
           = [k \<mapsto> v] ++ kv_lookup hash kv"
proof -
  show "kv_wf hash (with_shard (get_shard_idx hash k) (map_emplace k v) kv)"
    by (rule kv_wf_with_shard [OF assms, of _ k]) (simp_all add: map_laws)
  have "kv_lookup hash (with_shard (get_shard_idx hash k) (map_emplace k v) kv)
      = (\<lambda>m. if m k = None then m(k \<mapsto> v) else m) (kv_lookup hash kv)"
    by (rule kv_lookup_with_shard [OF assms]) (auto simp: map_laws)
  then show "kv_lookup hash (with_shard (get_shard_idx hash k) (map_emplace k v) kv)
      = [k \<mapsto> v] ++ kv_lookup hash kv"
    by (auto simp: fun_eq_iff map_add_def split: option.splits)
qed

lemma apply_snapshot_fold:
  "kv_wf hash kv \<Longrightarrow>
   let kv' = fold (\<lambda>(k, v). with_shard (get_shard_idx hash k) (map_emplace k v)) snap kv
   in kv_wf hash kv' \<and> kv_lookup hash kv' = map_of snap ++ kv_lookup hash kv"
proof (induction snap arbitrary: kv)
  case Nil
  then show ?case by simp
next
  case (Cons p snap)
  obtain k v where p: "p = (k, v)" by fastforce
  have "map_of snap ++ ([k \<mapsto> v] ++ kv_lookup hash kv) = map_of (p # snap) ++ kv_lookup hash kv"
    using p by (auto simp: fun_eq_iff map_add_def split: option.splits)
  with p Cons.IH [OF kv_emplace_refines(1) [OF Cons.prems, of k v]] kv_emplace_refines(2) [OF Cons.prems, of k v]
  show ?case by (simp add: Let_def fun_upd_def)
qed

lemma apply_snapshot_refines:
  assumes "length (kv_shards kv) = kNumShards"
  shows "kv_wf hash (apply_snapshot hash snap kv)" "kv_lookup hash (apply_snapshot hash snap kv) = map_of snap"
proof -
  let ?kv = "kv\<lparr>kv_shards := map (\<lambda>_. []) (kv_shards kv)\<rparr>"
  have "kv_wf hash ?kv" using assms by (simp add: kv_wf_def map_laws)
  moreover have "kv_lookup hash ?kv = Map.empty" using assms by (simp add: kv_lookup_def fun_eq_iff)
  ultimately show "kv_wf hash (apply_snapshot hash snap kv)"
    and "kv_lookup hash (apply_snapshot hash snap kv) = map_of snap"
    using apply_snapshot_fold [of hash ?kv snap] by (simp_all add: apply_snapshot_def Let_def)
qed

text \<open>
  Property C37: A snapshot holds exactly the store's contents, and installing it in any store makes that
  store observationally equal to the one the snapshot was taken from, even under a different hash.
\<close>
theorem snapshot_roundtrip:
  assumes "kv_wf hash kv" "length (kv_shards kv') = kNumShards"
  shows "map_of (take_snapshot kv) = kv_lookup hash kv \<and>
         kv_wf hash' (apply_snapshot hash' (take_snapshot kv) kv') \<and>
         kv_lookup hash' (apply_snapshot hash' (take_snapshot kv) kv') = kv_lookup hash kv"
  using take_snapshot_lookup [OF assms(1)] apply_snapshot_refines [OF assms(2), of hash' "take_snapshot kv"]
  by simp

theorem snapshot_roundtrip_witness:
  "kv_lookup (\<lambda>_. 3) (apply_snapshot (\<lambda>_. 3)
     (take_snapshot (kv_put (\<lambda>_. 7) ''k'' ''v'' empty_store)) empty_store) = [''k'' \<mapsto> ''v'']"
  using snapshot_roundtrip [OF kv_put_refines(1) [OF kv_wf_empty], of empty_store "\<lambda>_. 7" "''k''" "''v''" "\<lambda>_. 3"]
    kv_put_refines(2) [OF kv_wf_empty, of "\<lambda>_. 7" "''k''" "''v''"] kv_wf_empty [of "\<lambda>_. 7"]
  by (simp add: kv_lookup_empty kv_wf_def)

lemma is_valid_iff:
  assumes "kv_wf hash kv"
  shows "is_valid kv \<longleftrightarrow> kv_lookup hash kv \<noteq> Map.empty"
proof -
  have "is_valid kv \<longleftrightarrow> concat (kv_shards kv) \<noteq> []" by (auto simp: is_valid_def list_ex_iff)
  also have "\<dots> \<longleftrightarrow> map_of (take_snapshot kv) \<noteq> Map.empty"
    by (simp add: map_of_take_snapshot map_of_eq_empty_iff)
  finally show ?thesis using take_snapshot_lookup [OF assms] by simp
qed

end
