(* ===== verification/Latency_Histogram.thy ===== *)
theory Latency_Histogram
  imports Prelude
begin

text \<open>
  The logarithmic latency histogram (\<open>include/latency_histogram.h\<close>) and its atomic variant in
  \<open>Bandle\<close> (\<open>include/bandle.h\<close>, \<open>src/bandle.cpp\<close>): 64 octaves of 16 sub-buckets over 64-bit samples.
\<close>

definition SUB_BUCKETS :: nat where
  "SUB_BUCKETS = 16"

definition MAX_EXP :: nat where
  "MAX_EXP = 63"

definition BUCKETS :: nat where
  "BUCKETS = (MAX_EXP + 1) * SUB_BUCKETS"

record LatencyHistogram =
  h_counts :: "u64 list"
  h_total :: u64

definition empty_histogram :: LatencyHistogram where
  "empty_histogram = \<lparr> h_counts = replicate BUCKETS 0, h_total = 0 \<rparr>"

text \<open>\<open>__builtin_clzll\<close>: the number of zero bits above the highest set bit, scanning down from bit 63.\<close>

fun clz_scan :: "u64 \<Rightarrow> nat \<Rightarrow> nat \<Rightarrow> nat" where
  "clz_scan v 0 n = n"
| "clz_scan v (Suc b) n = (if bit v b then n else clz_scan v b (Suc n))"

definition clzll :: "u64 \<Rightarrow> nat" where
  "clzll v = clz_scan v 64 0"

text \<open>The octave's first value and sub-bucket width, computed alike in every function below.\<close>

definition octave_base :: "nat \<Rightarrow> u64" where
  "octave_base e = (if e = 0 then 1 else push_bit e 1)"

definition octave_width :: "nat \<Rightarrow> u64" where
  "octave_width e =
     (let base = octave_base e;
          nxt = (if e = MAX_EXP then - 1 else push_bit 1 base);
          width = (if base < nxt then (nxt - base) div of_nat SUB_BUCKETS else 1)
      in if width = 0 then 1 else width)"

definition index_for :: "u64 \<Rightarrow> nat" where
  "index_for val =
     (if val = 0 then 0
      else let e = min MAX_EXP (63 - clzll val);
               base = octave_base e;
               width = octave_width e;
               off = (if val \<le> base then 0 else val - base);
               sub = unat (off div width);
               sub' = (if SUB_BUCKETS \<le> sub then SUB_BUCKETS - 1 else sub)
           in e * SUB_BUCKETS + sub')"

definition bucket_lower_value :: "int \<Rightarrow> u64" where
  "bucket_lower_value idx =
     (if idx \<le> 0 then 0
      else let e = min MAX_EXP (nat idx div SUB_BUCKETS);
               sub = nat idx mod SUB_BUCKETS
           in octave_base e + of_nat sub * octave_width e)"

definition record_sample :: "u64 \<Rightarrow> LatencyHistogram \<Rightarrow> LatencyHistogram" where
  "record_sample val h =
     h\<lparr>h_counts := (h_counts h)[index_for val := h_counts h ! index_for val + 1],
       h_total := h_total h + 1\<rparr>"

definition add_bucket :: "int \<Rightarrow> u64 \<Rightarrow> LatencyHistogram \<Rightarrow> LatencyHistogram" where
  "add_bucket idx cnt h =
     (if cnt = 0 \<or> idx < 0 \<or> int BUCKETS \<le> idx then h
      else h\<lparr>h_counts := (h_counts h)[nat idx := h_counts h ! nat idx + cnt],
             h_total := h_total h + cnt\<rparr>)"

definition hist_merge :: "LatencyHistogram \<Rightarrow> LatencyHistogram \<Rightarrow> LatencyHistogram" where
  "hist_merge h other =
     h\<lparr>h_total := h_total h + h_total other,
       h_counts := map2 (+) (h_counts h) (h_counts other)\<rparr>"

text \<open>The scan of \<open>quantile_value\<close> once the target rank is known.\<close>

fun quantile_scan :: "u64 \<Rightarrow> u64 list \<Rightarrow> nat \<Rightarrow> u64 \<Rightarrow> u64" where
  "quantile_scan target [] i cum = bucket_lower_value (int BUCKETS - 1)"
| "quantile_scan target (c # cs) i cum =
     (if target \<le> cum + c then bucket_lower_value (int i)
      else quantile_scan target cs (Suc i) (cum + c))"

definition quantile_at :: "u64 \<Rightarrow> LatencyHistogram \<Rightarrow> u64" where
  "quantile_at raw h =
     (if h_total h = 0 then 0
      else let target = (if raw = 0 then 1 else raw) in quantile_scan target (h_counts h) 0 0)"

text \<open>
  The copy of the bucket computation in \<open>src/bandle.cpp\<close>, and \<open>AtomicHistogram\<close>: its \<open>record\<close>, and its
  \<open>snapshot\<close>, which adds every non-empty counter to a fresh histogram. Its counters are those of
  \<open>LatencyHistogram\<close>, each updated by one atomic addition.
\<close>

definition histogram_index_for :: "u64 \<Rightarrow> nat" where
  "histogram_index_for val =
     (if val = 0 then 0
      else let e0 = 63 - int (clzll val);
               e = (if e0 < 0 then 0 else if int MAX_EXP < e0 then MAX_EXP else nat e0);
               base = (if e = 0 then 1 else push_bit e 1);
               nxt = (if e = MAX_EXP then - 1 else push_bit 1 base);
               width0 = (if base < nxt then (nxt - base) div of_nat SUB_BUCKETS else 1);
               width = (if width0 = 0 then 1 else width0);
               off = (if val \<le> base then 0 else val - base);
               sub0 = unat (off div width);
               sub = (if SUB_BUCKETS \<le> sub0 then SUB_BUCKETS - 1 else sub0)
           in e * SUB_BUCKETS + sub)"

definition atomic_record :: "u64 \<Rightarrow> LatencyHistogram \<Rightarrow> LatencyHistogram" where
  "atomic_record val a =
     (let idx = histogram_index_for val
      in a\<lparr>h_counts := (h_counts a)[idx := h_counts a ! idx + 1], h_total := h_total a + 1\<rparr>)"

fun snapshot_loop :: "u64 list \<Rightarrow> nat \<Rightarrow> LatencyHistogram \<Rightarrow> LatencyHistogram" where
  "snapshot_loop [] i h = h"
| "snapshot_loop (c # cs) i h =
     snapshot_loop cs (Suc i) (if c \<noteq> 0 then add_bucket (int i) c h else h)"

definition hist_snapshot :: "LatencyHistogram \<Rightarrow> LatencyHistogram" where
  "hist_snapshot a = snapshot_loop (h_counts a) 0 empty_histogram"

section \<open>Octaves\<close>

lemma clz_scan_bound:
  "unat v < 2 ^ b \<Longrightarrow> v \<noteq> 0 \<Longrightarrow> b \<le> 64 \<Longrightarrow>
   \<exists>e<b. clz_scan v b n = n + (b - 1 - e) \<and> 2 ^ e \<le> unat v \<and> unat v < 2 ^ Suc e"
proof (induction b arbitrary: n)
  case 0
  then show ?case by (simp add: unat_eq_0)
next
  case (Suc b)
  show ?case
  proof (cases "bit v b")
    case True
    then have "odd (unat v div 2 ^ b)" using Suc.prems(3) by (simp add: bit_unsigned_iff flip: bit_iff_odd)
    then have "2 ^ b \<le> unat v" by (metis div_less dvd_0_right linorder_not_le)
    with True Suc.prems show ?thesis by (intro exI [of _ b]) simp
  next
    case False
    have "unat v < 2 ^ b"
    proof (rule ccontr)
      assume "\<not> unat v < 2 ^ b"
      with Suc.prems(1) have "unat v div 2 ^ b = 1"
        by (intro div_nat_eqI) auto
      then have "bit (unat v) b" by (simp add: bit_iff_odd)
      with False Suc.prems(3) show False by (simp add: bit_unsigned_iff)
    qed
    with Suc.IH [of "Suc n"] Suc.prems obtain e where
      "e < b" "clz_scan v b (Suc n) = Suc n + (b - 1 - e)" "2 ^ e \<le> unat v" "unat v < 2 ^ Suc e"
      by auto
    with False show ?thesis by (intro exI [of _ e]) simp
  qed
qed

lemma clzll_octave:
  assumes "v \<noteq> 0"
  obtains e where "e < 64" "63 - clzll v = e" "2 ^ e \<le> unat v" "unat v < 2 ^ Suc e"
  using clz_scan_bound [of v 64 0] assms unat_u64_bound [of v] by (fastforce simp: clzll_def)

lemma unat_octave_base: "e < 64 \<Longrightarrow> unat (octave_base e) = 2 ^ e"
  using unat_pow2_u64 [of e] by (simp add: octave_base_def push_bit_eq_mult)

definition octave_step :: "nat \<Rightarrow> nat" where
  "octave_step e = (if e = 63 then 2 ^ 59 - 1 else max 1 (2 ^ e div 16))"

lemma unat_octave_width:
  assumes "e < 64"
  shows "unat (octave_width e) = octave_step e"
proof (cases "e = 63")
  case True
  then show ?thesis by (simp add: octave_width_def octave_base_def MAX_EXP_def SUB_BUCKETS_def octave_step_def)
next
  case False
  with assms have e: "Suc e < 64" by simp
  have nxt: "push_bit 1 (octave_base e) = octave_base (Suc e)"
    by (simp add: octave_base_def push_bit_eq_mult)
  have diff: "octave_base (Suc e) - octave_base e = octave_base e"
    by (simp add: octave_base_def push_bit_eq_mult)
  have lt: "octave_base e < octave_base (Suc e)"
    using unat_octave_base [OF assms] unat_octave_base [OF e] by (simp add: word_less_nat_alt)
  have q: "unat (octave_base e div 16) = 2 ^ e div 16"
    using unat_octave_base [OF assms] by (simp add: unat_div)
  have w: "octave_width e = (if octave_base e div 16 = 0 then 1 else octave_base e div 16)"
    unfolding octave_width_def Let_def nxt using False lt
    by (simp add: MAX_EXP_def SUB_BUCKETS_def diff)
  have z: "octave_base e div 16 = 0 \<longleftrightarrow> (2::nat) ^ e div 16 = 0"
    using q by (simp flip: unat_eq_0)
  show ?thesis
    using False q z by (cases "(2::nat) ^ e div 16 = 0") (simp_all add: w octave_step_def)
qed

section \<open>Buckets\<close>

lemma octave_le: "2 ^ a \<le> n \<Longrightarrow> n < 2 ^ Suc b \<Longrightarrow> a \<le> (b :: nat)" for n :: nat
  using power_less_imp_less_exp [of "2::nat" a "Suc b"] by simp

lemma index_for_octave:
  assumes "v \<noteq> 0" "e < 64" "2 ^ e \<le> unat v" "unat v < 2 ^ Suc e"
  shows "index_for v = 16 * e + min 15 ((unat v - 2 ^ e) div octave_step e)"
proof -
  obtain e' where e': "e' < 64" "63 - clzll v = e'" "2 ^ e' \<le> unat v" "unat v < 2 ^ Suc e'"
    using clzll_octave [OF assms(1)] by blast
  have "e' = e"
    using octave_le [OF assms(3) e'(4)] octave_le [OF e'(3) assms(4)] by simp
  have off: "unat (if v \<le> octave_base e then 0 else v - octave_base e) = unat v - 2 ^ e"
    using unat_octave_base [OF assms(2)] by (auto simp: word_le_nat_alt unat_sub)
  have m: "min MAX_EXP (63 - clzll v) = e"
    using assms(2) e'(2) \<open>e' = e\<close> by (simp add: MAX_EXP_def)
  have sub: "unat ((if v \<le> octave_base e then 0 else v - octave_base e) div octave_width e)
      = (unat v - 2 ^ e) div octave_step e"
    using off unat_octave_width [OF assms(2)] by (simp only: unat_div)
  show ?thesis
    unfolding index_for_def Let_def m sub using assms(1) by (simp add: SUB_BUCKETS_def min_def)
qed

lemma bucket_lower_octave:
  assumes "e < 64" "s < 16" "0 < 16 * e + s"
  shows "unat (bucket_lower_value (int (16 * e + s))) = 2 ^ e + s * octave_step e"
proof -
  have idx: "nat (int (16 * e + s)) div 16 = e" "nat (int (16 * e + s)) mod 16 = s"
    using assms(2) by (simp_all only: nat_int) simp_all
  have "s * octave_step e \<le> 15 * octave_step e" using assms(2) by simp
  moreover have "2 ^ e + 15 * octave_step e < 2 ^ 64"
  proof (cases "e = 63")
    case True
    then show ?thesis by (simp add: octave_step_def)
  next
    case False
    with assms(1) have "(2::nat) ^ e \<le> 2 ^ 62" by (intro power_increasing) auto
    with False show ?thesis by (auto simp: octave_step_def max_def)
  qed
  ultimately have "2 ^ e + s * octave_step e < 2 ^ 64" by linarith
  moreover from this have "unat (of_nat s * octave_width e) = s * octave_step e"
    using unat_octave_width [OF assms(1)] assms(2) unat_of_nat_u64 [of s]
      unat_mult_lem [of "of_nat s" "octave_width e"] by simp
  ultimately have "unat (octave_base e + of_nat s * octave_width e) = 2 ^ e + s * octave_step e"
    using unat_octave_base [OF assms(1)] unat_add_lem [of "octave_base e" "of_nat s * octave_width e"] by simp
  moreover have "\<not> int (16 * e + s) \<le> 0" using assms(3) by linarith
  moreover have "min MAX_EXP e = e" using assms(1) by (simp add: MAX_EXP_def)
  ultimately show ?thesis
    unfolding bucket_lower_value_def SUB_BUCKETS_def idx Let_def by simp
qed

text \<open>The two copies of the bucket computation agree.\<close>

lemma histogram_index_for_eq: "histogram_index_for v = index_for v"
proof -
  have e: "(if 63 - int (clzll v) < 0 then 0 else if int MAX_EXP < 63 - int (clzll v) then MAX_EXP
      else nat (63 - int (clzll v))) = min MAX_EXP (63 - clzll v)"
    by (simp add: MAX_EXP_def) linarith
  show ?thesis
    unfolding histogram_index_for_def index_for_def octave_width_def octave_base_def Let_def e by (rule refl)
qed

lemma atomic_record_eq: "atomic_record v a = record_sample v a"
  by (simp add: atomic_record_def record_sample_def histogram_index_for_eq Let_def)

text \<open>Every sample has a counter.\<close>

lemma index_for_less: "index_for v < BUCKETS"
proof (cases "v = 0")
  case True
  then show ?thesis by (simp add: index_for_def BUCKETS_def MAX_EXP_def SUB_BUCKETS_def)
next
  case False
  then obtain e where "e < 64" "2 ^ e \<le> unat v" "unat v < 2 ^ Suc e" by (rule clzll_octave)
  from index_for_octave [OF False this] this(1) show ?thesis
    by (simp add: BUCKETS_def MAX_EXP_def SUB_BUCKETS_def)
qed

lemma octave_step_pos: "0 < octave_step e"
  by (simp add: octave_step_def max_def)

text \<open>Position of a sample relative to the lower end of its bucket.\<close>

lemma bucket_of_sample:
  assumes "2 \<le> unat v"
  obtains e s where "e < 64" "s < 16" "0 < e" "2 ^ e \<le> unat v" "unat v < 2 ^ Suc e"
    "index_for v = 16 * e + s" "s = min 15 ((unat v - 2 ^ e) div octave_step e)"
    "unat (bucket_lower_value (int (index_for v))) = 2 ^ e + s * octave_step e"
proof -
  have v: "v \<noteq> 0" using assms by auto
  from clzll_octave [OF v] obtain e where e: "e < 64" "2 ^ e \<le> unat v" "unat v < 2 ^ Suc e" by blast
  let ?s = "min 15 ((unat v - 2 ^ e) div octave_step e)"
  have "0 < e" using e(3) assms by (cases e) auto
  then show ?thesis
    using that [of e ?s] e index_for_octave [OF v e] bucket_lower_octave [of e ?s] by simp
qed

lemma bucket_lower_le:
  "unat (bucket_lower_value (int (index_for v))) \<le> unat v"
proof (cases "2 \<le> unat v")
  case True
  then obtain e s where "2 ^ e \<le> unat v" "s = min 15 ((unat v - 2 ^ e) div octave_step e)"
    "unat (bucket_lower_value (int (index_for v))) = 2 ^ e + s * octave_step e"
    by (rule bucket_of_sample)
  moreover have "min 15 ((unat v - 2 ^ e) div octave_step e) * octave_step e \<le> unat v - 2 ^ e"
    by (meson div_times_less_eq_dividend min.cobounded2 mult_le_mono1 order_trans)
  ultimately show ?thesis by simp
next
  case False
  then have "unat v = 0 \<or> unat v = 1" by linarith
  then have "v = 0 \<or> v = 1" by (auto simp: word_unat_eq_iff)
  then have "index_for v = 0"
    using index_for_octave [of 1 0] by (auto simp: index_for_def)
  then show ?thesis by (simp add: bucket_lower_value_def)
qed

lemma sub_bucket_exact:
  assumes "e < 63" "2 ^ e \<le> v" "v < 2 ^ Suc e"
  shows "(v - 2 ^ e) div octave_step e < 16" and "16 * ((v - 2 ^ e) mod octave_step e) < v"
proof -
  have "(v - 2 ^ e) div octave_step e < 16 \<and> 16 * ((v - 2 ^ e) mod octave_step e) < v"
  proof (cases "e < 4")
    case True
    then have "e = 0 \<or> e = 1 \<or> e = 2 \<or> e = 3" by auto
    with assms(2,3) show ?thesis by (auto simp: octave_step_def)
  next
    case False
    then obtain k where k: "e = k + 4" by (metis add.commute le_Suc_ex not_less)
    have step: "octave_step e = 2 ^ k" using assms(1) k by (simp add: octave_step_def power_add)
    have lt: "v - 2 ^ e < 16 * 2 ^ k" using assms(2,3) k by (simp add: power_add)
    then have "(v - 2 ^ e) div octave_step e < 16" by (simp add: step div_less_iff_less_mult mult.commute)
    have "16 * ((v - 2 ^ e) mod 2 ^ k) < 16 * 2 ^ k" by simp
    moreover have "(2::nat) ^ e = 16 * 2 ^ k" using k by (simp add: power_add)
    ultimately have "16 * ((v - 2 ^ e) mod 2 ^ k) < v"
      using assms(2) by linarith
    with \<open>(v - 2 ^ e) div octave_step e < 16\<close> show ?thesis using step by simp
  qed
  then show "(v - 2 ^ e) div octave_step e < 16" "16 * ((v - 2 ^ e) mod octave_step e) < v" by auto
qed

lemma top_octave_error:
  assumes "2 ^ 63 \<le> v" "v < 2 ^ 64"
  shows "16 * (v - (2 ^ 63 + min 15 ((v - 2 ^ 63) div octave_step 63) * octave_step 63)) < (v :: nat)"
proof -
  let ?w = "2 ^ 59 - 1 :: nat" and ?o = "v - 2 ^ 63"
  have w: "octave_step 63 = ?w" by (simp add: octave_step_def)
  show ?thesis
  proof (cases "?o div ?w < 15")
    case True
    then have "min 15 (?o div ?w) * ?w = ?o div ?w * ?w" by (simp add: min_def)
    moreover have "?o = ?o div ?w * ?w + ?o mod ?w" by (rule div_mult_mod_eq [symmetric])
    moreover have "?o mod ?w < ?w" by simp
    ultimately have "16 * (v - (2 ^ 63 + min 15 (?o div ?w) * ?w)) < 16 * ?w" by linarith
    with assms w show ?thesis by simp
  next
    case False
    then have "min 15 (?o div ?w) = 15" by simp
    moreover have "15 * ?w \<le> ?o" using False by (simp add: not_less less_eq_div_iff_mult_less_eq)
    ultimately show ?thesis using assms w by simp
  qed
qed

text \<open>
  The value reported for a sample's bucket is at most the sample and, from 2 on, less than
  a sixteenth of it away.
\<close>
theorem bucket_relative_error:
  assumes "2 \<le> unat v"
  shows "bucket_lower_value (int (index_for v)) \<le> v \<and>
         16 * (unat v - unat (bucket_lower_value (int (index_for v)))) < unat v"
proof -
  from assms obtain e s where e: "e < 64" "2 ^ e \<le> unat v" "unat v < 2 ^ Suc e"
    "s = min 15 ((unat v - 2 ^ e) div octave_step e)"
    and low: "unat (bucket_lower_value (int (index_for v))) = 2 ^ e + s * octave_step e"
    by (rule bucket_of_sample)
  have "16 * (unat v - (2 ^ e + s * octave_step e)) < unat v"
  proof (cases "e = 63")
    case True
    with e top_octave_error [of "unat v"] show ?thesis by simp
  next
    case False
    with e(1) have "e < 63" by simp
    note ex = sub_bucket_exact [OF this e(2,3)]
    have "unat v - (2 ^ e + s * octave_step e) = (unat v - 2 ^ e) mod octave_step e"
      using ex(1) e(4) by (simp add: minus_div_mult_eq_mod flip: diff_diff_left)
    with ex(2) show ?thesis by simp
  qed
  with low bucket_lower_le [of v] show ?thesis by (simp add: word_le_nat_alt)
qed


theorem bucket_relative_error_witness:
  "bucket_lower_value (int (index_for 1000)) \<le> 1000"
  using bucket_relative_error [of 1000] by simp

lemma index_for_mono:
  assumes "v \<le> w"
  shows "index_for v \<le> index_for w"
proof (cases "2 \<le> unat v")
  case True
  have le: "unat v \<le> unat w" using assms by (simp add: word_le_nat_alt)
  from True obtain e s where v: "e < 64" "2 ^ e \<le> unat v" "index_for v = 16 * e + s" "s < 16"
    "s = min 15 ((unat v - 2 ^ e) div octave_step e)"
    by (rule bucket_of_sample)
  from True le have "2 \<le> unat w" by simp
  then obtain e' s' where w: "2 ^ e' \<le> unat w" "unat w < 2 ^ Suc e'" "index_for w = 16 * e' + s'"
    "s' = min 15 ((unat w - 2 ^ e') div octave_step e')"
    by (rule bucket_of_sample)
  have "e \<le> e'" using octave_le [of e "unat w" e'] v(2) w(2) le by simp
  show ?thesis
  proof (cases "e = e'")
    case True
    have "(unat v - 2 ^ e) div octave_step e \<le> (unat w - 2 ^ e) div octave_step e"
      by (rule div_le_mono) (use le in simp)
    with True v w show ?thesis by (simp add: min.coboundedI2)
  next
    case False
    with \<open>e \<le> e'\<close> have "16 * Suc e \<le> 16 * e'" by simp
    with v w show ?thesis by simp
  qed
next
  case False
  then have "v = 0 \<or> v = 1" by (auto simp: word_unat_eq_iff)
  then have "index_for v = 0" using index_for_octave [of 1 0] by (auto simp: index_for_def)
  then show ?thesis by simp
qed

section \<open>Counters\<close>

definition hist_wf :: "LatencyHistogram \<Rightarrow> bool" where
  "hist_wf h \<longleftrightarrow> length (h_counts h) = BUCKETS \<and> h_total h = sum_list (h_counts h)"

lemma sum_list_add_at:
  "i < length cs \<Longrightarrow> sum_list (cs[i := cs ! i + c]) = sum_list cs + (c :: u64)"
proof (induction cs arbitrary: i)
  case (Cons a cs)
  then show ?case by (cases i) (auto simp: ac_simps)
qed simp

lemma sum_list_map2_add:
  "length xs = length ys \<Longrightarrow> sum_list (map2 (+) xs ys) = sum_list xs + sum_list (ys :: u64 list)"
  by (induction xs ys rule: list_induct2) (auto simp: ac_simps)

lemma hist_wf_empty: "hist_wf empty_histogram"
  by (simp add: hist_wf_def empty_histogram_def sum_list_replicate)

lemma hist_wf_record: "hist_wf h \<Longrightarrow> hist_wf (record_sample v h)"
  using index_for_less [of v] by (simp add: hist_wf_def record_sample_def sum_list_add_at)

lemma hist_wf_add_bucket: "hist_wf h \<Longrightarrow> hist_wf (add_bucket i c h)"
  by (auto simp: hist_wf_def add_bucket_def sum_list_add_at nat_less_iff)

lemma hist_wf_merge: "hist_wf h \<Longrightarrow> hist_wf h' \<Longrightarrow> hist_wf (hist_merge h h')"
  by (simp add: hist_wf_def hist_merge_def sum_list_map2_add)

lemma snapshot_loop_counts:
  "i + length cs \<le> BUCKETS \<Longrightarrow> length (h_counts h) = BUCKETS \<Longrightarrow>
   \<forall>j. i \<le> j \<and> j < i + length cs \<longrightarrow> h_counts h ! j = 0 \<Longrightarrow>
   h_counts (snapshot_loop cs i h) = take i (h_counts h) @ cs @ drop (i + length cs) (h_counts h)"
proof (induction cs arbitrary: i h)
  case Nil
  then show ?case by simp
next
  case (Cons c cs)
  let ?h = "if c \<noteq> 0 then add_bucket (int i) c h else h"
  have z: "h_counts h ! i = 0" using Cons.prems(3) by simp
  have h: "h_counts ?h = (h_counts h)[i := c]"
    using Cons.prems(1) z list_update_id [of "h_counts h" i]
    by (auto simp: add_bucket_def Cons.prems(2))
  have "h_counts (snapshot_loop cs (Suc i) ?h)
      = take (Suc i) (h_counts ?h) @ cs @ drop (Suc i + length cs) (h_counts ?h)"
    using Cons.prems h by (intro Cons.IH) auto
  with h Cons.prems(1,2) show ?case
    by (simp add: take_Suc_conv_app_nth)
qed

lemma hist_wf_snapshot_loop: "hist_wf h \<Longrightarrow> hist_wf (snapshot_loop cs i h)"
  by (induction cs arbitrary: i h) (auto simp: hist_wf_add_bucket)

lemma hist_snapshot_counts:
  assumes "length (h_counts a) = BUCKETS"
  shows "h_counts (hist_snapshot a) = h_counts a \<and> hist_wf (hist_snapshot a)"
  using assms snapshot_loop_counts [of 0 "h_counts a" empty_histogram]
    hist_wf_snapshot_loop [OF hist_wf_empty]
  by (simp add: hist_snapshot_def empty_histogram_def)

text \<open>
  The snapshot of the atomic counters reproduces every counter, and its total is the sum
  of the counters.
\<close>
theorem hist_snapshot_exact:
  assumes "length (h_counts a) = BUCKETS"
  shows "h_counts (hist_snapshot a) = h_counts a \<and> hist_wf (hist_snapshot a)"
  using assms by (rule hist_snapshot_counts)

theorem hist_snapshot_exact_witness:
  "h_counts (hist_snapshot (record_sample 5 empty_histogram)) = h_counts (record_sample 5 empty_histogram)"
  using hist_snapshot_exact [of "record_sample 5 empty_histogram"]
  by (simp add: record_sample_def empty_histogram_def)

section \<open>Histograms of sample lists\<close>

definition hist_of :: "u64 list \<Rightarrow> LatencyHistogram" where
  "hist_of xs = fold record_sample xs empty_histogram"

lemma hist_wf_fold: "hist_wf h \<Longrightarrow> hist_wf (fold record_sample xs h)"
  by (induction xs arbitrary: h) (auto simp: hist_wf_record)

lemma fold_record_counts:
  "length (h_counts h) = BUCKETS \<Longrightarrow>
   h_total (fold record_sample xs h) = h_total h + of_nat (length xs) \<and>
   length (h_counts (fold record_sample xs h)) = BUCKETS \<and>
   (\<forall>i<BUCKETS. h_counts (fold record_sample xs h) ! i
      = h_counts h ! i + of_nat (length (filter (\<lambda>x. index_for x = i) xs)))"
proof (induction xs arbitrary: h)
  case Nil
  then show ?case by simp
next
  case (Cons x xs)
  have "length (h_counts (record_sample x h)) = BUCKETS" using Cons.prems by (simp add: record_sample_def)
  from Cons.IH [OF this] Cons.prems show ?case
    using index_for_less [of x] by (auto simp: record_sample_def nth_list_update ac_simps)
qed

lemma hist_of_counts:
  "length (h_counts (hist_of xs)) = BUCKETS"
  "h_total (hist_of xs) = of_nat (length xs)"
  "i < BUCKETS \<Longrightarrow> h_counts (hist_of xs) ! i = of_nat (length (filter (\<lambda>x. index_for x = i) xs))"
  using fold_record_counts [of empty_histogram xs] by (auto simp: hist_of_def empty_histogram_def)

lemma hist_merge_of: "hist_merge (hist_of xs) (hist_of ys) = hist_of (xs @ ys)"
proof -
  have "h_counts (hist_merge (hist_of xs) (hist_of ys)) = h_counts (hist_of (xs @ ys))"
    by (intro nth_equalityI) (auto simp: hist_merge_def hist_of_counts)
  moreover have "h_total (hist_merge (hist_of xs) (hist_of ys)) = h_total (hist_of (xs @ ys))"
    by (simp add: hist_merge_def hist_of_counts)
  ultimately show ?thesis by simp
qed

text \<open>
  Merging is exact: the merge of two nodes' histograms is the histogram of all their
  samples together.
\<close>
theorem hist_merge_exact: "hist_merge (hist_of xs) (hist_of ys) = hist_of (xs @ ys)"
  by (rule hist_merge_of)

text \<open>the buckets partition the 64-bit values into consecutive ranges. Every sample falls
  into one of the 1024 counters, so \<open>record\<close> never indexes out of the array, and a larger sample never
  falls into an earlier bucket.\<close>

theorem index_for_partition: "index_for v < BUCKETS \<and> (v \<le> w \<longrightarrow> index_for v \<le> index_for w)"
  using index_for_less index_for_mono by blast

theorem index_for_partition_witness: "index_for 5 < BUCKETS \<and> index_for 5 \<le> index_for 1000"
  using index_for_partition [of 5 1000] by simp

section \<open>Quantiles\<close>

lemma sorted_filter_le: "sorted xs \<Longrightarrow> filter (\<lambda>x. x \<le> j) xs = takeWhile (\<lambda>x. x \<le> j) xs"
proof (induction xs)
  case (Cons x xs)
  show ?case
  proof (cases "x \<le> j")
    case True
    with Cons show ?thesis by simp
  next
    case False
    with Cons.prems have "\<forall>y\<in>set xs. \<not> y \<le> j" by auto
    with False show ?thesis by simp
  qed
qed simp

lemma sorted_rank_le:
  assumes "sorted xs" "t < length xs"
  shows "t < length (filter (\<lambda>x. x \<le> j) xs) \<longleftrightarrow> xs ! t \<le> (j :: 'a :: linorder)"
proof
  assume "t < length (filter (\<lambda>x. x \<le> j) xs)"
  then have t: "t < length (takeWhile (\<lambda>x. x \<le> j) xs)" using assms(1) by (simp add: sorted_filter_le)
  then have "takeWhile (\<lambda>x. x \<le> j) xs ! t \<le> j" by (meson nth_mem set_takeWhileD)
  with t show "xs ! t \<le> j" by (simp add: takeWhile_nth)
next
  assume le: "xs ! t \<le> j"
  show "t < length (filter (\<lambda>x. x \<le> j) xs)"
  proof (rule ccontr)
    assume "\<not> ?thesis"
    then have "length (takeWhile (\<lambda>x. x \<le> j) xs) \<le> t" using assms(1) by (simp add: sorted_filter_le)
    moreover from this have "\<not> xs ! length (takeWhile (\<lambda>x. x \<le> j) xs) \<le> j"
      using assms(2) by (intro nth_length_takeWhile) simp
    ultimately show False
      using sorted_nth_mono [OF assms(1), of "length (takeWhile (\<lambda>x. x \<le> j) xs)" t] assms(2) le by force
  qed
qed

definition rank_below :: "u64 list \<Rightarrow> nat \<Rightarrow> nat" where
  "rank_below xs i = length (filter (\<lambda>x. index_for x < i) xs)"

lemma rank_below_Suc:
  "rank_below xs (Suc i) = rank_below xs i + length (filter (\<lambda>x. index_for x = i) xs)"
  by (induction xs) (auto simp: rank_below_def)

lemma quantile_scan_rank:
  assumes n: "length xs < 2 ^ 64" and k: "k < BUCKETS"
    and rank: "\<And>j. unat target \<le> rank_below xs (Suc j) \<longleftrightarrow> k \<le> j"
  shows "i \<le> k \<Longrightarrow> i + length cs = BUCKETS \<Longrightarrow> cs = drop i (h_counts (hist_of xs)) \<Longrightarrow>
    quantile_scan target cs i (of_nat (rank_below xs i)) = bucket_lower_value (int k)"
proof (induction cs arbitrary: i)
  case Nil
  with k show ?case by simp
next
  case (Cons c cs)
  have i: "i < BUCKETS" using Cons.prems(2) by simp
  have c: "c = of_nat (length (filter (\<lambda>x. index_for x = i) xs))"
    using Cons.prems(3) i hist_of_counts(1,3) by (metis Cons_nth_drop_Suc list.inject)
  have cum: "of_nat (rank_below xs i) + c = of_nat (rank_below xs (Suc i))"
    by (simp add: c rank_below_Suc)
  have "rank_below xs (Suc i) < 2 ^ 64"
    using n length_filter_le [of "\<lambda>x. index_for x < Suc i" xs]
    unfolding rank_below_def by (rule le_less_trans [rotated])
  then have test: "target \<le> of_nat (rank_below xs (Suc i)) \<longleftrightarrow> k \<le> i"
    using rank [of i] by (simp add: word_le_nat_alt unat_of_nat_u64)
  show ?case
  proof (cases "k \<le> i")
    case True
    with Cons.prems(1) test cum show ?thesis by simp
  next
    case False
    have "cs = drop (Suc i) (h_counts (hist_of xs))"
      using Cons.prems(3) by (metis drop_Suc list.sel(3) tl_drop)
    with False Cons.prems have "quantile_scan target cs (Suc i) (of_nat (rank_below xs (Suc i)))
        = bucket_lower_value (int k)" by (intro Cons.IH) simp_all
    with False test cum show ?thesis by simp
  qed
qed

lemma quantile_rank:
  assumes "length xs < 2 ^ 64" "1 \<le> unat t" "unat t \<le> length xs"
  shows "quantile_at t (hist_of xs) = bucket_lower_value (int (index_for (sort xs ! (unat t - 1))))"
proof -
  let ?k = "index_for (sort xs ! (unat t - 1))"
  have rank: "unat t \<le> rank_below xs (Suc j) \<longleftrightarrow> ?k \<le> j" for j
  proof -
    have "rank_below xs (Suc j) = length (filter (\<lambda>i. i \<le> j) (map index_for (sort xs)))"
      by (simp add: rank_below_def filter_map comp_def less_Suc_eq_le filter_sort)
    moreover have "sorted (map index_for (sort xs))"
      by (rule sorted_map_mono [OF sorted_sort]) (auto simp: mono_on_def index_for_mono)
    moreover have "unat t - 1 < length (map index_for (sort xs))" using assms(2,3) by simp
    ultimately have "unat t - 1 < rank_below xs (Suc j) \<longleftrightarrow> map index_for (sort xs) ! (unat t - 1) \<le> j"
      using sorted_rank_le by metis
    with assms(2,3) show ?thesis by auto
  qed
  have "rank_below xs 0 = 0" by (simp add: rank_below_def)
  then have "quantile_scan t (h_counts (hist_of xs)) 0 0 = bucket_lower_value (int ?k)"
    using quantile_scan_rank [OF assms(1) index_for_less rank, of 0 "h_counts (hist_of xs)"]
    by (simp add: hist_of_counts)
  moreover have "h_total (hist_of xs) \<noteq> 0" "t \<noteq> 0"
    using assms unat_of_nat_u64 [OF assms(1)] by (auto simp: hist_of_counts)
  ultimately show ?thesis by (simp add: quantile_at_def)
qed

text \<open>
  Property C39: On the histogram of a list of samples, the quantile at rank \<open>t\<close> is the lower end of the
  bucket that holds the \<open>t\<close>-th smallest sample.
\<close>
theorem quantile_order_statistic:
  assumes "length xs < 2 ^ 64" "1 \<le> unat t" "unat t \<le> length xs"
  shows "quantile_at t (hist_of xs) = bucket_lower_value (int (index_for (sort xs ! (unat t - 1))))"
  using assms by (rule quantile_rank)

theorem quantile_order_statistic_witness:
  "quantile_at 2 (hist_of [9, 5, 7]) = bucket_lower_value (int (index_for 7))"
  using quantile_order_statistic [of "[9, 5, 7]" 2] by simp

end
