(* ===== verification/Bandle_Node.thy ===== *)
theory Bandle_Node
  imports Message_Queue Kv_Store Latency_Histogram
begin

text \<open>
  One replica (\<open>include/bandle.h\<close>, \<open>src/bandle.cpp\<close>): its state, the handlers that run under the mutex
  \<open>mu_\<close>, in-order execution of the log, and the request path. Each handler is one step on the node
  state; the threads that call them are in \<open>Bandle_Threads\<close>. The cycle counter is a source of values
  in the state, one per call of \<open>rdtsc_ordered\<close>.
\<close>

section \<open>Parameters\<close>

definition is_write_op :: "char \<Rightarrow> bool" where
  "is_write_op c \<longleftrightarrow> c = CHR ''P'' \<or> c = CHR ''U'' \<or> c = CHR ''D''"

definition recv_batch_capacity :: "u32 \<Rightarrow> nat" where
  "recv_batch_capacity submit_batch_size = min 512 (max 128 (unat submit_batch_size))"

definition max_inflight_seq_window :: "u32 \<Rightarrow> u64 \<Rightarrow> u64 \<Rightarrow> u64" where
  "max_inflight_seq_window submit_batch_size cluster_size configured_window =
     (let min_for_batch = cluster_size * max (ucast submit_batch_size) 1 + cluster_size
      in max configured_window min_for_batch)"

definition admission_batch_capacity :: "nat \<Rightarrow> u32 \<Rightarrow> nat" where
  "admission_batch_capacity submit_count configured_batch =
     (let cap = max 1 (unat configured_batch) in max 1 (min cap submit_count))"

section \<open>State\<close>

record BorrowedRequest =
  q_op :: char
  q_key_ptr :: "bytes option"
  q_key_len :: u32
  q_value_ptr :: "bytes option"
  q_value_len :: u32

record Pending =
  p_id :: u64
  p_op :: char
  p_start_tsc :: u64
  p_done :: bool

record LogEntry =
  e_seq :: u64
  e_proposal_known :: bool
  e_p1_sent :: bool
  e_decided :: bool
  e_decision :: u8
  e_p1_value1_promise_mask :: u8
  e_op :: char
  e_key_len :: u32
  e_value_len :: u32
  e_proposer :: u64
  e_client_req_id :: u64
  e_start_tsc :: u64

text \<open>
  The vectors \<open>log_\<close>, \<open>log_payloads_\<close> and \<open>pending_\<close> have \<open>kCompletionSlots\<close> elements and are only
  indexed by masked positions.
\<close>

record Bandle =
  n_node_id :: u64
  n_cluster_size :: u64
  n_quorum :: u64
  n_poll_idle_us :: int
  n_noop_interval_us :: u64
  n_batch_size :: u32
  n_pipeline_workers :: nat
  n_admission_window :: u64
  n_admission_batch :: u32
  n_kv :: KVStore
  n_running :: bool
  n_log :: "u64 \<Rightarrow> LogEntry"
  n_log_payloads :: "u64 \<Rightarrow> bytes"
  n_execute_next :: u64
  n_next_seq :: u64
  n_highest_proposed_seq :: u64
  n_last_noop_ns :: u64
  n_pending :: "u64 \<Rightarrow> Pending"
  n_next_client_req_id :: u64
  n_pending_count :: u64
  n_input_done :: bool
  n_total_ops :: u64
  n_read_ops :: u64
  n_write_ops :: u64
  n_ok_ops :: u64
  n_error_ops :: u64
  n_read_latency :: LatencyHistogram
  n_write_latency :: LatencyHistogram
  n_tsc :: "nat \<Rightarrow> u64"

definition log_slot :: "u64 \<Rightarrow> u64" where
  "log_slot seq = seq AND (kCompletionSlots - 1)"

definition empty_log_entry :: LogEntry where
  "empty_log_entry = \<lparr> e_seq = 0, e_proposal_known = False, e_p1_sent = False, e_decided = False,
     e_decision = 0, e_p1_value1_promise_mask = 0, e_op = CHR ''N'', e_key_len = 0, e_value_len = 0,
     e_proposer = 0, e_client_req_id = 0, e_start_tsc = 0 \<rparr>"

definition empty_pending :: Pending where
  "empty_pending = \<lparr> p_id = 0, p_op = CHR ''G'', p_start_tsc = 0, p_done = False \<rparr>"

text \<open>The constructor; \<open>None\<close> is the call of \<open>abort\<close>.\<close>

definition bandle_new ::
  "u64 \<Rightarrow> u64 \<Rightarrow> int \<Rightarrow> u64 \<Rightarrow> u32 \<Rightarrow> nat \<Rightarrow> u64 \<Rightarrow> u32 \<Rightarrow> (nat \<Rightarrow> u64) \<Rightarrow> Bandle option" where
  "bandle_new node_id cluster_size poll_idle_us noop_interval_us batch_size pipeline_workers
     admission_window admission_batch tsc =
     (if cluster_size \<noteq> 3 \<or> node_id < 1 \<or> cluster_size < node_id then None
      else Some \<lparr> n_node_id = node_id, n_cluster_size = cluster_size, n_quorum = cluster_size div 2 + 1,
        n_poll_idle_us = poll_idle_us, n_noop_interval_us = noop_interval_us,
        n_batch_size = (if batch_size = 0 then 1 else batch_size),
        n_pipeline_workers = (if pipeline_workers = 0 then 1 else pipeline_workers),
        n_admission_window = (if admission_window = 0 then 1 else admission_window),
        n_admission_batch = (if admission_batch = 0 then 1 else admission_batch),
        n_kv = empty_store, n_running = False, n_log = (\<lambda>_. empty_log_entry),
        n_log_payloads = (\<lambda>_. replicate kMaxValueBytes (char_of (0 :: nat))),
        n_execute_next = 1, n_next_seq = node_id, n_highest_proposed_seq = 0, n_last_noop_ns = 0,
        n_pending = (\<lambda>_. empty_pending), n_next_client_req_id = 1, n_pending_count = 0,
        n_input_done = False, n_total_ops = 0, n_read_ops = 0, n_write_ops = 0, n_ok_ops = 0,
        n_error_ops = 0, n_read_latency = empty_histogram, n_write_latency = empty_histogram,
        n_tsc = tsc \<rparr>)"

definition rdtsc_ordered :: "Bandle \<Rightarrow> u64 \<times> Bandle" where
  "rdtsc_ordered n = (n_tsc n 0, n\<lparr>n_tsc := (\<lambda>i. n_tsc n (Suc i))\<rparr>)"

definition reset_log_entry :: "u64 \<Rightarrow> LogEntry" where
  "reset_log_entry seq = \<lparr> e_seq = seq, e_proposal_known = False, e_p1_sent = False, e_decided = False,
     e_decision = 0, e_p1_value1_promise_mask = 0, e_op = CHR ''N'', e_key_len = 0, e_value_len = 0,
     e_proposer = 0, e_client_req_id = 0, e_start_tsc = 0 \<rparr>"

definition shard_for :: "(string \<Rightarrow> u64) \<Rightarrow> string \<Rightarrow> u16" where
  "shard_for hash key = ucast (hash key mod of_nat kNumShards)"

section \<open>Execution\<close>

definition set_log :: "u64 \<Rightarrow> LogEntry \<Rightarrow> Bandle \<Rightarrow> Bandle" where
  "set_log slot e n = n\<lparr>n_log := (n_log n)(slot := e)\<rparr>"

text \<open>The operation that an executed entry hands to the store.\<close>

definition entry_apply_op :: "(string \<Rightarrow> u64) \<Rightarrow> LogEntry \<Rightarrow> bytes \<Rightarrow> ApplyOp" where
  "entry_apply_op hash e payload =
     (let key = take (unat (e_key_len e)) payload
      in \<lparr> op_op = e_op e, op_shard = shard_for hash key, op_key = key,
           op_value = (if e_op e = CHR ''D'' then ''''
                       else take (unat (e_value_len e)) (drop (unat (e_key_len e)) payload)) \<rparr>)"

definition kExecuteBatchMax :: nat where
  "kExecuteBatchMax = 256"

text \<open>The first inner loop: count the executable entries from \<open>base_seq\<close> on and collect their writes.\<close>

fun exec_scan ::
  "(string \<Rightarrow> u64) \<Rightarrow> Bandle \<Rightarrow> u64 \<Rightarrow> nat \<Rightarrow> nat \<Rightarrow> ApplyOp list \<Rightarrow> nat \<times> ApplyOp list" where
  "exec_scan hash n base_seq exec_count 0 ops = (exec_count, ops)"
| "exec_scan hash n base_seq exec_count (Suc r) ops =
     (let seq = base_seq + of_nat exec_count;
          e = n_log n (log_slot seq)
      in if e_seq e \<noteq> seq \<or> \<not> e_decided e then (exec_count, ops)
         else if e_decision e = 1 \<and> \<not> e_proposal_known e then (exec_count, ops)
         else exec_scan hash n base_seq (Suc exec_count) r
                (if e_decision e = 1 \<and> is_write_op (e_op e)
                 then ops @ [entry_apply_op hash e (n_log_payloads n (log_slot seq))] else ops))"

text \<open>Completion of the local request behind an executed entry; the flag is \<open>notify_waiter\<close>.\<close>

definition record_latency :: "char \<Rightarrow> u64 \<Rightarrow> Bandle \<Rightarrow> Bandle" where
  "record_latency c latency n =
     (if c = CHR ''G''
      then n\<lparr>n_read_ops := n_read_ops n + 1, n_read_latency := atomic_record latency (n_read_latency n)\<rparr>
      else n\<lparr>n_write_ops := n_write_ops n + 1, n_write_latency := atomic_record latency (n_write_latency n)\<rparr>)"

definition pending_slot :: "u64 \<Rightarrow> u64" where
  "pending_slot cid = (let local_id = cid AND (push_bit 56 1 - 1) in local_id AND (kCompletionSlots - 1))"

definition completes_request :: "LogEntry \<Rightarrow> Bandle \<Rightarrow> bool" where
  "completes_request e n \<longleftrightarrow>
     e_decision e = 1 \<and> e_proposer e = n_node_id n \<and> e_client_req_id e \<noteq> 0 \<and>
     (let p = n_pending n (pending_slot (e_client_req_id e))
      in p_id p = e_client_req_id e \<and> \<not> p_done p)"

definition finish_request :: "u64 \<Rightarrow> Bandle \<Rightarrow> bool \<Rightarrow> Bandle \<times> bool" where
  "finish_request ps n notify_waiter =
     (let p = n_pending n ps
      in case rdtsc_ordered n of (end_tsc, n1) \<Rightarrow>
           let start_tsc = p_start_tsc p;
               n2 = record_latency (p_op p) (if start_tsc \<le> end_tsc then end_tsc - start_tsc else 0) n1;
               n3 = n2\<lparr>n_pending := (n_pending n2)(ps := p\<lparr>p_done := True\<rparr>),
                       n_ok_ops := n_ok_ops n2 + 1, n_total_ops := n_total_ops n2 + 1\<rparr>
           in if 0 < n_pending_count n3
              then (n3\<lparr>n_pending_count := n_pending_count n3 - 1\<rparr>,
                    notify_waiter \<or> n_pending_count n3 - 1 = 0)
              else (n3, notify_waiter))"

definition complete_entry :: "LogEntry \<Rightarrow> Bandle \<Rightarrow> bool \<Rightarrow> Bandle \<times> bool" where
  "complete_entry e n notify_waiter =
     (if completes_request e n then finish_request (pending_slot (e_client_req_id e)) n notify_waiter
      else (n, notify_waiter))"

text \<open>The second inner loop: complete and reset the entries counted by the scan.\<close>

fun exec_complete :: "u64 \<Rightarrow> nat \<Rightarrow> nat \<Rightarrow> Bandle \<Rightarrow> bool \<Rightarrow> Bandle \<times> bool" where
  "exec_complete base_seq i 0 n notify_waiter = (n, notify_waiter)"
| "exec_complete base_seq i (Suc r) n notify_waiter =
     (let slot = log_slot (base_seq + of_nat i)
      in case complete_entry (n_log n slot) n notify_waiter of
           (n1, notify1) \<Rightarrow> exec_complete base_seq (Suc i) r (set_log slot (reset_log_entry 0) n1) notify1)"

lemma complete_entry_log [simp]: "n_log (fst (complete_entry e n w)) = n_log n"
  by (simp add: complete_entry_def finish_request_def record_latency_def rdtsc_ordered_def Let_def)

lemma exec_complete_log:
  "n_log (fst (exec_complete base i r n w)) slot
     = (if \<exists>j. i \<le> j \<and> j < i + r \<and> slot = log_slot (base + of_nat j) then reset_log_entry 0 else n_log n slot)"
proof (induction r arbitrary: i n w)
  case 0
  then show ?case by auto
next
  case (Suc r)
  let ?s = "log_slot (base + of_nat i)"
  obtain n1 w1 where c: "complete_entry (n_log n ?s) n w = (n1, w1)" by fastforce
  then have "n_log n1 = n_log n" by (metis complete_entry_log fst_conv)
  moreover have "(\<exists>j. i \<le> j \<and> j < i + Suc r \<and> slot = log_slot (base + of_nat j)) \<longleftrightarrow>
      slot = ?s \<or> (\<exists>j. Suc i \<le> j \<and> j < Suc i + r \<and> slot = log_slot (base + of_nat j))"
    by (metis Suc_le_eq add_Suc_right add_Suc_shift le_eq_less_or_eq less_add_Suc1 order_refl)
  ultimately show ?case using c Suc.IH [of "Suc i" "set_log ?s (reset_log_entry 0) n1" w1]
    by (auto simp: set_log_def)
qed

text \<open>When an entry can be executed, and the store operations it contributes.\<close>

definition entry_ready :: "Bandle \<Rightarrow> u64 \<Rightarrow> bool" where
  "entry_ready n seq \<longleftrightarrow>
     (let e = n_log n (log_slot seq)
      in e_seq e = seq \<and> e_decided e \<and> (e_decision e = 1 \<longrightarrow> e_proposal_known e))"

definition entry_ops :: "(string \<Rightarrow> u64) \<Rightarrow> Bandle \<Rightarrow> u64 \<Rightarrow> ApplyOp list" where
  "entry_ops hash n seq =
     (let e = n_log n (log_slot seq)
      in if e_decision e = 1 \<and> is_write_op (e_op e)
         then [entry_apply_op hash e (n_log_payloads n (log_slot seq))] else [])"

lemma exec_scan_Suc:
  "exec_scan hash n base c (Suc r) ops =
     (if entry_ready n (base + of_nat c)
      then exec_scan hash n base (Suc c) r (ops @ entry_ops hash n (base + of_nat c)) else (c, ops))"
  by (auto simp: entry_ready_def entry_ops_def Let_def)

lemma exec_scan_spec:
  "exec_scan hash n base c r ops = (c', ops') \<Longrightarrow>
   c \<le> c' \<and> c' \<le> c + r \<and> (\<forall>j\<in>{c..<c'}. entry_ready n (base + of_nat j)) \<and>
   (c' < c + r \<longrightarrow> \<not> entry_ready n (base + of_nat c')) \<and>
   ops' = ops @ concat (map (\<lambda>j. entry_ops hash n (base + of_nat j)) [c..<c'])"
proof (induction r arbitrary: c ops)
  case 0
  then show ?case by simp
next
  case (Suc r)
  show ?case
  proof (cases "entry_ready n (base + of_nat c)")
    case True
    with Suc.prems have "exec_scan hash n base (Suc c) r (ops @ entry_ops hash n (base + of_nat c)) = (c', ops')"
      by (simp only: exec_scan_Suc if_True)
    note IH = Suc.IH [OF this]
    then have "{c..<c'} = insert c {Suc c..<c'}" "[c..<c'] = c # [Suc c..<c']"
      by (auto simp: upt_conv_Cons)
    with IH True show ?thesis by simp
  next
    case False
    with Suc.prems show ?thesis by (simp only: exec_scan_Suc if_False) simp
  qed
qed

definition decided_slots :: "Bandle \<Rightarrow> u64 set" where
  "decided_slots n = {slot. e_decided (n_log n slot)}"

lemma exec_round_decreases:
  assumes scan: "exec_scan hash n base 0 r [] = (c, ops)" and "c \<noteq> 0"
    and log: "n_log n1 = n_log n"
  shows "card (decided_slots (fst (exec_complete base 0 c n1 w))) < card (decided_slots n)"
proof (rule psubset_card_mono)
  let ?n = "fst (exec_complete base 0 c n1 w)"
  have sub: "decided_slots ?n \<subseteq> decided_slots n"
    by (auto simp: decided_slots_def exec_complete_log log reset_log_entry_def split: if_splits)
  have "entry_ready n (base + of_nat 0)"
    using exec_scan_spec [OF scan] assms(2) by (metis atLeastLessThan_iff le0 not_gr0)
  then have "log_slot (base + of_nat 0) \<in> decided_slots n"
    by (simp add: decided_slots_def entry_ready_def Let_def)
  moreover have "log_slot (base + of_nat 0) \<notin> decided_slots ?n"
    using assms(2) by (auto simp: decided_slots_def exec_complete_log reset_log_entry_def)
  ultimately show "decided_slots ?n \<subset> decided_slots n" using sub by blast
qed simp

text \<open>
  \<open>advance_execute_locked\<close>. Each round of the outer loop executes at least one decided entry and resets
  it, so the number of decided slots bounds the rounds.
\<close>

function advance_loop :: "(string \<Rightarrow> u64) \<Rightarrow> Bandle \<Rightarrow> bool \<Rightarrow> Bandle \<times> bool" where
  "advance_loop hash n notify_waiter =
     (case exec_scan hash n (n_execute_next n) 0 kExecuteBatchMax [] of
        (exec_count, ops) \<Rightarrow>
          if exec_count = 0 then (n, notify_waiter)
          else let n1 = (if ops \<noteq> [] then n\<lparr>n_kv := apply_ops_in_order ops (n_kv n)\<rparr> else n)
               in case exec_complete (n_execute_next n) 0 exec_count n1 notify_waiter of
                    (n2, notify1) \<Rightarrow>
                      advance_loop hash (n2\<lparr>n_execute_next := n_execute_next n2 + of_nat exec_count\<rparr>) notify1)"
  by pat_completeness auto
termination
proof (relation "measure (\<lambda>(hash, n, w). card (decided_slots n))", goal_cases)
  case 1
  show ?case by simp
next
  case (2 hash n w exec_count ops n1 n2 w')
  then have "card (decided_slots (fst (exec_complete (n_execute_next n) 0 exec_count n1 w)))
      < card (decided_slots n)"
    by (intro exec_round_decreases [where hash = hash and r = kExecuteBatchMax and ops = ops]) auto
  with 2 show ?case by (simp add: decided_slots_def) (metis fst_conv)
qed

declare advance_loop.simps [simp del]

definition advance_execute_locked :: "(string \<Rightarrow> u64) \<Rightarrow> Bandle \<Rightarrow> Bandle \<times> bool" where
  "advance_execute_locked hash n = advance_loop hash n False"

section \<open>Message handlers\<close>

text \<open>
  \<open>LogEntry& e = log_[slot]; if (e.seq != seq) reset_log_entry(e, seq);\<close>, the opening of every handler.
\<close>

definition claim_entry :: "u64 \<Rightarrow> Bandle \<Rightarrow> LogEntry" where
  "claim_entry seq n =
     (let e = n_log n (log_slot seq) in if e_seq e \<noteq> seq then reset_log_entry seq else e)"

text \<open>The proposal branch of \<open>handle_proposal_locked\<close>: the entry and the payload slot after it.\<close>

definition accept_proposal :: "BandlePayload \<Rightarrow> LogEntry \<Rightarrow> bytes \<Rightarrow> LogEntry \<times> bytes" where
  "accept_proposal b e payload =
     (if e_proposal_known e then (e, payload)
      else let e1 = e\<lparr>e_proposal_known := True, e_op := b_op b, e_proposer := b_proposer b,
                      e_client_req_id := b_client_req_id b, e_start_tsc := b_start_tsc b\<rparr>
           in if b_op b = CHR ''G'' \<or> b_op b = CHR ''N''
              then (e1\<lparr>e_key_len := 0, e_value_len := 0\<rparr>, payload)
              else let bytes = payload_bytes (b_key_len b) (b_value_len b)
                   in if bytes \<le> of_nat kMaxValueBytes
                      then (e1\<lparr>e_key_len := b_key_len b, e_value_len := b_value_len b\<rparr>,
                            if bytes \<noteq> 0 then memcpy_at payload 0 (b_data b) (unat bytes) else payload)
                      else (e1\<lparr>e_op := CHR ''N'', e_key_len := 0, e_value_len := 0\<rparr>, payload))"

text \<open>The flag of every handler that executes is that of \<open>advance_execute_locked\<close>.\<close>

definition handle_proposal_locked ::
  "(string \<Rightarrow> u64) \<Rightarrow> BandleMessage \<Rightarrow> bool \<Rightarrow> Bandle \<Rightarrow> Bandle \<times> bool" where
  "handle_proposal_locked hash msg advance n =
     (let b = m_body msg;
          slot = log_slot (b_seq b)
      in case accept_proposal b (claim_entry (b_seq b) n) (n_log_payloads n slot) of
           (e, payload) \<Rightarrow>
             let n1 = (set_log slot (e\<lparr>e_decided := True, e_decision := 1\<rparr>) n)
                        \<lparr>n_log_payloads := (n_log_payloads n)(slot := payload)\<rparr>
             in if advance then advance_execute_locked hash n1 else (n1, False))"

definition decide_locked :: "(string \<Rightarrow> u64) \<Rightarrow> u64 \<Rightarrow> u8 \<Rightarrow> Bandle \<Rightarrow> Bandle \<times> bool" where
  "decide_locked hash seq val n =
     (let e = claim_entry seq n;
          n1 = set_log (log_slot seq) e n
      in if e_decided e then (n1, False)
         else advance_execute_locked hash
                (set_log (log_slot seq) (e\<lparr>e_decided := True, e_decision := val\<rparr>) n1))"

text \<open>\<open>__builtin_popcount\<close> of an 8-bit mask.\<close>

definition popcount8 :: "u8 \<Rightarrow> nat" where
  "popcount8 m = length (filter (bit m) [0..<8])"

definition promise_bit :: "u64 \<Rightarrow> u8" where
  "promise_bit sender = push_bit (unat (sender - 1)) 1"

definition input_one_locked ::
  "(string \<Rightarrow> u64) \<Rightarrow> u64 \<Rightarrow> Bandle \<Rightarrow> BandleMessage list \<times> Bandle \<times> bool" where
  "input_one_locked hash seq n =
     (let e = claim_entry seq n
      in if e_p1_sent e then ([], set_log (log_slot seq) e n, False)
         else let p1 = default_message\<lparr>m_type := P1, m_body := default_payload\<lparr>b_seq := seq, b_round := 1,
                         b_sender := n_node_id n, b_proposer := e_proposer e, b_value := 1, b_promise := 1\<rparr>\<rparr>;
                  e1 = e\<lparr>e_p1_sent := True,
                         e_p1_value1_promise_mask := e_p1_value1_promise_mask e OR promise_bit (n_node_id n)\<rparr>;
                  n1 = set_log (log_slot seq) e1 n
              in if n_quorum n \<le> of_nat (popcount8 (e_p1_value1_promise_mask e1))
                 then ([p1], decide_locked hash seq 1 n1)
                 else ([p1], n1, False))"

definition handle_p1_locked :: "(string \<Rightarrow> u64) \<Rightarrow> BandleMessage \<Rightarrow> Bandle \<Rightarrow> Bandle \<times> bool" where
  "handle_p1_locked hash msg n =
     (let b = m_body msg
      in if b_value b \<noteq> 1 \<or> b_promise b = 0 \<or> b_sender b < 1 \<or> n_cluster_size n < b_sender b then (n, False)
         else let e = claim_entry (b_seq b) n;
                  e1 = e\<lparr>e_p1_value1_promise_mask :=
                         e_p1_value1_promise_mask e OR promise_bit (b_sender b)\<rparr>;
                  n1 = set_log (log_slot (b_seq b)) e1 n
              in if n_quorum n \<le> of_nat (popcount8 (e_p1_value1_promise_mask e1))
                 then decide_locked hash (b_seq b) 1 n1
                 else (n1, False))"

definition handle_decide_locked :: "(string \<Rightarrow> u64) \<Rightarrow> BandleMessage \<Rightarrow> Bandle \<Rightarrow> Bandle \<times> bool" where
  "handle_decide_locked hash msg n =
     (let b = m_body msg;
          e = claim_entry (b_seq b) n;
          e1 = (if e_decided e then e else e\<lparr>e_decided := True, e_decision := b_value b\<rparr>)
      in advance_execute_locked hash (set_log (log_slot (b_seq b)) e1 n))"

definition handle_message :: "(string \<Rightarrow> u64) \<Rightarrow> BandleMessage \<Rightarrow> Bandle \<Rightarrow> Bandle \<times> bool" where
  "handle_message hash msg n =
     (case m_type msg of
        PROPOSAL \<Rightarrow> handle_proposal_locked hash msg True n
      | P1 \<Rightarrow> handle_p1_locked hash msg n
      | DECIDE \<Rightarrow> handle_decide_locked hash msg n
      | P2 \<Rightarrow> (n, False))"

text \<open>One locked section of \<open>handle_messages_batch\<close>: the messages of a chunk, then one execution.\<close>

fun handle_chunk_loop ::
  "(string \<Rightarrow> u64) \<Rightarrow> BandleMessage list \<Rightarrow> bool \<Rightarrow> bool \<Rightarrow> Bandle \<Rightarrow> bool \<times> bool \<times> Bandle" where
  "handle_chunk_loop hash [] need_advance notified n = (need_advance, notified, n)"
| "handle_chunk_loop hash (msg # msgs) need_advance notified n =
     (case m_type msg of
        PROPOSAL \<Rightarrow> (case handle_proposal_locked hash msg False n of
                       (n1, w) \<Rightarrow> handle_chunk_loop hash msgs True (notified \<or> w) n1)
      | P1 \<Rightarrow> (case handle_p1_locked hash msg n of
                 (n1, w) \<Rightarrow> handle_chunk_loop hash msgs need_advance (notified \<or> w) n1)
      | DECIDE \<Rightarrow> (case handle_decide_locked hash msg n of
                     (n1, w) \<Rightarrow> handle_chunk_loop hash msgs need_advance (notified \<or> w) n1)
      | P2 \<Rightarrow> handle_chunk_loop hash msgs need_advance notified n)"

definition handle_chunk :: "(string \<Rightarrow> u64) \<Rightarrow> BandleMessage list \<Rightarrow> Bandle \<Rightarrow> Bandle \<times> bool" where
  "handle_chunk hash msgs n =
     (case handle_chunk_loop hash msgs False False n of
        (need_advance, notified, n1) \<Rightarrow>
          if need_advance
          then (case advance_execute_locked hash n1 of (n2, w) \<Rightarrow> (n2, notified \<or> w))
          else (n1, notified))"

definition kHandleChunk :: nat where
  "kHandleChunk = 64"

function handle_messages_batch :: "(string \<Rightarrow> u64) \<Rightarrow> BandleMessage list \<Rightarrow> Bandle \<Rightarrow> Bandle" where
  "handle_messages_batch hash msgs n =
     (if msgs = [] then n
      else handle_messages_batch hash (drop kHandleChunk msgs)
             (fst (handle_chunk hash (take kHandleChunk msgs) n)))"
  by pat_completeness auto
termination
  by (relation "measure (\<lambda>(hash, msgs, n). length msgs)") (auto simp: kHandleChunk_def)

declare handle_messages_batch.simps [simp del]

section \<open>Requests\<close>

text \<open>
  The first loop of \<open>submit_borrowed_batch\<close>. \<open>scratch i\<close> is what the i-th proposal of the thread-local
  buffer still holds in its data array; only the bytes of the request are overwritten.
\<close>

definition make_proposal :: "u64 \<Rightarrow> BorrowedRequest \<Rightarrow> bytes \<Rightarrow> BandleMessage" where
  "make_proposal node_id req scratch =
     (let base = \<lparr> b_seq = 0, b_round = 1, b_sender = node_id, b_proposer = node_id, b_client_req_id = 0,
                   b_start_tsc = 0, b_value = 1, b_promise = 0, b_op = q_op req, b_key_len = 0,
                   b_value_len = 0, b_data = scratch \<rparr>;
          body = (if q_op req = CHR ''G'' then base
                  else let kl = min (q_key_len req) (of_nat kMaxValueBytes);
                           vl = min (q_value_len req) (of_nat kMaxValueBytes - kl);
                           d1 = (case q_key_ptr req of
                                   Some k \<Rightarrow> if kl \<noteq> 0 then memcpy_at scratch 0 k (unat kl) else scratch
                                 | None \<Rightarrow> scratch);
                           d2 = (case q_value_ptr req of
                                   Some v \<Rightarrow> if vl \<noteq> 0 then memcpy_at d1 (unat kl) v (unat vl) else d1
                                 | None \<Rightarrow> d1)
                       in base\<lparr>b_key_len := kl, b_value_len := vl, b_data := d2\<rparr>)
      in \<lparr> m_slot_seq = 0, m_type = PROPOSAL, m_body = body \<rparr>)"

fun build_proposals ::
  "(nat \<Rightarrow> bytes) \<Rightarrow> BorrowedRequest list \<Rightarrow> nat \<Rightarrow> Bandle \<Rightarrow> BandleMessage list \<times> Bandle" where
  "build_proposals scratch [] i n = ([], n)"
| "build_proposals scratch (req # reqs) i n =
     (if q_op req = CHR ''G'' \<or> is_write_op (q_op req)
      then case build_proposals scratch reqs (Suc i) n of
             (ms, n1) \<Rightarrow> (make_proposal (n_node_id n) req (scratch i) # ms, n1)
      else build_proposals scratch reqs i
             (n\<lparr>n_error_ops := n_error_ops n + 1, n_total_ops := n_total_ops n + 1\<rparr>))"

text \<open>The body of the assignment loop: sequence number, time stamp, request id, pending slot.\<close>

definition assign_one :: "BandleMessage \<Rightarrow> Bandle \<Rightarrow> BandleMessage \<times> Bandle" where
  "assign_one msg n =
     (case rdtsc_ordered n of (tsc, n1) \<Rightarrow>
        let local_id = n_next_client_req_id n1;
            cid = push_bit 56 (n_node_id n1) OR local_id;
            msg1 = msg\<lparr>m_body := (m_body msg)\<lparr>b_seq := n_next_seq n1, b_start_tsc := tsc,
                                               b_client_req_id := cid\<rparr>\<rparr>;
            p = \<lparr> p_id = cid, p_op = b_op (m_body msg), p_start_tsc = tsc, p_done = False \<rparr>
        in (msg1,
            n1\<lparr>n_next_client_req_id := local_id + 1,
               n_highest_proposed_seq := max (n_highest_proposed_seq n1) (n_next_seq n1),
               n_next_seq := n_next_seq n1 + n_cluster_size n1,
               n_pending := (n_pending n1)(local_id AND (kCompletionSlots - 1) := p),
               n_pending_count := n_pending_count n1 + 1\<rparr>))"

fun assign_chunk :: "BandleMessage list \<Rightarrow> Bandle \<Rightarrow> BandleMessage list \<times> Bandle" where
  "assign_chunk [] n = ([], n)"
| "assign_chunk (msg # msgs) n =
     (case assign_one msg n of (msg1, n1) \<Rightarrow>
        case assign_chunk msgs n1 of (msgs1, n2) \<Rightarrow> (msg1 # msgs1, n2))"

text \<open>One attempt of the admission loop; \<open>None\<close> when the window is closed and the caller spins.\<close>

definition try_assign :: "BandleMessage list \<Rightarrow> Bandle \<Rightarrow> (BandleMessage list \<times> Bandle) option" where
  "try_assign chunk_msgs n =
     (let chunk = length chunk_msgs;
          window = max_inflight_seq_window (of_nat chunk) (n_cluster_size n) (n_admission_window n);
          last_seq = n_next_seq n + of_nat (chunk - 1) * n_cluster_size n
      in if last_seq < n_execute_next n + window then Some (assign_chunk chunk_msgs n) else None)"

text \<open>The local delivery that follows the broadcast.\<close>

fun deliver_loop :: "(string \<Rightarrow> u64) \<Rightarrow> BandleMessage list \<Rightarrow> Bandle \<Rightarrow> Bandle" where
  "deliver_loop hash [] n = n"
| "deliver_loop hash (msg # msgs) n = deliver_loop hash msgs (fst (handle_proposal_locked hash msg False n))"

definition deliver_chunk :: "(string \<Rightarrow> u64) \<Rightarrow> BandleMessage list \<Rightarrow> Bandle \<Rightarrow> Bandle \<times> bool" where
  "deliver_chunk hash chunk_msgs n = advance_execute_locked hash (deliver_loop hash chunk_msgs n)"

text \<open>The chunks of the admission loop: at most \<open>admit_cap\<close> proposals each.\<close>

function split_chunks :: "nat \<Rightarrow> 'a list \<Rightarrow> 'a list list" where
  "split_chunks cap xs =
     (if xs = [] \<or> cap = 0 then [] else take cap xs # split_chunks cap (drop cap xs))"
  by pat_completeness auto
termination
  by (relation "measure (\<lambda>(cap, xs). length xs)") auto

declare split_chunks.simps [simp del]

definition admission_chunks :: "Bandle \<Rightarrow> BandleMessage list \<Rightarrow> BandleMessage list list" where
  "admission_chunks n msgs = split_chunks (admission_batch_capacity (length msgs) (n_admission_batch n)) msgs"

section \<open>No-ops, preload and waiting\<close>

definition should_propose_noop_locked :: "u64 \<Rightarrow> bool \<Rightarrow> Bandle \<Rightarrow> bool" where
  "should_propose_noop_locked now all_finished n \<longleftrightarrow>
     n_input_done n \<and> \<not> all_finished \<and>
     \<not> now - n_last_noop_ns n < n_noop_interval_us n * 1000 \<and>
     n_highest_proposed_seq n < n_execute_next n + n_cluster_size n * 512"

text \<open>\<open>propose_noop\<close> reads \<open>next_seq_\<close> into the message before it takes the lock.\<close>

definition noop_message :: "Bandle \<Rightarrow> BandleMessage" where
  "noop_message n = default_message\<lparr>m_type := PROPOSAL, m_body := default_payload\<lparr>b_seq := n_next_seq n,
     b_round := 1, b_sender := n_node_id n, b_proposer := n_node_id n, b_op := CHR ''N''\<rparr>\<rparr>"

definition noop_reserve :: "u64 \<Rightarrow> Bandle \<Rightarrow> Bandle" where
  "noop_reserve now n =
     n\<lparr>n_highest_proposed_seq := max (n_highest_proposed_seq n) (n_next_seq n),
       n_next_seq := n_next_seq n + n_cluster_size n, n_last_noop_ns := now\<rparr>"

definition mark_input_done :: "Bandle \<Rightarrow> Bandle" where
  "mark_input_done n = n\<lparr>n_input_done := True\<rparr>"

definition pending_wait_over :: "Bandle \<Rightarrow> bool" where
  "pending_wait_over n \<longleftrightarrow> n_pending_count n = 0 \<or> \<not> n_running n"

definition direct_apply :: "(string \<Rightarrow> u64) \<Rightarrow> char \<Rightarrow> string \<Rightarrow> string \<Rightarrow> Bandle \<Rightarrow> Bandle" where
  "direct_apply hash c key val n =
     (if c = CHR ''P'' then n\<lparr>n_kv := kv_put hash key val (n_kv n)\<rparr>
      else if c = CHR ''U'' then n\<lparr>n_kv := snd (kv_update hash key val (n_kv n))\<rparr>
      else if c = CHR ''D'' then n\<lparr>n_kv := snd (kv_erase hash key (n_kv n))\<rparr>
      else n)"

record ReplayStats =
  s_total_ops :: u64
  s_read_ops :: u64
  s_write_ops :: u64
  s_ok_ops :: u64
  s_error_ops :: u64
  s_real_start_ns :: u64
  s_work_done_ns :: u64
  s_real_end_ns :: u64
  s_tsc_hz :: u64
  s_read_latency :: LatencyHistogram
  s_write_latency :: LatencyHistogram

definition stats :: "Bandle \<Rightarrow> ReplayStats" where
  "stats n = \<lparr> s_total_ops = n_total_ops n, s_read_ops = n_read_ops n, s_write_ops = n_write_ops n,
     s_ok_ops = n_ok_ops n, s_error_ops = n_error_ops n,
     s_real_start_ns = 0, s_work_done_ns = 0, s_real_end_ns = 0, s_tsc_hz = 0,
     s_read_latency = hist_snapshot (n_read_latency n), s_write_latency = hist_snapshot (n_write_latency n) \<rparr>"

end
