(* ===== verification/Bandle_Threads.thy ===== *)
theory Bandle_Threads
  imports Bandle_Node
begin

text \<open>
  The threads of a node (\<open>src/bandle.cpp\<close>) as step functions: the caller of \<open>submit_borrowed_batch\<close>, the
  proposer of no-ops and the receivers. A program counter stands between two accesses to shared data; the
  sections under \<open>mu_\<close> are single steps, and so are the accesses to one ring. Spinning is a step that
  leaves the program counter where it is. The handlers that run (\<open>handle_proposal_locked\<close>, \<open>handle_p1_locked\<close>,
  \<open>handle_decide_locked\<close>) put nothing into the \<open>outbox\<close> they are given, so the calls of \<open>drain_outbox\<close> behind
  them have nothing to send.
\<close>

section \<open>Nodes and rings\<close>

text \<open>The node ids of the supported cluster, and the loops over the peers of a node.\<close>

definition node_ids :: "nat list" where
  "node_ids = [1, 2, 3]"

definition peers :: "nat \<Rightarrow> nat list" where
  "peers p = filter (\<lambda>q. q \<noteq> p) node_ids"

abbreviation ring_cap :: u64 where
  "ring_cap \<equiv> kBandleRingCapacity"

definition bandle_start :: "u64 \<Rightarrow> Bandle \<Rightarrow> Bandle" where
  "bandle_start now n = (if n_running n then n else n\<lparr>n_running := True, n_last_noop_ns := now\<rparr>)"

definition bandle_stop :: "Bandle \<Rightarrow> Bandle" where
  "bandle_stop n = (if n_running n then n\<lparr>n_running := False\<rparr> else n)"

definition all_nodes_finished :: "(nat \<Rightarrow> u64) \<Rightarrow> bool" where
  "all_nodes_finished node_finished = list_all (\<lambda>i. node_finished i \<noteq> 0) node_ids"

section \<open>Spinning\<close>

text \<open>
  \<open>spin_backoff\<close>, called whenever a thread finds nothing to do, pauses the processor or gives it up; the
  counter it keeps is the caller's local \<open>spins\<close>. A thread that keeps waiting gives the processor up at every
  2001st call, so that another thread pinned to it gets its turn.
\<close>

datatype backoff = Cpu_Relax | Yield_Cpu

definition spin_backoff :: "u32 \<Rightarrow> backoff \<times> u32" where
  "spin_backoff spins = (if spins < 2000 then (Cpu_Relax, spins + 1) else (Yield_Cpu, 0))"

primrec spins_after :: "nat \<Rightarrow> u32" where
  "spins_after 0 = 0"
| "spins_after (Suc k) = snd (spin_backoff (spins_after k))"

lemma unat_spins_after: "unat (spins_after k) = k mod 2001"
proof (induction k)
  case (Suc k)
  show ?case
  proof (cases "k mod 2001 < 2000")
    case True
    then have "spins_after k < 2000" using Suc by (simp add: word_less_nat_alt)
    moreover have "unat (spins_after k + 1) = unat (spins_after k) + 1"
      using Suc True by (simp add: unat_word_ariths)
    ultimately show ?thesis using Suc True by (simp add: spin_backoff_def mod_Suc)
  next
    case False
    then have "k mod 2001 = 2000" using mod_less_divisor [of 2001 k] by linarith
    then show ?thesis using Suc by (simp add: spin_backoff_def word_less_nat_alt mod_Suc)
  qed
qed simp

lemma spin_yields: "fst (spin_backoff (spins_after k)) = Yield_Cpu \<longleftrightarrow> 2001 dvd Suc k"
  using unat_spins_after [of k]
  by (auto simp: spin_backoff_def word_less_nat_alt mod_Suc dvd_eq_mod_eq_0 split: if_splits)

section \<open>Broadcast of a batch\<close>

text \<open>
  \<open>broadcast_batch\<close>: wait until every peer's ring has room, remembering the heads; write all rings; then
  publish all heads. A message over the payload limit makes it return with nothing published.
\<close>

datatype bcast_pc =
    Bc_Loop "nat \<Rightarrow> u64"
  | Bc_Check "nat list" "nat \<Rightarrow> u64"
  | Bc_Write "nat list" "nat \<Rightarrow> u64"
  | Bc_Publish "nat list" "nat \<Rightarrow> u64"
  | Bc_Done

definition bcast_start :: "BandleMessage list \<Rightarrow> bcast_pc" where
  "bcast_start msgs = (if msgs = [] then Bc_Done else Bc_Loop (\<lambda>_. 0))"

fun bcast_step ::
  "bool \<Rightarrow> nat \<Rightarrow> BandleMessage list \<Rightarrow> bcast_pc \<Rightarrow> (nat \<Rightarrow> SpscRing) \<Rightarrow> bcast_pc \<times> (nat \<Rightarrow> SpscRing)" where
  "bcast_step running p msgs (Bc_Loop heads) rs =
     (if running then (Bc_Check (peers p) heads, rs) else (Bc_Done, rs))"
| "bcast_step running p msgs (Bc_Check [] heads) rs = (Bc_Write (peers p) heads, rs)"
| "bcast_step running p msgs (Bc_Check (q # qs) heads) rs =
     (case can_push_batch ring_cap (of_nat (length msgs)) (rs q) of
        None \<Rightarrow> (Bc_Loop heads, rs)
      | Some h \<Rightarrow> (Bc_Check qs (heads(q := h)), rs))"
| "bcast_step running p msgs (Bc_Write [] heads) rs = (Bc_Publish (peers p) heads, rs)"
| "bcast_step running p msgs (Bc_Write (q # qs) heads) rs =
     (case write_batch_at ring_cap (heads q) msgs (rs q) of
        (ok, wrote, r) \<Rightarrow> (if ok then Bc_Write qs heads else Bc_Done, rs(q := r)))"
| "bcast_step running p msgs (Bc_Publish [] heads) rs = (Bc_Done, rs)"
| "bcast_step running p msgs (Bc_Publish (q # qs) heads) rs =
     (Bc_Publish qs heads, rs(q := publish_head (heads q + of_nat (length msgs)) (rs q)))"
| "bcast_step running p msgs Bc_Done rs = (Bc_Done, rs)"

section \<open>Submission\<close>

datatype submit_pc =
    Sub_Idle
  | Sub_Admit "BandleMessage list list"
  | Sub_Bcast "BandleMessage list" bcast_pc "BandleMessage list list"
  | Sub_Deliver "BandleMessage list" "BandleMessage list list"

definition submit_begin ::
  "(nat \<Rightarrow> bytes) \<Rightarrow> BorrowedRequest list \<Rightarrow> Bandle \<Rightarrow> submit_pc \<times> Bandle" where
  "submit_begin scratch reqs n =
     (if reqs = [] then (Sub_Idle, n)
      else case build_proposals scratch reqs 0 n of
             (msgs, n1) \<Rightarrow> (if msgs = [] then Sub_Idle else Sub_Admit (admission_chunks n1 msgs), n1))"

definition submit_borrowed :: "(nat \<Rightarrow> bytes) \<Rightarrow> BorrowedRequest \<Rightarrow> Bandle \<Rightarrow> submit_pc \<times> Bandle" where
  "submit_borrowed scratch req = submit_begin scratch [req]"

fun submit_step ::
  "(string \<Rightarrow> u64) \<Rightarrow> nat \<Rightarrow> submit_pc \<Rightarrow> Bandle \<Rightarrow> (nat \<Rightarrow> SpscRing)
     \<Rightarrow> submit_pc \<times> Bandle \<times> (nat \<Rightarrow> SpscRing)" where
  "submit_step hash p Sub_Idle n rs = (Sub_Idle, n, rs)"
| "submit_step hash p (Sub_Admit []) n rs = (Sub_Idle, n, rs)"
| "submit_step hash p (Sub_Admit (ch # chs)) n rs =
     (case try_assign ch n of
        None \<Rightarrow> (Sub_Admit (ch # chs), n, rs)
      | Some (msgs, n1) \<Rightarrow> (Sub_Bcast msgs (bcast_start msgs) chs, n1, rs))"
| "submit_step hash p (Sub_Bcast msgs pc chs) n rs =
     (case pc of
        Bc_Done \<Rightarrow> (Sub_Deliver msgs chs, n, rs)
      | _ \<Rightarrow> (case bcast_step (n_running n) p msgs pc rs of (pc1, rs1) \<Rightarrow> (Sub_Bcast msgs pc1 chs, n, rs1)))"
| "submit_step hash p (Sub_Deliver msgs chs) n rs =
     (Sub_Admit chs, fst (deliver_chunk hash msgs n), rs)"

section \<open>No-ops\<close>

text \<open>\<open>proposer_loop\<close> and \<open>propose_noop\<close>; \<open>next_seq_\<close> is read before the lock is taken.\<close>

datatype noop_pc =
    Np_Idle
  | Np_Read
  | Np_Reserve BandleMessage
  | Np_Send BandleMessage "nat list"
  | Np_Deliver BandleMessage

definition send_to_peer :: "BandleMessage \<Rightarrow> SpscRing \<Rightarrow> bool \<times> SpscRing" where
  "send_to_peer msg r = push ring_cap msg r"

fun noop_step ::
  "(string \<Rightarrow> u64) \<Rightarrow> nat \<Rightarrow> u64 \<Rightarrow> bool \<Rightarrow> noop_pc \<Rightarrow> Bandle \<Rightarrow> (nat \<Rightarrow> SpscRing)
     \<Rightarrow> noop_pc \<times> Bandle \<times> (nat \<Rightarrow> SpscRing)" where
  "noop_step hash p now all_finished Np_Idle n rs =
     (if n_running n \<and> should_propose_noop_locked now all_finished n then (Np_Read, n, rs) else (Np_Idle, n, rs))"
| "noop_step hash p now all_finished Np_Read n rs = (Np_Reserve (noop_message n), n, rs)"
| "noop_step hash p now all_finished (Np_Reserve msg) n rs = (Np_Send msg (peers p), noop_reserve now n, rs)"
| "noop_step hash p now all_finished (Np_Send msg []) n rs = (Np_Deliver msg, n, rs)"
| "noop_step hash p now all_finished (Np_Send msg (q # qs)) n rs =
     (if \<not> n_running n then (Np_Send msg qs, n, rs)
      else case send_to_peer msg (rs q) of
             (ok, r) \<Rightarrow> (Np_Send msg (if ok then qs else q # qs), n, rs(q := r)))"
| "noop_step hash p now all_finished (Np_Deliver msg) n rs =
     (Np_Idle, fst (handle_proposal_locked hash msg True n), rs)"

section \<open>Reception\<close>

text \<open>
  \<open>drain_source_ring\<close> followed by \<open>handle_messages_batch\<close>, for one source. \<open>out\<close> is what the batch buffer
  holds from the read position on; the first read of a drain does not test \<open>running_\<close>. The messages read so far
  are kept at the control point; \<open>Receiver_Threads\<close> has the steps on the buffer that the thread shares among its
  sources, and shows that they implement these.
\<close>

datatype recv_pc =
    Rv_Idle
  | Rv_First u64 nat
  | Rv_More u64 nat "BandleMessage list"
  | Rv_Handle "BandleMessage list"

fun recv_step ::
  "(string \<Rightarrow> u64) \<Rightarrow> BandleMessage list \<Rightarrow> recv_pc \<Rightarrow> Bandle \<Rightarrow> SpscRing \<Rightarrow> recv_pc \<times> Bandle \<times> SpscRing" where
  "recv_step hash out Rv_Idle n r =
     (let t = r_tail r; avail = r_head r - t
      in if avail = 0 then (Rv_Idle, n, r)
         else (Rv_First t (min (unat avail) (recv_batch_capacity (n_batch_size n))), n, r))"
| "recv_step hash out (Rv_First t count) n r =
     (case read_batch_at_abs ring_cap t out count r of (k, out1) \<Rightarrow> (Rv_More t count (take k out1), n, r))"
| "recv_step hash out (Rv_More t count got) n r =
     (if length got < count \<and> n_running n
      then case read_batch_at_abs ring_cap (t + of_nat (length got)) out (count - length got) r of
             (k, out1) \<Rightarrow> (Rv_More t count (got @ take k out1), n, r)
      else if got = [] then (Rv_Idle, n, r)
      else (Rv_Handle got, n, commit_tail (t + of_nat (length got)) r))"
| "recv_step hash out (Rv_Handle msgs) n r =
     (if msgs = [] then (Rv_Idle, n, r)
      else (Rv_Handle (drop kHandleChunk msgs), fst (handle_chunk hash (take kHandleChunk msgs) n), r))"

end
