(* ===== verification/Link_Invariant.thy ===== *)
theory Link_Invariant
  imports Ring_Refinement Bandle_Threads
begin

text \<open>
  One directed link: the messages a proposer has issued are, in order, those the receiver has handled,
  those in the receiver's batch, those in the ring and those the proposer has still to publish. Every
  access of \<open>Bandle_Threads\<close> to a ring keeps this.
\<close>

section \<open>The invariant of a link\<close>

fun recv_pending :: "recv_pc \<Rightarrow> BandleMessage list" where
  "recv_pending (Rv_Handle msgs) = map wire msgs"
| "recv_pending _ = []"

fun recv_ok :: "SpscRing \<Rightarrow> BandleMessage list \<Rightarrow> recv_pc \<Rightarrow> bool" where
  "recv_ok r q Rv_Idle \<longleftrightarrow> True"
| "recv_ok r q (Rv_First t count) \<longleftrightarrow> t = r_tail r \<and> 0 < count \<and> count \<le> length q"
| "recv_ok r q (Rv_More t count got) \<longleftrightarrow>
     t = r_tail r \<and> length got = count \<and> 0 < count \<and> count \<le> length q \<and> map wire got = take count q \<and> list_all wf_msg got"
| "recv_ok r q (Rv_Handle msgs) \<longleftrightarrow> list_all wf_msg msgs"

text \<open>
  \<open>staged\<close> are the messages written behind the head but not yet published; \<open>need\<close> is the head and the
  batch length that the sender relies on after its check.
\<close>

definition ring_inv ::
  "SpscRing \<Rightarrow> BandleMessage list \<Rightarrow> BandleMessage list \<Rightarrow> (u64 \<times> nat) option \<Rightarrow> bool" where
  "ring_inv r q staged need \<longleftrightarrow>
     ring_rep ring_cap r q \<and> region_rep ring_cap r (r_tail r) (q @ staged) \<and>
     length q + length staged \<le> unat ring_cap \<and>
     (case need of None \<Rightarrow> True | Some (h, k) \<Rightarrow> h = r_head r \<and> length q + k \<le> unat ring_cap)"

definition link_inv ::
  "BandleMessage list \<Rightarrow> nat \<Rightarrow> SpscRing \<Rightarrow> recv_pc \<Rightarrow> BandleMessage list \<Rightarrow> BandleMessage list
     \<Rightarrow> (u64 \<times> nat) option \<Rightarrow> bool" where
  "link_inv hist d r rv out staged need \<longleftrightarrow>
     d \<le> length hist \<and>
     (\<exists>q. ring_inv r q staged need \<and> recv_ok r q rv \<and> drop d hist = recv_pending rv @ q @ out)"

lemma link_invI:
  "d \<le> length hist \<Longrightarrow> ring_inv r q staged need \<Longrightarrow> recv_ok r q rv \<Longrightarrow> drop d hist = recv_pending rv @ q @ out
    \<Longrightarrow> link_inv hist d r rv out staged need"
  by (auto simp: link_inv_def)

lemma link_invE:
  assumes "link_inv hist d r rv out staged need"
  obtains q where "d \<le> length hist" "ring_inv r q staged need" "recv_ok r q rv"
    "drop d hist = recv_pending rv @ q @ out"
  using assms by (auto simp: link_inv_def)

lemma recv_ok_append:
  "recv_ok r q rv \<Longrightarrow> r_tail r' = r_tail r \<Longrightarrow> recv_ok r' (q @ ws) rv"
  by (cases rv) auto

section \<open>Steps of the sender\<close>

lemma link_issue:
  "link_inv hist d r rv [] [] None \<Longrightarrow> link_inv (hist @ ws) d r rv ws [] None"
  by (auto simp: link_inv_def)

lemma link_forget: "link_inv hist d r rv out [] need \<Longrightarrow> link_inv hist d r rv out [] None"
  by (auto simp: link_inv_def ring_inv_def)

lemma link_check:
  assumes "link_inv hist d r rv out [] None" "k < 2 ^ 63" "can_push_batch ring_cap (of_nat k) r = Some h"
  shows "link_inv hist d r rv out [] (Some (h, k))"
proof -
  from assms(1) obtain q where q: "d \<le> length hist" "ring_inv r q [] None" "recv_ok r q rv"
    "drop d hist = recv_pending rv @ q @ out" by (rule link_invE)
  then have rep: "ring_rep ring_cap r q" by (simp add: ring_inv_def)
  from can_push_batch_rep [OF kBandleRingCapacity_pow2 rep assms(2)] assms(3) ring_rep_head [OF rep]
  have "h = r_head r \<and> length q + k \<le> unat ring_cap" by (auto split: if_splits)
  with q show ?thesis by (intro link_invI [of d hist r q]) (simp_all add: ring_inv_def)
qed

lemma link_write:
  assumes inv: "link_inv hist d r rv out [] (Some (h, length msgs))"
    and msgs: "\<forall>m\<in>set msgs. wf_msg m \<and> fits m"
  obtains w r' where "write_batch_at ring_cap h msgs r = (True, w, r')"
    "link_inv hist d r' rv out (map wire msgs) (Some (h, length msgs))"
proof -
  from inv obtain q where q: "d \<le> length hist" "ring_inv r q [] (Some (h, length msgs))" "recv_ok r q rv"
    "drop d hist = recv_pending rv @ q @ out" by (rule link_invE)
  then have rep: "ring_rep ring_cap r q" and reg: "region_rep ring_cap r (r_tail r) q"
    and h: "h = r_head r" and room: "length q + length msgs \<le> unat ring_cap"
    by (simp_all add: ring_inv_def)
  have h0: "h + 0 = r_tail r + of_nat (length q)" using h ring_rep_head [OF rep] by simp
  from write_batch_loop_rep [OF kBandleRingCapacity_pow2 reg room h0 msgs]
  obtain w' r' where w: "write_batch_loop ring_cap h 0 msgs False r = (True, w', r')"
    and reg': "region_rep ring_cap r' (r_tail r) (q @ map wire msgs)"
    and pos: "r_head r' = r_head r" "r_tail r' = r_tail r" by blast
  have "region_rep ring_cap r' (r_tail r') q"
    using reg' region_rep_prefix by (auto simp: pos)
  then have "ring_inv r' q (map wire msgs) (Some (h, length msgs))"
    using q(2) reg' pos room h by (simp add: ring_inv_def ring_rep_def)
  moreover have "recv_ok r' q rv" using recv_ok_append [OF q(3) pos(2), of "[]"] by simp
  ultimately show ?thesis using q w by (intro that [of w' r'] link_invI) (simp_all add: write_batch_at_def)
qed

lemma link_publish:
  assumes inv: "link_inv hist d r rv ws ws (Some (h, length ws))"
  shows "link_inv hist d (publish_head (h + of_nat (length ws)) r) rv [] [] None"
proof -
  from inv obtain q where q: "d \<le> length hist" "ring_inv r q ws (Some (h, length ws))" "recv_ok r q rv"
    "drop d hist = recv_pending rv @ q @ ws" by (rule link_invE)
  let ?r = "publish_head (h + of_nat (length ws)) r"
  have "ring_rep ring_cap ?r (q @ ws)"
    using q(2) diff_plus_count [of "r_head r" "r_tail r" "length ws"] pow2_capacity_bound [OF kBandleRingCapacity_pow2]
    by (auto simp: ring_inv_def ring_rep_def publish_head_def region_rep_def slot_holds_def)
  then have "ring_inv ?r (q @ ws) [] None" by (simp add: ring_inv_def ring_rep_def)
  moreover have "recv_ok ?r (q @ ws) rv" using q(3) by (rule recv_ok_append) (simp add: publish_head_def)
  ultimately show ?thesis using q by (intro link_invI) simp_all
qed

lemma link_push:
  assumes inv: "link_inv hist d r rv [wire m] [] None" and m: "wf_msg m" "fits m"
    and push: "push ring_cap m r = (ok, r')"
  shows "link_inv hist d r' rv (if ok then [] else [wire m]) [] None"
proof -
  from inv obtain q where q: "d \<le> length hist" "ring_inv r q [] None" "recv_ok r q rv"
    "drop d hist = recv_pending rv @ q @ [wire m]" by (rule link_invE)
  then have rep: "ring_rep ring_cap r q" and len: "length q \<le> unat ring_cap" by (simp_all add: ring_inv_def)
  show ?thesis
  proof (cases "length q < unat ring_cap")
    case True
    from push_rep [OF kBandleRingCapacity_pow2 rep True m] push have ok: "ok" "ring_rep ring_cap r' (q @ [wire m])"
      by auto
    have "r_tail r' = r_tail r" using push by (auto simp: push_def Let_def nt_store_payload_padded_def split: if_splits)
    with ok q recv_ok_append [OF q(3), of r' "[wire m]"] show ?thesis
      by (intro link_invI [of _ _ _ "q @ [wire m]"]) (simp_all add: ring_inv_def ring_rep_def)
  next
    case False
    with len push_full [OF kBandleRingCapacity_pow2 rep] push inv show ?thesis by auto
  qed
qed

section \<open>Steps of the receiver\<close>

text \<open>The batch buffer holds messages and was resized to the count of the drain.\<close>

fun buffer_ok :: "recv_pc \<Rightarrow> BandleMessage list \<Rightarrow> bool" where
  "buffer_ok (Rv_First t count) buf \<longleftrightarrow> list_all wf_msg buf \<and> count \<le> length buf"
| "buffer_ok (Rv_More t count got) buf \<longleftrightarrow> list_all wf_msg buf \<and> count - length got \<le> length buf"
| "buffer_ok _ buf \<longleftrightarrow> True"

lemma ring_inv_commit:
  assumes "ring_inv r (ms @ q) staged need"
  shows "ring_inv (commit_tail (r_tail r + of_nat (length ms)) r) q staged need"
proof -
  let ?r = "commit_tail (r_tail r + of_nat (length ms)) r"
  have "ring_rep ring_cap ?r q" using assms commit_tail_rep by (simp add: ring_inv_def)
  moreover have "region_rep ring_cap r (r_tail r + of_nat (length ms)) (q @ staged)"
    using assms region_rep_drop [of ring_cap r "r_tail r" ms "q @ staged"] by (simp add: ring_inv_def)
  then have "region_rep ring_cap ?r (r_tail ?r) (q @ staged)"
    by (simp add: commit_tail_def region_rep_def slot_holds_def)
  ultimately show ?thesis using assms by (auto simp: ring_inv_def commit_tail_def split: option.splits)
qed

lemma read_batch_front:
  assumes "ring_inv r q staged need" "count \<le> length q" "list_all wf_msg out" "count \<le> length out"
  obtains out1 where "read_batch_at_abs ring_cap (r_tail r) out count r = (count, out1)"
    "map wire (take count out1) = take count q" "list_all wf_msg (take count out1)" "length (take count out1) = count"
proof -
  have "region_rep ring_cap r (r_tail r) (take count q @ drop count q)"
    using assms(1) by (simp add: ring_inv_def ring_rep_def)
  then have rep: "region_rep ring_cap r (r_tail r) (take count q)" by (rule region_rep_prefix)
  have len: "length (take count q) = count" using assms(2) by simp
  from read_batch_at_abs_rep [OF rep, unfolded len, OF assms(4)] assms(3)
  obtain out1 where o: "read_batch_at_abs ring_cap (r_tail r) out count r = (count, out1)"
    "map wire (take count out1) = take count q" "\<forall>m\<in>set out1. wf_msg m" "length out1 = length out"
    by (auto simp: list_all_iff)
  then show ?thesis using assms(4) by (intro that [of out1]) (auto simp: list_all_iff dest: in_set_takeD)
qed

text \<open>
  One step of a receiver: the program counter and the ring change together, and the messages handled in
  the step are the next ones the source has issued.
\<close>

definition recv_handles :: "recv_pc \<Rightarrow> BandleMessage list" where
  "recv_handles rv = (case rv of Rv_Handle msgs \<Rightarrow> take kHandleChunk msgs | _ \<Rightarrow> [])"

lemma link_recv_start:
  assumes inv: "link_inv hist d r Rv_Idle out staged need" and step: "recv_step hash buf Rv_Idle n r = (rv', n', r')"
  shows "link_inv hist d r' rv' out staged need \<and> n' = n"
proof -
  from inv obtain q where q: "d \<le> length hist" "ring_inv r q staged need" "drop d hist = q @ out"
    by (auto elim: link_invE)
  have len: "unat (r_head r - r_tail r) = length q" using q(2) by (simp add: ring_inv_def ring_rep_def)
  have pos: "0 < recv_batch_capacity b" for b by (simp add: recv_batch_capacity_def)
  show ?thesis
  proof (cases "r_head r - r_tail r = 0")
    case True
    with step inv show ?thesis by simp
  next
    case False
    then have "0 < length q" using len by (metis gr0I unat_eq_zero)
    with False step q len pos show ?thesis
      by (auto intro!: link_invI [of d hist _ q])
  qed
qed

lemma link_recv_first:
  assumes inv: "link_inv hist d r (Rv_First t count) out staged need"
    and buf: "list_all wf_msg buf" "count \<le> length buf"
    and step: "recv_step hash buf (Rv_First t count) n r = (rv', n', r')"
  shows "link_inv hist d r' rv' out staged need \<and> n' = n"
proof -
  from inv obtain q where q: "d \<le> length hist" "ring_inv r q staged need" "drop d hist = q @ out"
    "t = r_tail r" "0 < count" "count \<le> length q"
    by (auto elim: link_invE)
  from q(2,6) buf obtain out1 where "read_batch_at_abs ring_cap (r_tail r) buf count r = (count, out1)"
    "map wire (take count out1) = take count q" "list_all wf_msg (take count out1)" "length (take count out1) = count"
    by (rule read_batch_front)
  with q step show ?thesis by (auto simp: min_def intro!: link_invI [where q = q])
qed

lemma link_recv_more:
  assumes inv: "link_inv hist d r (Rv_More t count got) out staged need"
    and step: "recv_step hash buf (Rv_More t count got) n r = (rv', n', r')"
  shows "link_inv hist d r' rv' out staged need \<and> n' = n"
proof -
  from inv obtain q where q: "d \<le> length hist" "ring_inv r q staged need" "drop d hist = q @ out"
    and got: "t = r_tail r" "length got = count" "0 < count" "count \<le> length q" "map wire got = take count q"
      "list_all wf_msg got"
    by (auto elim: link_invE)
  have split: "q = map wire got @ drop count q" using got(5) by simp
  then have "ring_inv r (map wire got @ drop count q) staged need" using q(2) by simp
  from ring_inv_commit [OF this]
  have "ring_inv (commit_tail (t + of_nat (length got)) r) (drop count q) staged need"
    by (simp add: got(1))
  moreover have "drop d hist = map wire got @ drop count q @ out" using q(3) split by (metis append.assoc)
  moreover have "got \<noteq> []" using got(2,3) by auto
  ultimately show ?thesis using step q(1) got by (auto intro!: link_invI [of d hist _ "drop count q"])
qed

lemma link_recv_handle:
  assumes inv: "link_inv hist d r (Rv_Handle msgs) out staged need"
    and step: "recv_step hash buf (Rv_Handle msgs) n r = (rv', n', r')"
  shows "link_inv hist (d + length (take kHandleChunk msgs)) r' rv' out staged need \<and>
    d + length (take kHandleChunk msgs) \<le> length hist \<and>
    map wire (take kHandleChunk msgs) = take (length (take kHandleChunk msgs)) (drop d hist) \<and>
    list_all wf_msg (take kHandleChunk msgs) \<and> r' = r \<and>
    n' = (if msgs = [] then n else fst (handle_chunk hash (take kHandleChunk msgs) n))"
proof -
  from inv obtain q where q: "d \<le> length hist" "ring_inv r q staged need" "drop d hist = map wire msgs @ q @ out"
    "list_all wf_msg msgs" by (auto elim: link_invE)
  let ?k = "length (take kHandleChunk msgs)"
  have "length (drop d hist) = length msgs + length q + length out" using q(3) by simp
  then have le: "d + ?k \<le> length hist" using q(1) by simp
  have "drop (d + ?k) hist = drop ?k (drop d hist)" by (simp add: add.commute)
  also have "\<dots> = map wire (drop kHandleChunk msgs) @ q @ out"
    using q(3) by (simp add: drop_map min_def)
  finally have rest: "drop (d + ?k) hist = map wire (drop kHandleChunk msgs) @ q @ out" .
  have wf: "list_all wf_msg (take kHandleChunk msgs)" "list_all wf_msg (drop kHandleChunk msgs)"
    using q(4) by (auto simp: list_all_iff dest: in_set_takeD in_set_dropD)
  have taken: "map wire (take kHandleChunk msgs) = take ?k (drop d hist)"
    using q(3) by (simp add: take_map min_def)
  have "link_inv hist (d + ?k) r' rv' out staged need"
    using step q rest wf le by (cases "msgs = []") (auto intro!: link_invI [where q = q])
  with le taken wf step show ?thesis by (auto split: if_splits)
qed

end
