(* ===== verification/Bandle_Execution.thy ===== *)
theory Bandle_Execution
  imports Bandle_Node
begin

text \<open>
  In-order execution. The batched loop of \<open>advance_execute_locked\<close> is shown equal to a reference
  executor that takes one ready entry at a time, so that properties of execution are proved for single
  entries and lifted to the loop.
\<close>

section \<open>The reference executor\<close>

definition exec_one :: "(string \<Rightarrow> u64) \<Rightarrow> Bandle \<Rightarrow> bool \<Rightarrow> Bandle \<times> bool" where
  "exec_one hash n w =
     (let seq = n_execute_next n;
          n1 = n\<lparr>n_kv := fold apply_one (entry_ops hash n seq) (n_kv n)\<rparr>
      in case complete_entry (n_log n (log_slot seq)) n1 w of
           (n2, w2) \<Rightarrow> ((set_log (log_slot seq) (reset_log_entry 0) n2)
                          \<lparr>n_execute_next := n_execute_next n2 + 1\<rparr>, w2))"

primrec exec_iter :: "(string \<Rightarrow> u64) \<Rightarrow> nat \<Rightarrow> Bandle \<times> bool \<Rightarrow> Bandle \<times> bool" where
  "exec_iter hash 0 s = s"
| "exec_iter hash (Suc k) s = exec_iter hash k (exec_one hash (fst s) (snd s))"

lemma exec_iter_add: "exec_iter hash (j + k) s = exec_iter hash k (exec_iter hash j s)"
  by (induction j arbitrary: s) simp_all

section \<open>Completion touches neither the log nor the store\<close>

lemmas finish_defs = finish_request_def record_latency_def rdtsc_ordered_def Let_def

lemma finish_request_frame [simp]:
  "n_execute_next (fst (finish_request ps n w)) = n_execute_next n"
  "n_kv (fst (finish_request ps n w)) = n_kv n"
  "n_log (fst (finish_request ps n w)) = n_log n"
  "n_log_payloads (fst (finish_request ps n w)) = n_log_payloads n"
  "n_node_id (fst (finish_request ps n w)) = n_node_id n"
  "n_cluster_size (fst (finish_request ps n w)) = n_cluster_size n"
  "n_quorum (fst (finish_request ps n w)) = n_quorum n"
  "n_next_seq (fst (finish_request ps n w)) = n_next_seq n"
  "n_highest_proposed_seq (fst (finish_request ps n w)) = n_highest_proposed_seq n"
  "n_next_client_req_id (fst (finish_request ps n w)) = n_next_client_req_id n"
  "n_admission_window (fst (finish_request ps n w)) = n_admission_window n"
  "n_admission_batch (fst (finish_request ps n w)) = n_admission_batch n"
  "n_input_done (fst (finish_request ps n w)) = n_input_done n"
  "n_running (fst (finish_request ps n w)) = n_running n"
  "n_batch_size (fst (finish_request ps n w)) = n_batch_size n"
  by (simp_all add: finish_defs)

lemma finish_request_updates:
  "finish_request ps (n\<lparr>n_kv := K\<rparr>) w = map_prod (\<lambda>m. m\<lparr>n_kv := K\<rparr>) id (finish_request ps n w)"
  "finish_request ps (n\<lparr>n_execute_next := x\<rparr>) w
     = map_prod (\<lambda>m. m\<lparr>n_execute_next := x\<rparr>) id (finish_request ps n w)"
  by (cases "p_op (n_pending n ps) = CHR ''G''"; cases "0 < n_pending_count n"; simp add: finish_defs)+

lemma completes_request_updates [simp]:
  "completes_request e (n\<lparr>n_kv := K\<rparr>) = completes_request e n"
  "completes_request e (n\<lparr>n_execute_next := x\<rparr>) = completes_request e n"
  by (simp_all add: completes_request_def)

lemma complete_entry_frame [simp]:
  "n_execute_next (fst (complete_entry e n w)) = n_execute_next n"
  "n_kv (fst (complete_entry e n w)) = n_kv n"
  "n_log_payloads (fst (complete_entry e n w)) = n_log_payloads n"
  "n_node_id (fst (complete_entry e n w)) = n_node_id n"
  "n_cluster_size (fst (complete_entry e n w)) = n_cluster_size n"
  "n_quorum (fst (complete_entry e n w)) = n_quorum n"
  "n_next_seq (fst (complete_entry e n w)) = n_next_seq n"
  "n_highest_proposed_seq (fst (complete_entry e n w)) = n_highest_proposed_seq n"
  "n_next_client_req_id (fst (complete_entry e n w)) = n_next_client_req_id n"
  "n_admission_window (fst (complete_entry e n w)) = n_admission_window n"
  "n_admission_batch (fst (complete_entry e n w)) = n_admission_batch n"
  "n_input_done (fst (complete_entry e n w)) = n_input_done n"
  "n_running (fst (complete_entry e n w)) = n_running n"
  "n_batch_size (fst (complete_entry e n w)) = n_batch_size n"
  by (simp_all add: complete_entry_def)

lemma complete_entry_kv:
  "complete_entry e (n\<lparr>n_kv := K\<rparr>) w = map_prod (\<lambda>m. m\<lparr>n_kv := K\<rparr>) id (complete_entry e n w)"
  by (simp add: complete_entry_def finish_request_updates)

lemma complete_entry_next:
  "complete_entry e (n\<lparr>n_execute_next := x\<rparr>) w
     = map_prod (\<lambda>m. m\<lparr>n_execute_next := x\<rparr>) id (complete_entry e n w)"
  by (simp add: complete_entry_def finish_request_updates)

lemma exec_complete_next:
  "exec_complete base i r (n\<lparr>n_execute_next := x\<rparr>) w
     = map_prod (\<lambda>m. m\<lparr>n_execute_next := x\<rparr>) id (exec_complete base i r n w)"
proof (induction r arbitrary: i n w)
  case 0
  then show ?case by simp
next
  case (Suc r)
  have swap: "set_log s e (m\<lparr>n_execute_next := x\<rparr>) = (set_log s e m)\<lparr>n_execute_next := x\<rparr>" for s e m
    by (simp add: set_log_def)
  show ?case
    by (simp add: Let_def complete_entry_next Suc.IH swap split: prod.split)
qed

lemma exec_complete_kv:
  "exec_complete base i r (n\<lparr>n_kv := K\<rparr>) w
     = map_prod (\<lambda>m. m\<lparr>n_kv := K\<rparr>) id (exec_complete base i r n w)"
proof (induction r arbitrary: i n w)
  case 0
  then show ?case by simp
next
  case (Suc r)
  have swap: "set_log s e (m\<lparr>n_kv := K\<rparr>) = (set_log s e m)\<lparr>n_kv := K\<rparr>" for s e m
    by (simp add: set_log_def)
  show ?case
    by (simp add: Let_def complete_entry_kv Suc.IH swap split: prod.split)
qed

section \<open>Slots of the log\<close>

lemma kCompletionSlots_mask: "kCompletionSlots - 1 = 2 ^ 16 - 1"
  by (simp add: kCompletionSlots_def)

lemma log_slot_take_bit: "log_slot s = take_bit 16 s"
  unfolding log_slot_def kCompletionSlots_mask by (rule mask_pow2)

lemma log_slot_inj:
  "i < 65536 \<Longrightarrow> j < 65536 \<Longrightarrow> log_slot (base + of_nat i) = log_slot (base + of_nat j) \<Longrightarrow> i = j"
  using slot_window_inj [of 16 i j base] by (simp add: log_slot_take_bit)

lemma log_slot_bound: "log_slot s < kCompletionSlots"
  by (simp add: log_slot_take_bit kCompletionSlots_def word_less_nat_alt unat_take_bit_u64)

section \<open>Batches are sequences of single executions\<close>

text \<open>The fields of the configuration and of the proposing side, which execution leaves alone.\<close>

definition same_config :: "Bandle \<Rightarrow> Bandle \<Rightarrow> bool" where
  "same_config n n' \<longleftrightarrow>
     n_node_id n' = n_node_id n \<and> n_cluster_size n' = n_cluster_size n \<and> n_quorum n' = n_quorum n \<and>
     n_next_seq n' = n_next_seq n \<and> n_highest_proposed_seq n' = n_highest_proposed_seq n \<and>
     n_next_client_req_id n' = n_next_client_req_id n \<and> n_admission_window n' = n_admission_window n \<and>
     n_admission_batch n' = n_admission_batch n \<and> n_input_done n' = n_input_done n \<and>
     n_running n' = n_running n \<and> n_batch_size n' = n_batch_size n"

lemma same_config_refl [simp]: "same_config n n"
  by (simp add: same_config_def)

lemma same_config_trans: "same_config n n1 \<Longrightarrow> same_config n1 n2 \<Longrightarrow> same_config n n2"
  by (simp add: same_config_def)

lemma fst_exec_one:
  "fst (exec_one hash n w) =
     (set_log (log_slot (n_execute_next n)) (reset_log_entry 0)
        (fst (complete_entry (n_log n (log_slot (n_execute_next n)))
                (n\<lparr>n_kv := fold apply_one (entry_ops hash n (n_execute_next n)) (n_kv n)\<rparr>) w)))
      \<lparr>n_execute_next := n_execute_next n + 1\<rparr>"
  by (simp add: exec_one_def Let_def complete_entry_kv split_beta)

lemma exec_one_frame [simp]:
  "n_execute_next (fst (exec_one hash n w)) = n_execute_next n + 1"
  "n_log (fst (exec_one hash n w)) = (n_log n)(log_slot (n_execute_next n) := reset_log_entry 0)"
  "n_log_payloads (fst (exec_one hash n w)) = n_log_payloads n"
  "n_kv (fst (exec_one hash n w)) = fold apply_one (entry_ops hash n (n_execute_next n)) (n_kv n)"
  "same_config n (fst (exec_one hash n w))"
  by (simp_all add: fst_exec_one set_log_def same_config_def)

lemma snd_exec_one:
  "snd (exec_one hash n w) = snd (complete_entry (n_log n (log_slot (n_execute_next n))) n w)"
  by (simp add: exec_one_def Let_def complete_entry_kv split_beta)

lemma set_log_updates [simp]:
  "set_log s e (m\<lparr>n_execute_next := x\<rparr>) = (set_log s e m)\<lparr>n_execute_next := x\<rparr>"
  "set_log s e (m\<lparr>n_kv := K\<rparr>) = (set_log s e m)\<lparr>n_kv := K\<rparr>"
  "n_log (set_log s e m) = (n_log m)(s := e)"
  "n_log_payloads (set_log s e m) = n_log_payloads m"
  "n_kv (set_log s e m) = n_kv m"
  "n_execute_next (set_log s e m) = n_execute_next m"
  by (simp_all add: set_log_def)

lemma entry_ops_exec_one:
  assumes "n_execute_next n = base + of_nat i" "i \<noteq> j" "i < 65536" "j < 65536"
  shows "entry_ops hash (fst (exec_one hash n w)) (base + of_nat j) = entry_ops hash n (base + of_nat j)"
proof -
  have "log_slot (base + of_nat j) \<noteq> log_slot (base + of_nat i)"
    using log_slot_inj [of i j base] assms by metis
  then show ?thesis by (simp add: entry_ops_def assms(1) Let_def)
qed

lemma entry_ready_exec_one:
  assumes "n_execute_next n = base + of_nat i" "i \<noteq> j" "i < 65536" "j < 65536"
  shows "entry_ready (fst (exec_one hash n w)) (base + of_nat j) = entry_ready n (base + of_nat j)"
proof -
  have "log_slot (base + of_nat j) \<noteq> log_slot (base + of_nat i)"
    using log_slot_inj [of i j base] assms by metis
  then show ?thesis by (simp add: entry_ready_def assms(1))
qed

lemma exec_complete_next':
  "n_execute_next (fst (exec_complete base i r n w)) = n_execute_next n"
  by (induction r arbitrary: i n w) (simp_all add: Let_def split_beta)

lemma exec_iter_batch:
  "n_execute_next n = base + of_nat i \<Longrightarrow> i + c \<le> 65536 \<Longrightarrow>
   exec_iter hash c (n, w) =
     map_prod (\<lambda>m. m\<lparr>n_execute_next := base + of_nat (i + c)\<rparr>) id
       (exec_complete base i c
          (n\<lparr>n_kv := fold apply_one (concat (map (\<lambda>j. entry_ops hash n (base + of_nat j)) [i..<i + c]))
                     (n_kv n)\<rparr>) w)"
proof (induction c arbitrary: n i w)
  case 0
  then show ?case by (simp del: of_nat_add)
next
  case (Suc c)
  let ?s = "log_slot (base + of_nat i)"
  let ?n' = "fst (exec_one hash n w)" and ?w' = "snd (exec_one hash n w)"
  let ?ops = "concat (map (\<lambda>j. entry_ops hash n (base + of_nat j)) [Suc i..<Suc i + c])"
  define K where "K = fold apply_one ?ops (fold apply_one (entry_ops hash n (base + of_nat i)) (n_kv n))"
  obtain m v where c: "complete_entry (n_log n ?s) (n\<lparr>n_kv := K\<rparr>) w = (m, v)" by fastforce
  have ops: "concat (map (\<lambda>j. entry_ops hash ?n' (base + of_nat j)) [Suc i..<Suc i + c]) = ?ops"
    using Suc.prems by (intro arg_cong [of _ _ concat] map_cong refl entry_ops_exec_one) auto
  have nxt: "n_execute_next ?n' = base + of_nat (Suc i)" using Suc.prems by simp
  have bound: "Suc i + c \<le> 65536" using Suc.prems by simp
  have state: "?n'\<lparr>n_kv := K\<rparr> = (set_log ?s (reset_log_entry 0) m)\<lparr>n_execute_next := n_execute_next n + 1\<rparr>"
    using c by (auto simp: fst_exec_one Suc.prems(1) complete_entry_kv set_log_def map_prod_def split_beta)
  have K': "fold apply_one ?ops (n_kv ?n') = K" by (simp add: Suc.prems(1) K_def)
  have w': "?w' = v"
    using c by (auto simp: snd_exec_one complete_entry_kv Suc.prems(1) map_prod_def split_beta)
  have "exec_iter hash (Suc c) (n, w) = exec_iter hash c (?n', ?w')" by simp
  also have "\<dots> = map_prod (\<lambda>m. m\<lparr>n_execute_next := base + of_nat (Suc i + c)\<rparr>) id
      (exec_complete base (Suc i) c (?n'\<lparr>n_kv := K\<rparr>) v)"
    by (simp only: Suc.IH [OF nxt bound] ops K' w')
  also have "\<dots> = map_prod (\<lambda>m. m\<lparr>n_execute_next := base + of_nat (i + Suc c)\<rparr>) id
      (exec_complete base (Suc i) c (set_log ?s (reset_log_entry 0) m) v)"
    by (simp only: state exec_complete_next prod.map_comp) (simp add: map_prod_def split_beta comp_def)
  also have "exec_complete base (Suc i) c (set_log ?s (reset_log_entry 0) m) v
      = exec_complete base i (Suc c) (n\<lparr>n_kv := K\<rparr>) w"
    by (simp add: Let_def c)
  also have "K = fold apply_one (concat (map (\<lambda>j. entry_ops hash n (base + of_nat j)) [i..<i + Suc c])) (n_kv n)"
    by (simp add: K_def upt_conv_Cons del: upt_Suc)
  finally show ?case .
qed

lemma entry_ready_exec_iter:
  "n_execute_next n = base + of_nat i \<Longrightarrow> i + c \<le> j \<Longrightarrow> j < 65536 \<Longrightarrow>
   entry_ready (fst (exec_iter hash c (n, w))) (base + of_nat j) = entry_ready n (base + of_nat j)"
proof (induction c arbitrary: n i w)
  case 0
  then show ?case by simp
next
  case (Suc c)
  have nxt: "n_execute_next (fst (exec_one hash n w)) = base + of_nat (Suc i)" using Suc.prems by simp
  show ?case
    using Suc.IH [OF nxt, where w = "snd (exec_one hash n w)"] Suc.prems entry_ready_exec_one [OF Suc.prems(1), of j hash w]
    by simp
qed

lemma exec_iter_execute_next: "n_execute_next (fst (exec_iter hash k (n, w))) = n_execute_next n + of_nat k"
proof (induction k arbitrary: n w)
  case (Suc k)
  then show ?case
    using Suc [of "fst (exec_one hash n w)" "snd (exec_one hash n w)"] by (simp add: add.assoc [symmetric])
qed simp

text \<open>A run of the reference executor in which every step finds its entry ready.\<close>

definition ready_run :: "(string \<Rightarrow> u64) \<Rightarrow> nat \<Rightarrow> Bandle \<Rightarrow> bool \<Rightarrow> bool" where
  "ready_run hash k n w \<longleftrightarrow>
     (\<forall>j<k. let m = fst (exec_iter hash j (n, w)) in entry_ready m (n_execute_next m))"

lemma ready_run_0 [simp]: "ready_run hash 0 n w"
  by (simp add: ready_run_def)

lemma ready_run_add:
  "ready_run hash (i + k) n w \<longleftrightarrow>
     ready_run hash i n w \<and> (case exec_iter hash i (n, w) of (m, v) \<Rightarrow> ready_run hash k m v)"
proof -
  have "(\<forall>j<i + k. P j) \<longleftrightarrow> (\<forall>j<i. P j) \<and> (\<forall>j<k. P (i + j))" for P :: "nat \<Rightarrow> bool"
    by (metis add_less_cancel_left le_add_diff_inverse not_le trans_less_add1)
  then show ?thesis
    by (simp add: ready_run_def exec_iter_add Let_def split_beta)
qed

text \<open>One round of the outer loop is a run of the reference executor.\<close>

lemma advance_round:
  assumes scan: "exec_scan hash n (n_execute_next n) 0 kExecuteBatchMax [] = (c, ops)"
  shows "exec_iter hash c (n, w) =
      (case exec_complete (n_execute_next n) 0 c
              (if ops \<noteq> [] then n\<lparr>n_kv := apply_ops_in_order ops (n_kv n)\<rparr> else n) w of
         (n2, v) \<Rightarrow> (n2\<lparr>n_execute_next := n_execute_next n2 + of_nat c\<rparr>, v))"
    and "ready_run hash c n w"
    and "c = 0 \<Longrightarrow> \<not> entry_ready n (n_execute_next n)"
proof -
  let ?b = "n_execute_next n"
  note spec = exec_scan_spec [OF scan]
  have c: "0 + c \<le> 65536" "c \<le> 256" using spec by (auto simp: kExecuteBatchMax_def)
  have "(if ops \<noteq> [] then n\<lparr>n_kv := apply_ops_in_order ops (n_kv n)\<rparr> else n)
      = n\<lparr>n_kv := fold apply_one ops (n_kv n)\<rparr>"
    by (simp add: apply_ops_in_order_fold)
  then show "exec_iter hash c (n, w) = (case exec_complete ?b 0 c
              (if ops \<noteq> [] then n\<lparr>n_kv := apply_ops_in_order ops (n_kv n)\<rparr> else n) w of
         (n2, v) \<Rightarrow> (n2\<lparr>n_execute_next := n_execute_next n2 + of_nat c\<rparr>, v))"
    using exec_iter_batch [of n ?b 0 c hash w] c(1) spec
    by (simp add: map_prod_def split_beta exec_complete_next')
  show "ready_run hash c n w"
    unfolding ready_run_def Let_def
  proof (intro allI impI)
    fix j assume "j < c"
    then show "entry_ready (fst (exec_iter hash j (n, w))) (n_execute_next (fst (exec_iter hash j (n, w))))"
      using entry_ready_exec_iter [of n ?b 0 j j hash w] spec c by (simp add: exec_iter_execute_next)
  qed
  show "c = 0 \<Longrightarrow> \<not> entry_ready n ?b" using spec by (auto simp: kExecuteBatchMax_def)
qed

lemma advance_loop_run:
  "\<exists>k. advance_loop hash n w = exec_iter hash k (n, w) \<and> ready_run hash k n w \<and>
       (case advance_loop hash n w of (m, v) \<Rightarrow> \<not> entry_ready m (n_execute_next m))"
proof (induction hash n w rule: advance_loop.induct)
  case (1 hash n w)
  obtain c ops where scan: "exec_scan hash n (n_execute_next n) 0 kExecuteBatchMax [] = (c, ops)" by fastforce
  note round = advance_round [OF scan]
  show ?case
  proof (cases "c = 0")
    case True
    with scan round(3) have "advance_loop hash n w = (n, w) \<and> \<not> entry_ready n (n_execute_next n)"
      by (subst advance_loop.simps) simp
    then show ?thesis by (intro exI [of _ 0]) simp
  next
    case False
    let ?n1 = "if ops \<noteq> [] then n\<lparr>n_kv := apply_ops_in_order ops (n_kv n)\<rparr> else n"
    obtain n2 v where ec: "exec_complete (n_execute_next n) 0 c ?n1 w = (n2, v)" by fastforce
    define m where "m = n2\<lparr>n_execute_next := n_execute_next n2 + of_nat c\<rparr>"
    have it: "exec_iter hash c (n, w) = (m, v)" using round(1) [of w] ec by (simp add: m_def)
    from False have step: "advance_loop hash n w = advance_loop hash m v"
      by (subst advance_loop.simps) (simp only: scan Let_def prod.case ec m_def if_False)
    have "\<exists>k. advance_loop hash m v = exec_iter hash k (m, v) \<and> ready_run hash k m v \<and>
       (case advance_loop hash m v of (m', v') \<Rightarrow> \<not> entry_ready m' (n_execute_next m'))"
      unfolding m_def by (rule "1.IH" [OF scan [symmetric] False refl ec [symmetric]])
    then obtain k where k: "advance_loop hash m v = exec_iter hash k (m, v)" "ready_run hash k m v"
       "case advance_loop hash m v of (m', v') \<Rightarrow> \<not> entry_ready m' (n_execute_next m')" by (elim exE conjE)
    then show ?thesis
      by (intro exI [of _ "c + k"]) (simp add: step exec_iter_add it ready_run_add round(2))
  qed
qed

text \<open>Properties kept by single executions are kept by \<open>advance_execute_locked\<close>.\<close>

lemma exec_iter_induct:
  assumes "P n" "ready_run hash k n w"
    and "\<And>m v. P m \<Longrightarrow> entry_ready m (n_execute_next m) \<Longrightarrow> P (fst (exec_one hash m v))"
  shows "P (fst (exec_iter hash k (n, w)))"
  using assms(1,2)
proof (induction k arbitrary: n w)
  case (Suc k)
  from Suc.prems(2) have "ready_run hash (1 + k) n w" by simp
  then have "entry_ready n (n_execute_next n)" "ready_run hash k (fst (exec_one hash n w)) (snd (exec_one hash n w))"
    unfolding ready_run_add by (simp_all add: ready_run_def Let_def split_beta)
  with Suc.IH [of "fst (exec_one hash n w)" "snd (exec_one hash n w)"] Suc.prems(1) assms(3)
  show ?case by simp
qed simp

lemma advance_induct [consumes 1, case_names step]:
  assumes "P n" "\<And>m v. P m \<Longrightarrow> entry_ready m (n_execute_next m) \<Longrightarrow> P (fst (exec_one hash m v))"
  shows "P (fst (advance_execute_locked hash n))"
proof -
  obtain k where "advance_loop hash n False = exec_iter hash k (n, False)" "ready_run hash k n False"
    using advance_loop_run [of hash n False] by blast
  with exec_iter_induct [where P = P, OF assms(1) _ assms(2), of k False] show ?thesis
    by (simp add: advance_execute_locked_def)
qed

lemma advance_same_config [simp]: "same_config n (fst (advance_execute_locked hash n))"
  by (rule advance_induct) (auto intro: same_config_trans)

text \<open>Property C13: the batched execution loop is sequential execution. \<open>advance_execute_locked\<close>
  terminates having executed some number \<open>k\<close> of entries one at a time in sequence order, each of them
  decided (with its proposal known when the decision is 1) at the moment it was executed, and it stops
  only when the entry at the new \<open>execute_next_\<close> is not executable.\<close>

theorem advance_is_sequential:
  "\<exists>k. advance_execute_locked hash n = exec_iter hash k (n, False) \<and> ready_run hash k n False \<and>
       (let m = fst (advance_execute_locked hash n)
        in n_execute_next m = n_execute_next n + of_nat k \<and> \<not> entry_ready m (n_execute_next m))"
proof -
  obtain k where k: "advance_loop hash n False = exec_iter hash k (n, False)" "ready_run hash k n False"
    "case advance_loop hash n False of (m, v) \<Rightarrow> \<not> entry_ready m (n_execute_next m)"
    using advance_loop_run [of hash n False] by (elim exE conjE)
  then have "\<not> entry_ready (fst (exec_iter hash k (n, False))) (n_execute_next n + of_nat k)"
    by (simp add: split_beta exec_iter_execute_next)
  with k show ?thesis
    by (intro exI [of _ k]) (simp add: advance_execute_locked_def Let_def exec_iter_execute_next)
qed

end
