(* ===== verification/Replica_Log.thy ===== *)
theory Replica_Log
  imports Ring_Refinement Bandle_Execution Bandle_Threads
begin

text \<open>
  What a replica's log holds. Node \<open>p\<close> of three proposes the sequence numbers \<open>p\<close>, \<open>p + 3\<close>, \<open>p + 6\<close>, ...
  The invariant \<open>replica_inv\<close> relates a node's state to the messages that each proposer has issued and to
  how many of them the node has handled; delivery of the next messages of a proposer and in-order
  execution keep it.
\<close>

section \<open>Sequence numbers\<close>

definition seq_of :: "nat \<Rightarrow> nat \<Rightarrow> nat" where
  "seq_of p i = p + 3 * i"

definition proposer_of :: "nat \<Rightarrow> nat" where
  "proposer_of s = (s - 1) mod 3 + 1"

definition index_of :: "nat \<Rightarrow> nat" where
  "index_of s = (s - 1) div 3"

lemma seq_of_split: "1 \<le> s \<Longrightarrow> seq_of (proposer_of s) (index_of s) = s"
  by (simp add: seq_of_def proposer_of_def index_of_def)

lemma proposer_of_id [simp]: "proposer_of s \<in> set node_ids"
proof -
  have "(s - 1) mod 3 < 3" by simp
  then show ?thesis unfolding proposer_of_def node_ids_def by auto
qed

lemma split_seq_of:
  assumes "p \<in> set node_ids"
  shows "proposer_of (seq_of p i) = p" "index_of (seq_of p i) = i" "1 \<le> seq_of p i"
proof -
  from assms obtain k where k: "p = Suc k" "k < 3" by (auto simp: node_ids_def)
  then show "proposer_of (seq_of p i) = p" "index_of (seq_of p i) = i" "1 \<le> seq_of p i"
    by (simp_all add: seq_of_def proposer_of_def index_of_def)
qed

lemma seq_of_inj: "p \<in> set node_ids \<Longrightarrow> q \<in> set node_ids \<Longrightarrow> seq_of p i = seq_of q j \<longleftrightarrow> p = q \<and> i = j"
  by (metis split_seq_of(1,2))

section \<open>Log slots over a window\<close>

lemma log_slot_window:
  assumes "x \<le> s" "s < x + 65536" "x \<le> t" "t < x + 65536" "log_slot (of_nat s) = log_slot (of_nat t)"
  shows "s = t"
proof -
  obtain i j where ij: "s = x + i" "t = x + j" using assms(1,3) le_Suc_ex by metis
  with assms have "i = j" by (intro log_slot_inj [of i j "of_nat x"]) simp_all
  with ij show ?thesis by simp
qed

lemma log_slot_next_window: "log_slot (of_nat (x + 65536)) = log_slot (of_nat x)"
proof -
  have "take_bit 16 (of_nat (x + 65536) :: u64) = take_bit 16 (of_nat x)"
    by (intro word_unat_eq_iff [THEN iffD2]) (simp add: unat_take_bit_u64 unat_of_nat mod_mod_cancel del: of_nat_add)
  then show ?thesis by (simp add: log_slot_take_bit)
qed

section \<open>Messages and entries\<close>

text \<open>The store operations a proposal stands for.\<close>

definition msg_ops :: "(string \<Rightarrow> u64) \<Rightarrow> BandleMessage \<Rightarrow> ApplyOp list" where
  "msg_ops hash m =
     (let b = m_body m; key = take (unat (b_key_len b)) (b_data b)
      in if is_write_op (b_op b)
         then [\<lparr> op_op = b_op b, op_shard = shard_for hash key, op_key = key,
                 op_value = (if b_op b = CHR ''D'' then ''''
                             else take (unat (b_value_len b)) (drop (unat (b_key_len b)) (b_data b))) \<rparr>]
         else [])"

lemma unat_msg_bytes: "unat (msg_bytes m) = unat (b_key_len (m_body m)) + unat (b_value_len (m_body m))"
proof -
  have "unat (b_key_len (m_body m)) < 2 ^ 32" "unat (b_value_len (m_body m)) < 2 ^ 32"
    using unsigned_less [of "b_key_len (m_body m)"] unsigned_less [of "b_value_len (m_body m)"] by simp_all
  then show ?thesis
    by (simp add: msg_bytes_def payload_bytes_def unat_word_ariths unsigned_ucast_eq take_bit_eq_mod)
qed

lemma wire_fields [simp]:
  "m_type (wire m) = m_type m" "b_seq (m_body (wire m)) = b_seq (m_body m)"
  "b_proposer (m_body (wire m)) = b_proposer (m_body m)" "b_op (m_body (wire m)) = b_op (m_body m)"
  "b_client_req_id (m_body (wire m)) = b_client_req_id (m_body m)"
  "b_key_len (m_body (wire m)) = b_key_len (m_body m)" "b_value_len (m_body (wire m)) = b_value_len (m_body m)"
  "b_data (m_body (wire m)) = take (unat (msg_bytes m)) (b_data (m_body m))"
  "msg_bytes (wire m) = msg_bytes m" "fits (wire m) = fits m"
  by (simp_all add: wire_def msg_bytes_def fits_def)

lemma msg_ops_wire [simp]: "msg_ops hash (wire m) = msg_ops hash m"
  by (simp add: msg_ops_def Let_def unat_msg_bytes take_drop min_def)

lemma shard_for_routed: "unat (shard_for hash key) = get_shard_idx hash key"
proof -
  have "unat (hash key mod 256) = unat (hash key) mod 256" by (simp add: unat_mod)
  moreover from this have "unat (hash key mod 256) < 256" by simp
  ultimately show ?thesis
    by (simp add: shard_for_def get_shard_idx_def kNumShards_def unsigned_ucast_eq take_bit_eq_mod)
qed

lemma msg_ops_routed: "x \<in> set (msg_ops hash m) \<Longrightarrow> op_routed hash x"
  by (auto simp: msg_ops_def Let_def op_routed_def shard_for_routed split: if_splits)

text \<open>The entry that a delivered proposal leaves in the log.\<close>

definition entry_holds :: "(string \<Rightarrow> u64) \<Rightarrow> nat \<Rightarrow> BandleMessage \<Rightarrow> LogEntry \<Rightarrow> bytes \<Rightarrow> bool" where
  "entry_holds hash s w e payload \<longleftrightarrow>
     e_seq e = of_nat s \<and> e_proposal_known e \<and> e_decided e \<and> e_decision e = 1 \<and>
     e_op e = b_op (m_body w) \<and> e_proposer e = b_proposer (m_body w) \<and>
     e_client_req_id e = b_client_req_id (m_body w) \<and>
     (if is_write_op (e_op e) then [entry_apply_op hash e payload] else []) = msg_ops hash w"

lemma take_memcpy_at_0:
  "n \<le> length src \<Longrightarrow> n \<le> length dst \<Longrightarrow> k \<le> n \<Longrightarrow> take k (memcpy_at dst 0 src n) = take k src"
  by (simp add: memcpy_at_def min_def)

lemma drop_memcpy_at_0:
  "k + l \<le> n \<Longrightarrow> n \<le> length src \<Longrightarrow> n \<le> length dst \<Longrightarrow>
   take l (drop k (memcpy_at dst 0 src n)) = take l (drop k src)"
  using take_memcpy_at_0 [of n src dst "k + l"]
  by (metis add.commute take_drop)

lemma accept_proposal_holds:
  assumes e: "\<not> e_proposal_known e" and m: "wf_msg m" "fits m" and len: "length payload = kMaxValueBytes"
    and acc: "accept_proposal (m_body m) e payload = (e', payload')" and seq: "e_seq e = of_nat s"
  shows "entry_holds hash s (wire m) (e'\<lparr>e_decided := True, e_decision := 1\<rparr>) payload'"
    and "length payload' = kMaxValueBytes"
proof -
  let ?b = "m_body m"
  let ?n = "unat (msg_bytes m)"
  have n: "?n = unat (b_key_len ?b) + unat (b_value_len ?b)" by (rule unat_msg_bytes)
  have fit: "?n \<le> kMaxValueBytes" using m(2) by (rule fits_unat)
  have data: "length (b_data ?b) = kMaxValueBytes" using m(1) by (simp add: wf_msg_def)
  have bytes: "payload_bytes (b_key_len ?b) (b_value_len ?b) = msg_bytes m" by (simp add: msg_bytes_def)
  have copied: "take k (memcpy_at payload 0 (b_data ?b) ?n) = take k (b_data ?b)"
    "take l (drop k (memcpy_at payload 0 (b_data ?b) ?n)) = take l (drop k (b_data ?b))"
    if "k + l \<le> ?n" for k l
    using that fit data len by (auto intro: take_memcpy_at_0 drop_memcpy_at_0)
  note simps = accept_proposal_def entry_holds_def entry_apply_op_def msg_ops_def Let_def
  show "entry_holds hash s (wire m) (e'\<lparr>e_decided := True, e_decision := 1\<rparr>) payload'"
  proof (cases "b_op ?b = CHR ''G'' \<or> b_op ?b = CHR ''N''")
    case True
    with acc e seq show ?thesis by (auto simp: simps is_write_op_def)
  next
    case False
    have e': "e' = e\<lparr>e_proposal_known := True, e_op := b_op ?b, e_proposer := b_proposer ?b,
        e_client_req_id := b_client_req_id ?b, e_start_tsc := b_start_tsc ?b,
        e_key_len := b_key_len ?b, e_value_len := b_value_len ?b\<rparr>"
      "payload' = (if msg_bytes m \<noteq> 0 then memcpy_at payload 0 (b_data ?b) ?n else payload)"
      using acc e False m(2) by (auto simp: accept_proposal_def Let_def bytes fits_def split: if_splits)
    have key: "take (unat (b_key_len ?b)) payload' = take (unat (b_key_len ?b)) (b_data ?b)"
      and val: "take (unat (b_value_len ?b)) (drop (unat (b_key_len ?b)) payload')
        = take (unat (b_value_len ?b)) (drop (unat (b_key_len ?b)) (b_data ?b))"
      using copied [of "unat (b_key_len ?b)" "unat (b_value_len ?b)"] n
      by (auto simp: e'(2) unat_eq_0 [symmetric])
    then show ?thesis
      unfolding entry_holds_def msg_ops_wire
      by (simp add: e'(1) seq entry_apply_op_def msg_ops_def Let_def key val)
  qed
  show "length payload' = kMaxValueBytes"
    using acc e len fit data by (auto simp: accept_proposal_def Let_def bytes array_simps split: if_splits)
qed

section \<open>The replica invariant\<close>

type_synonym history = "nat \<Rightarrow> BandleMessage list"

definition issued :: "history \<Rightarrow> nat \<Rightarrow> BandleMessage" where
  "issued hist s = hist (proposer_of s) ! index_of s"

definition handled :: "(nat \<Rightarrow> nat) \<Rightarrow> nat \<Rightarrow> bool" where
  "handled d s \<longleftrightarrow> index_of s < d (proposer_of s)"

definition good_msg :: "nat \<Rightarrow> nat \<Rightarrow> BandleMessage \<Rightarrow> bool" where
  "good_msg p i w \<longleftrightarrow> m_type w = PROPOSAL \<and> fits w \<and> b_seq (m_body w) = of_nat (seq_of p i) \<and>
     b_proposer (m_body w) = of_nat p"

text \<open>The operations of the first \<open>k\<close> sequence numbers, and what they make of an initial map.\<close>

definition issued_ops :: "(string \<Rightarrow> u64) \<Rightarrow> history \<Rightarrow> nat \<Rightarrow> ApplyOp list" where
  "issued_ops hash hist k = concat (map (\<lambda>s. msg_ops hash (issued hist (Suc s))) [0..<k])"

definition exec_next :: "Bandle \<Rightarrow> nat" where
  "exec_next n = unat (n_execute_next n)"

definition log_inv :: "(string \<Rightarrow> u64) \<Rightarrow> history \<Rightarrow> (nat \<Rightarrow> nat) \<Rightarrow> Bandle \<Rightarrow> bool" where
  "log_inv hash hist d n \<longleftrightarrow>
     (\<forall>idx. length (n_log_payloads n idx) = kMaxValueBytes) \<and>
     (\<forall>s. exec_next n \<le> s \<longrightarrow> s < exec_next n + 65536 \<longrightarrow>
        (if handled d s
         then entry_holds hash s (issued hist s) (n_log n (log_slot (of_nat s))) (n_log_payloads n (log_slot (of_nat s)))
         else e_seq (n_log n (log_slot (of_nat s))) = 0))"

definition kv_inv :: "(string \<Rightarrow> u64) \<Rightarrow> (string \<rightharpoonup> string) \<Rightarrow> history \<Rightarrow> Bandle \<Rightarrow> bool" where
  "kv_inv hash K0 hist n \<longleftrightarrow> kv_wf hash (n_kv n) \<and>
     kv_lookup hash (n_kv n) = fold spec_one (issued_ops hash hist (exec_next n - 1)) K0"

definition short :: "history \<Rightarrow> bool" where
  "short hist \<longleftrightarrow> (\<forall>p\<in>set node_ids. length (hist p) < 2 ^ 60)"

definition replica_inv ::
  "(string \<Rightarrow> u64) \<Rightarrow> (string \<rightharpoonup> string) \<Rightarrow> history \<Rightarrow> (nat \<Rightarrow> nat) \<Rightarrow> Bandle \<Rightarrow> bool" where
  "replica_inv hash K0 hist d n \<longleftrightarrow>
     1 \<le> exec_next n \<and> (\<forall>p\<in>set node_ids. d p \<le> length (hist p)) \<and>
     (\<forall>s. 1 \<le> s \<longrightarrow> s < exec_next n \<longrightarrow> handled d s) \<and>
     (\<forall>s. exec_next n + 65536 \<le> s \<longrightarrow> \<not> handled d s) \<and>
     log_inv hash hist d n \<and> kv_inv hash K0 hist n"

text \<open>No sequence number of a short history comes near the end of the 64-bit range.\<close>

lemma handled_bound:
  assumes "short hist" "\<forall>p\<in>set node_ids. d p \<le> length (hist p)" "handled d s"
  shows "s < 2 ^ 62"
proof -
  have "index_of s < 2 ^ 60"
    using bspec [OF assms(2) proposer_of_id [of s]] assms(1,3) proposer_of_id [of s]
    unfolding short_def handled_def by (meson less_le_trans less_trans)
  moreover have "s \<le> 3 * index_of s + 3" by (simp add: index_of_def)
  ultimately show ?thesis by simp
qed

lemma replica_inv_next_bound:
  assumes "short hist" "replica_inv hash K0 hist d n"
  shows "exec_next n \<le> 2 ^ 62"
proof (rule ccontr)
  assume "\<not> exec_next n \<le> 2 ^ 62"
  then have "handled d (2 ^ 62)" using assms(2) by (simp add: replica_inv_def)
  with assms show False using handled_bound [of hist d "2 ^ 62"] by (simp add: replica_inv_def)
qed

section \<open>Execution keeps the invariant\<close>

lemma log_invD:
  assumes "log_inv hash hist d n" "exec_next n \<le> s" "s < exec_next n + 65536"
  shows "handled d s \<Longrightarrow> entry_holds hash s (issued hist s) (n_log n (log_slot (of_nat s)))
            (n_log_payloads n (log_slot (of_nat s)))"
    and "\<not> handled d s \<Longrightarrow> e_seq (n_log n (log_slot (of_nat s))) = 0"
  using assms by (auto simp: log_inv_def)

lemma execute_next_of_nat: "n_execute_next n = of_nat (exec_next n)"
  by (simp add: exec_next_def)

lemma unat_Suc_u64: "unat (x :: u64) \<le> 2 ^ 62 \<Longrightarrow> unat (x + 1) = Suc (unat x)"
  by (simp add: unat_word_ariths)

lemma ready_handled:
  assumes inv: "replica_inv hash K0 hist d n" and short: "short hist"
    and ready: "entry_ready n (n_execute_next n)"
  shows "handled d (exec_next n)"
proof (rule ccontr)
  assume "\<not> handled d (exec_next n)"
  then have "e_seq (n_log n (log_slot (n_execute_next n))) = 0"
    using inv log_invD(2) [of hash hist d n "exec_next n"] by (simp add: replica_inv_def execute_next_of_nat)
  with ready have "n_execute_next n = 0" by (simp add: entry_ready_def Let_def)
  with inv show False by (simp add: replica_inv_def exec_next_def)
qed

lemma exec_next_exec_one:
  assumes "replica_inv hash K0 hist d n" "short hist"
  shows "exec_next (fst (exec_one hash n w)) = Suc (exec_next n)"
  using replica_inv_next_bound [OF assms(2,1)] by (simp add: exec_next_def unat_Suc_u64)

lemma issued_ops_Suc: "issued_ops hash hist (Suc k) = issued_ops hash hist k @ msg_ops hash (issued hist (Suc k))"
  by (simp add: issued_ops_def)

lemma kv_inv_exec_one:
  assumes inv: "replica_inv hash K0 hist d n" and short: "short hist" and h: "handled d (exec_next n)"
  shows "kv_inv hash K0 hist (fst (exec_one hash n w))"
proof -
  let ?x = "exec_next n" and ?slot = "log_slot (n_execute_next n)"
  have "entry_holds hash ?x (issued hist ?x) (n_log n ?slot) (n_log_payloads n ?slot)"
    using inv h log_invD(1) [of hash hist d n ?x] by (simp add: replica_inv_def execute_next_of_nat)
  then have ops: "entry_ops hash n (n_execute_next n) = msg_ops hash (issued hist ?x)"
    by (auto simp: entry_holds_def entry_ops_def Let_def)
  obtain x' where x': "?x = Suc x'" using inv by (cases ?x) (auto simp: replica_inv_def)
  have routed: "\<forall>y\<in>set (msg_ops hash (issued hist ?x)). op_routed hash y"
    using msg_ops_routed by blast
  have "kv_wf hash (n_kv n)" "kv_lookup hash (n_kv n) = fold spec_one (issued_ops hash hist x') K0"
    using inv x' by (simp_all add: replica_inv_def kv_inv_def)
  with kv.inv_fold [OF this(1) routed] kv.obs_fold [OF this(1) routed] show ?thesis
    by (simp add: kv_inv_def exec_next_exec_one [OF inv short] ops x' issued_ops_Suc)
qed

lemma log_inv_exec_one:
  assumes inv: "replica_inv hash K0 hist d n" and short: "short hist"
  shows "log_inv hash hist d (fst (exec_one hash n w))"
proof -
  let ?x = "exec_next n"
  have log: "log_inv hash hist d n" using inv by (simp add: replica_inv_def)
  have other: "log_slot (of_nat s) \<noteq> log_slot (n_execute_next n)" if "?x < s" "s < ?x + 65536" for s
    using that log_slot_window [of ?x s ?x] by (auto simp: execute_next_of_nat)
  have last: "log_slot (of_nat (?x + 65536)) = log_slot (n_execute_next n)"
    by (simp only: log_slot_next_window execute_next_of_nat)
  have slots: "if handled d s
         then entry_holds hash s (issued hist s) (n_log (fst (exec_one hash n w)) (log_slot (of_nat s)))
                (n_log_payloads n (log_slot (of_nat s)))
         else e_seq (n_log (fst (exec_one hash n w)) (log_slot (of_nat s))) = 0"
    if s: "?x < s" "s \<le> ?x + 65536" for s
  proof (cases "s = ?x + 65536")
    case True
    moreover have "\<not> handled d (?x + 65536)" using inv by (simp add: replica_inv_def)
    ultimately show ?thesis using last by (simp add: reset_log_entry_def del: of_nat_add)
  next
    case False
    with s other [of s] log log_invD [OF log, of s] show ?thesis by simp
  qed
  show ?thesis
    unfolding log_inv_def exec_next_exec_one [OF inv short] exec_one_frame(3)
  proof (intro conjI allI impI)
    show "length (n_log_payloads n idx) = kMaxValueBytes" for idx using log by (simp add: log_inv_def)
  qed (rule slots; simp)
qed

lemma replica_inv_exec_one:
  assumes inv: "replica_inv hash K0 hist d n" and short: "short hist"
    and ready: "entry_ready n (n_execute_next n)"
  shows "replica_inv hash K0 hist d (fst (exec_one hash n w))"
proof -
  note h = ready_handled [OF assms]
  from inv h have "\<forall>s. 1 \<le> s \<longrightarrow> s < Suc (exec_next n) \<longrightarrow> handled d s"
    by (auto simp: replica_inv_def less_Suc_eq)
  then show ?thesis
    using inv log_inv_exec_one [OF inv short, of w] kv_inv_exec_one [OF inv short h, of w]
    by (simp add: replica_inv_def exec_next_exec_one [OF inv short])
qed

lemma replica_inv_advance:
  "replica_inv hash K0 hist d n \<Longrightarrow> short hist \<Longrightarrow> replica_inv hash K0 hist d (fst (advance_execute_locked hash n))"
  by (rule advance_induct) (auto intro: replica_inv_exec_one)

text \<open>Execution runs up to the first sequence number that was not handled.\<close>

lemma advance_reaches_gap:
  assumes "replica_inv hash K0 hist d n" "short hist"
  shows "\<not> handled d (exec_next (fst (advance_execute_locked hash n)))"
proof
  let ?m = "fst (advance_execute_locked hash n)"
  assume h: "handled d (exec_next ?m)"
  have inv: "replica_inv hash K0 hist d ?m" by (rule replica_inv_advance [OF assms])
  with h log_invD(1) [of hash hist d ?m "exec_next ?m"]
  have "entry_ready ?m (n_execute_next ?m)"
    by (simp add: replica_inv_def entry_holds_def entry_ready_def Let_def execute_next_of_nat)
  with advance_loop_run [of hash n False] show False
    by (auto simp: advance_execute_locked_def split_beta)
qed

section \<open>Delivery keeps the invariant\<close>

lemma handled_Suc:
  "p \<in> set node_ids \<Longrightarrow> 1 \<le> s \<Longrightarrow> handled (d(p := Suc (d p))) s \<longleftrightarrow> handled d s \<or> s = seq_of p (d p)"
  using seq_of_split [of s] split_seq_of [of p "d p"] by (auto simp: handled_def less_Suc_eq)

lemma handle_proposal_frame:
  fixes n m hash
  defines "n' \<equiv> fst (handle_proposal_locked hash m False n)"
  shows "same_config n n'" "n_execute_next n' = n_execute_next n" "n_kv n' = n_kv n"
    "n_pending n' = n_pending n" "n_pending_count n' = n_pending_count n"
    "snd (handle_proposal_locked hash m False n) = False"
  unfolding n'_def
  by (simp_all add: handle_proposal_locked_def Let_def set_log_def same_config_def split: prod.split)

lemma handle_proposal_fresh:
  assumes "e_seq (n_log n (log_slot (b_seq (m_body m)))) \<noteq> b_seq (m_body m)"
    and m: "wf_msg m" "fits m" "b_seq (m_body m) = of_nat s"
    and len: "length (n_log_payloads n (log_slot (of_nat s))) = kMaxValueBytes"
  obtains e payload where
    "n_log (fst (handle_proposal_locked hash m False n)) = (n_log n)(log_slot (of_nat s) := e)"
    "n_log_payloads (fst (handle_proposal_locked hash m False n)) = (n_log_payloads n)(log_slot (of_nat s) := payload)"
    "entry_holds hash s (wire m) e payload" "length payload = kMaxValueBytes"
proof -
  let ?slot = "log_slot (of_nat s)"
  have claim: "claim_entry (b_seq (m_body m)) n = reset_log_entry (of_nat s)"
    using assms(1) m(3) by (simp add: claim_entry_def Let_def)
  obtain e payload where acc:
      "accept_proposal (m_body m) (reset_log_entry (of_nat s)) (n_log_payloads n ?slot) = (e, payload)"
    by fastforce
  have "entry_holds hash s (wire m) (e\<lparr>e_decided := True, e_decision := 1\<rparr>) payload" "length payload = kMaxValueBytes"
    by (rule accept_proposal_holds [OF _ m(1,2) len acc]; simp add: reset_log_entry_def)+
  moreover have "n_log (fst (handle_proposal_locked hash m False n))
      = (n_log n)(?slot := e\<lparr>e_decided := True, e_decision := 1\<rparr>)"
    "n_log_payloads (fst (handle_proposal_locked hash m False n)) = (n_log_payloads n)(?slot := payload)"
    using acc claim m(3) by (simp_all add: handle_proposal_locked_def Let_def set_log_def)
  ultimately show ?thesis by (intro that)
qed

lemma replica_inv_proposal:
  assumes inv: "replica_inv hash K0 hist d n" and short: "short hist" and p: "p \<in> set node_ids"
    and nxt: "d p < length (hist p)" "wire m = hist p ! d p"
    and m: "good_msg p (d p) (wire m)" "wf_msg m"
    and win: "seq_of p (d p) < exec_next n + 65536"
  shows "replica_inv hash K0 hist (d(p := Suc (d p))) (fst (handle_proposal_locked hash m False n))"
proof -
  let ?s = "seq_of p (d p)" and ?d = "d(p := Suc (d p))" and ?x = "exec_next n"
  let ?n = "fst (handle_proposal_locked hash m False n)"
  have new: "\<not> handled d ?s" using split_seq_of [OF p] by (simp add: handled_def)
  then have ge: "?x \<le> ?s"
    using inv split_seq_of(3) [OF p, of "d p"] unfolding replica_inv_def by (meson not_le)
  have log: "log_inv hash hist d n" using inv by (simp add: replica_inv_def)
  have seq: "b_seq (m_body m) = of_nat ?s" "fits m" using m(1) by (simp_all add: good_msg_def)
  have le: "\<forall>q\<in>set node_ids. ?d q \<le> length (hist q)" using inv nxt(1) by (auto simp: replica_inv_def)
  have "handled ?d ?s" using handled_Suc [OF p split_seq_of(3) [OF p]] by simp
  then have "?s < 2 ^ 62" by (rule handled_bound [OF short le])
  then have "unat (of_nat ?s :: u64) = ?s" by (intro unat_of_nat_u64) simp
  then have "(of_nat ?s :: u64) \<noteq> 0" using split_seq_of(3) [OF p, of "d p"] by (metis unat_0 not_one_le_zero)
  then have fresh: "e_seq (n_log n (log_slot (b_seq (m_body m)))) \<noteq> b_seq (m_body m)"
    using log_invD(2) [OF log ge win new] by (simp add: seq)
  obtain e payload where n': "n_log ?n = (n_log n)(log_slot (of_nat ?s) := e)"
      "n_log_payloads ?n = (n_log_payloads n)(log_slot (of_nat ?s) := payload)"
    and holds: "entry_holds hash ?s (wire m) e payload" "length payload = kMaxValueBytes"
    using handle_proposal_fresh [OF fresh m(2) seq(2,1)] log by (auto simp: log_inv_def)
  have x': "exec_next ?n = ?x" by (simp add: exec_next_def handle_proposal_frame)
  have iss: "issued hist ?s = wire m" using split_seq_of [OF p] nxt(2) by (simp add: issued_def)
  have "log_inv hash hist ?d ?n"
    unfolding log_inv_def x'
  proof (intro conjI allI impI)
    show "length (n_log_payloads ?n idx) = kMaxValueBytes" for idx
      using log holds(2) by (simp add: log_inv_def n')
  next
    fix s assume s: "?x \<le> s" "s < ?x + 65536"
    have "1 \<le> s" using inv s(1) by (simp add: replica_inv_def)
    show "if handled ?d s then entry_holds hash s (issued hist s) (n_log ?n (log_slot (of_nat s)))
           (n_log_payloads ?n (log_slot (of_nat s))) else e_seq (n_log ?n (log_slot (of_nat s))) = 0"
    proof (cases "s = ?s")
      case True
      with holds(1) iss \<open>handled ?d ?s\<close> show ?thesis by (simp add: n')
    next
      case False
      then have "log_slot (of_nat s) \<noteq> log_slot (of_nat ?s)" using log_slot_window [OF s ge win] by blast
      with False log_invD [OF log s] handled_Suc [OF p \<open>1 \<le> s\<close>, of d] show ?thesis by (simp add: n')
    qed
  qed
  moreover have "kv_inv hash K0 hist ?n"
    using inv by (simp add: replica_inv_def kv_inv_def x' handle_proposal_frame)
  moreover have "handled ?d s" if "1 \<le> s" "s < ?x" for s
    using inv that handled_Suc [OF p that(1), of d] by (simp add: replica_inv_def)
  moreover have "\<not> handled ?d s" if "?x + 65536 \<le> s" for s
    using inv that win handled_Suc [OF p, of s d] by (auto simp: replica_inv_def)
  ultimately show ?thesis using inv le by (simp add: replica_inv_def x')
qed

lemma deliver_loop_frame:
  "same_config n (deliver_loop hash ms n)" "n_execute_next (deliver_loop hash ms n) = n_execute_next n"
  "n_kv (deliver_loop hash ms n) = n_kv n" "n_pending (deliver_loop hash ms n) = n_pending n"
  "n_pending_count (deliver_loop hash ms n) = n_pending_count n"
  by (induction ms arbitrary: n) (auto simp: handle_proposal_frame intro: same_config_trans [OF handle_proposal_frame(1)])

lemma replica_inv_deliver:
  assumes "short hist" "p \<in> set node_ids" "\<forall>i<length (hist p). good_msg p i (hist p ! i)"
  shows "replica_inv hash K0 hist d n \<Longrightarrow> d p + length ms \<le> length (hist p) \<Longrightarrow>
    map wire ms = take (length ms) (drop (d p) (hist p)) \<Longrightarrow> \<forall>m\<in>set ms. wf_msg m \<Longrightarrow>
    (\<And>i. i < length (hist p) \<Longrightarrow> seq_of p i < exec_next n + 65536) \<Longrightarrow>
    replica_inv hash K0 hist (d(p := d p + length ms)) (deliver_loop hash ms n)"
proof (induction ms arbitrary: d n)
  case (Cons m ms)
  let ?n = "fst (handle_proposal_locked hash m False n)"
  have d: "d p < length (hist p)" using Cons.prems(2) by simp
  then have drop: "drop (d p) (hist p) = hist p ! d p # drop (Suc (d p)) (hist p)"
    by (rule Cons_nth_drop_Suc [symmetric])
  then have m: "wire m = hist p ! d p" "map wire ms = take (length ms) (drop (Suc (d p)) (hist p))"
    using Cons.prems(3) by simp_all
  have "replica_inv hash K0 hist (d(p := Suc (d p))) ?n"
    using assms(3) d m(1) Cons.prems by (intro replica_inv_proposal [OF Cons.prems(1) assms(1,2)]) auto
  from Cons.IH [OF this] m(2) Cons.prems
  show ?case by (simp add: exec_next_def handle_proposal_frame fun_upd_def cong: if_cong)
qed simp

text \<open>A chunk of proposals is delivered and then executed.\<close>

lemma handle_chunk_loop_proposals:
  "\<forall>m\<in>set ms. m_type m = PROPOSAL \<Longrightarrow>
   handle_chunk_loop hash ms need notified n = (need \<or> ms \<noteq> [], notified, deliver_loop hash ms n)"
  by (induction ms arbitrary: need n) (auto simp: handle_proposal_frame split_beta)

lemma handle_chunk_proposals:
  "\<forall>m\<in>set ms. m_type m = PROPOSAL \<Longrightarrow> ms \<noteq> [] \<Longrightarrow>
   fst (handle_chunk hash ms n) = fst (advance_execute_locked hash (deliver_loop hash ms n))"
  by (simp add: handle_chunk_def handle_chunk_loop_proposals split_beta)

lemma handle_proposal_advance:
  "handle_proposal_locked hash m True n = advance_execute_locked hash (deliver_loop hash [m] n)"
  by (simp add: handle_proposal_locked_def Let_def split_beta)

lemma replica_inv_deliver_advance:
  assumes "short hist" "p \<in> set node_ids" "\<forall>i<length (hist p). good_msg p i (hist p ! i)"
    and "replica_inv hash K0 hist d n" "d p + length ms \<le> length (hist p)"
    and "map wire ms = take (length ms) (drop (d p) (hist p))" "\<forall>m\<in>set ms. wf_msg m"
    and "\<And>i. i < length (hist p) \<Longrightarrow> seq_of p i < exec_next n + 65536"
  shows "replica_inv hash K0 hist (d(p := d p + length ms))
           (fst (advance_execute_locked hash (deliver_loop hash ms n)))"
  using replica_inv_advance [OF replica_inv_deliver [OF assms] assms(1)] .

text \<open>Issuing more messages does not disturb a replica.\<close>

lemma issued_append:
  "p \<in> set node_ids \<Longrightarrow> \<forall>q\<in>set node_ids. d q \<le> length (hist q) \<Longrightarrow> handled d s \<Longrightarrow>
   issued (hist(p := hist p @ ws)) s = issued hist s"
  using proposer_of_id [of s] by (fastforce simp: issued_def handled_def nth_append)

lemma replica_inv_issue:
  assumes "p \<in> set node_ids" "replica_inv hash K0 hist d n"
  shows "replica_inv hash K0 (hist(p := hist p @ ws)) d n"
proof -
  have le: "\<forall>q\<in>set node_ids. d q \<le> length (hist q)" using assms(2) by (simp add: replica_inv_def)
  note same = issued_append [OF assms(1) le]
  have "issued_ops hash (hist(p := hist p @ ws)) (exec_next n - 1) = issued_ops hash hist (exec_next n - 1)"
    using assms(2) unfolding issued_ops_def
    by (intro arg_cong [of _ _ concat] map_cong) (auto simp: replica_inv_def intro!: arg_cong [of _ _ "msg_ops hash"] same)
  moreover have "log_inv hash (hist(p := hist p @ ws)) d n"
    using assms(2) same by (simp add: replica_inv_def log_inv_def)
  ultimately show ?thesis using assms(2) le by (auto simp: replica_inv_def kv_inv_def)
qed

lemma advance_exec_next_mono:
  assumes "replica_inv hash K0 hist d n" "short hist"
  shows "exec_next n \<le> exec_next (fst (advance_execute_locked hash n))"
proof -
  have "replica_inv hash K0 hist d (fst (advance_execute_locked hash n)) \<and>
      exec_next n \<le> exec_next (fst (advance_execute_locked hash n))"
    using assms by (intro advance_induct [where P = "\<lambda>m. replica_inv hash K0 hist d m \<and> exec_next n \<le> exec_next m"])
      (auto simp: exec_next_exec_one intro: replica_inv_exec_one)
  then show ?thesis ..
qed

end
