(* ===== verification/Bandle_Requests.thy ===== *)
theory Bandle_Requests
  imports Replica_Log
begin

text \<open>
  The request path of a node: proposals built from client requests, assignment of sequence numbers and
  request ids, and the admission window.
\<close>

section \<open>Building proposals\<close>

text \<open>A request whose pointers cover the lengths it gives; the buffers the caller lends.\<close>

definition req_ok :: "BorrowedRequest \<Rightarrow> bool" where
  "req_ok req \<longleftrightarrow>
     (case q_key_ptr req of None \<Rightarrow> True | Some k \<Rightarrow> unat (q_key_len req) \<le> length k) \<and>
     (case q_value_ptr req of None \<Rightarrow> True | Some v \<Rightarrow> unat (q_value_len req) \<le> length v)"

definition valid_op :: "BorrowedRequest \<Rightarrow> bool" where
  "valid_op req \<longleftrightarrow> q_op req = CHR ''G'' \<or> is_write_op (q_op req)"

definition prop_ok :: "nat \<Rightarrow> BandleMessage \<Rightarrow> bool" where
  "prop_ok p m \<longleftrightarrow> m_type m = PROPOSAL \<and> wf_msg m \<and> fits m \<and> b_proposer (m_body m) = of_nat p"

text \<open>The lengths a proposal carries: the key is cut at the payload limit, the value at what is left.\<close>

definition kept_key :: "BorrowedRequest \<Rightarrow> nat" where
  "kept_key req = min (unat (q_key_len req)) kMaxValueBytes"

definition kept_value :: "BorrowedRequest \<Rightarrow> nat" where
  "kept_value req = min (unat (q_value_len req)) (kMaxValueBytes - kept_key req)"

lemma unat_min: "unat (min x y) = min (unat x) (unat y)"
  by (simp add: min_def word_le_nat_alt)

lemma kept_lengths:
  "unat (min (q_key_len req) (of_nat kMaxValueBytes)) = kept_key req"
  "unat (min (q_value_len req) (of_nat kMaxValueBytes - min (q_key_len req) (of_nat kMaxValueBytes))) = kept_value req"
proof -
  show kl: "unat (min (q_key_len req) (of_nat kMaxValueBytes)) = kept_key req"
    by (simp add: unat_min kept_key_def kMaxValueBytes_def)
  have "min (q_key_len req) (of_nat kMaxValueBytes) \<le> of_nat kMaxValueBytes" by simp
  then have "unat (of_nat kMaxValueBytes - min (q_key_len req) (of_nat kMaxValueBytes)) = kMaxValueBytes - kept_key req"
    by (simp add: unat_sub kl) (simp add: kMaxValueBytes_def)
  then show "unat (min (q_value_len req) (of_nat kMaxValueBytes - min (q_key_len req) (of_nat kMaxValueBytes)))
      = kept_value req"
    by (simp add: unat_min kept_value_def)
qed

lemma kept_bound: "kept_key req + kept_value req \<le> kMaxValueBytes"
  by (simp add: kept_value_def kept_key_def)

lemma unat_eq_0_iff: "(x = 0) = (unat x = 0)"
  by (simp add: unat_eq_zero)

lemma make_proposal_body:
  assumes "q_op req \<noteq> CHR ''G''"
  shows "unat (b_key_len (m_body (make_proposal nid req scratch))) = kept_key req"
    and "unat (b_value_len (m_body (make_proposal nid req scratch))) = kept_value req"
    and "b_data (m_body (make_proposal nid req scratch)) =
      (let d1 = (case q_key_ptr req of None \<Rightarrow> scratch | Some k \<Rightarrow> memcpy_at scratch 0 k (kept_key req))
       in case q_value_ptr req of None \<Rightarrow> d1 | Some v \<Rightarrow> memcpy_at d1 (kept_key req) v (kept_value req))"
  using assms
  by (auto simp: make_proposal_def Let_def kept_lengths unat_eq_0_iff memcpy_at_def split: option.splits)

lemma length_case_memcpy:
  "length d = kMaxValueBytes \<Longrightarrow> off + n \<le> kMaxValueBytes \<Longrightarrow>
   (case ptr of None \<Rightarrow> True | Some v \<Rightarrow> n \<le> length v) \<Longrightarrow>
   length (case ptr of None \<Rightarrow> d | Some v \<Rightarrow> memcpy_at d off v n) = kMaxValueBytes"
  by (auto simp: length_memcpy_at split: option.splits)

lemma make_proposal_ok:
  assumes "req_ok req" "length scratch = kMaxValueBytes"
  shows "prop_ok p (make_proposal (of_nat p) req scratch)"
proof (cases "q_op req = CHR ''G''")
  case True
  with assms show ?thesis
    by (simp add: prop_ok_def make_proposal_def wf_msg_def fits_def msg_bytes_def payload_bytes_def Let_def)
next
  case False
  let ?m = "make_proposal (of_nat p) req scratch"
  have "length (b_data (m_body ?m)) = kMaxValueBytes"
    unfolding make_proposal_body(3) [OF False] Let_def using assms kept_bound [of req]
    by (intro length_case_memcpy) (auto simp: req_ok_def kept_key_def kept_value_def split: option.splits)
  moreover have "unat (msg_bytes ?m) \<le> kMaxValueBytes"
    using kept_bound [of req] by (simp add: unat_msg_bytes make_proposal_body [OF False])
  ultimately show ?thesis
    by (simp add: prop_ok_def wf_msg_def fits_def word_le_nat_alt)
      (simp add: kMaxValueBytes_def make_proposal_def Let_def)
qed

lemma build_proposals_spec:
  "build_proposals scratch reqs i n =
     (map2 (make_proposal (n_node_id n)) (filter valid_op reqs)
        (map scratch [i..<i + length (filter valid_op reqs)]),
      n\<lparr>n_error_ops := n_error_ops n + of_nat (length (filter (Not \<circ> valid_op) reqs)),
        n_total_ops := n_total_ops n + of_nat (length (filter (Not \<circ> valid_op) reqs))\<rparr>)"
  by (induction reqs arbitrary: i n) (auto simp: valid_op_def upt_conv_Cons simp del: upt_Suc)

lemma build_proposals_ok:
  assumes "n_node_id n = of_nat p" "\<forall>req\<in>set reqs. req_ok req" "\<forall>j. length (scratch j) = kMaxValueBytes"
  shows "list_all (prop_ok p) (fst (build_proposals scratch reqs i n))"
proof -
  have "prop_ok p m" if "m \<in> set (fst (build_proposals scratch reqs i n))" for m
  proof -
    from that obtain req sc where "m = make_proposal (n_node_id n) req sc" "req \<in> set reqs" "sc \<in> range scratch"
      unfolding build_proposals_spec by (auto elim!: in_set_zipE)
    with assms make_proposal_ok [of req sc p] show ?thesis by auto
  qed
  then show ?thesis by (simp add: list_all_iff)
qed

text \<open>Property C26: building proposals. \<open>submit_borrowed_batch\<close> turns the valid requests, in order, into
  proposals that all fit the payload limit and are stamped with this node as proposer, whatever the
  scratch buffers held; every other request is counted as an error and as done, and nothing else of the
  node changes.\<close>

theorem submit_builds_valid_proposals:
  assumes "n_node_id n = of_nat p" "\<forall>req\<in>set reqs. req_ok req" "\<forall>j. length (scratch j) = kMaxValueBytes"
  shows "\<exists>msgs bad. build_proposals scratch reqs 0 n =
      (msgs, n\<lparr>n_error_ops := n_error_ops n + of_nat bad, n_total_ops := n_total_ops n + of_nat bad\<rparr>) \<and>
    map (b_op \<circ> m_body) msgs = map q_op (filter valid_op reqs) \<and> length msgs + bad = length reqs \<and>
    list_all (prop_ok p) msgs"
proof -
  let ?ok = "filter valid_op reqs"
  let ?msgs = "map2 (make_proposal (n_node_id n)) ?ok (map scratch [0..<0 + length ?ok])"
  have "list_all (prop_ok p) ?msgs"
    using build_proposals_ok [OF assms, of 0] by (simp add: build_proposals_spec)
  moreover have op: "b_op (m_body (make_proposal nid req s)) = q_op req" for nid req s
    by (simp add: make_proposal_def Let_def split: option.split)
  have "map (b_op \<circ> m_body) ?msgs = map q_op ?ok"
    by (intro nth_equalityI) (simp_all add: op)
  moreover have "length (filter valid_op reqs) + length (filter (Not \<circ> valid_op) reqs) = length reqs"
    by (induction reqs) auto
  ultimately show ?thesis
    by (intro exI [of _ ?msgs] exI [of _ "length (filter (Not \<circ> valid_op) reqs)"])
      (simp add: build_proposals_spec)
qed

definition sample_node :: Bandle where
  "sample_node = the (bandle_new 2 3 0 100 64 1 192 32 of_nat)"

lemma sample_node_fields:
  "n_node_id sample_node = of_nat 2" "n_cluster_size sample_node = 3" "n_next_seq sample_node = 2"
  "n_execute_next sample_node = 1" "n_admission_window sample_node = 192"
  by (simp_all add: sample_node_def bandle_new_def)

definition sample_batch :: "BorrowedRequest list" where
  "sample_batch = [\<lparr> q_op = CHR ''P'', q_key_ptr = Some ''k'', q_key_len = 1, q_value_ptr = None, q_value_len = 0 \<rparr>,
     \<lparr> q_op = CHR ''X'', q_key_ptr = None, q_key_len = 0, q_value_ptr = None, q_value_len = 0 \<rparr>]"

theorem submit_builds_valid_proposals_witness:
  "\<exists>msgs bad. build_proposals (\<lambda>_. replicate kMaxValueBytes CHR ''x'') sample_batch 0 sample_node =
      (msgs, sample_node\<lparr>n_error_ops := n_error_ops sample_node + of_nat bad,
        n_total_ops := n_total_ops sample_node + of_nat bad\<rparr>) \<and>
    map (b_op \<circ> m_body) msgs = ''P'' \<and> bad = 1 \<and> list_all (prop_ok 2) msgs"
proof -
  let ?sc = "\<lambda>_ :: nat. replicate kMaxValueBytes CHR ''x''"
  have "\<forall>req\<in>set sample_batch. req_ok req" "\<forall>j. length (?sc j) = kMaxValueBytes"
    by (simp_all add: req_ok_def sample_batch_def)
  from submit_builds_valid_proposals [OF sample_node_fields(1) this] obtain msgs bad where
    b: "build_proposals ?sc sample_batch 0 sample_node = (msgs, sample_node\<lparr>n_error_ops := n_error_ops sample_node + of_nat bad,
        n_total_ops := n_total_ops sample_node + of_nat bad\<rparr>)"
      "map (b_op \<circ> m_body) msgs = map q_op (filter valid_op sample_batch)" "length msgs + bad = length sample_batch"
      "list_all (prop_ok 2) msgs" by blast
  have ops: "map (b_op \<circ> m_body) msgs = ''P''" using b(2) by (simp add: valid_op_def is_write_op_def sample_batch_def)
  then have "length msgs = length ''P''" by (metis length_map)
  then have one: "bad = 1" using b(3) by (simp add: sample_batch_def)
  show ?thesis by (intro exI [of _ msgs] exI [of _ bad] conjI b(1,4) ops one)
qed

text \<open>Property C27: what a write proposal carries. The store operation of a proposal is the client's
  operation with the key cut at 1088 bytes and the value cut at what then remains; requests within the
  limit are carried unchanged.\<close>

theorem proposal_carries_request:
  assumes "is_write_op (q_op req)" "q_key_ptr req = Some k" "q_value_ptr req = Some v" "req_ok req"
    and "length scratch = kMaxValueBytes"
  shows "msg_ops hash (make_proposal nid req scratch) =
    [\<lparr> op_op = q_op req, op_shard = shard_for hash (take (kept_key req) k), op_key = take (kept_key req) k,
       op_value = (if q_op req = CHR ''D'' then '''' else take (kept_value req) v) \<rparr>]"
proof -
  let ?m = "make_proposal nid req scratch"
  have op: "b_op (m_body ?m) = q_op req" "q_op req \<noteq> CHR ''G''"
    using assms(1) by (auto simp: make_proposal_def Let_def is_write_op_def)
  have le: "kept_key req \<le> length k" "kept_value req \<le> length v"
    using assms(2-4) by (auto simp: req_ok_def kept_key_def kept_value_def)
  have data: "b_data (m_body ?m) = take (kept_key req) k @ take (kept_value req) v
      @ drop (kept_key req + kept_value req) scratch"
    using le assms(5) kept_bound [of req]
    by (simp add: make_proposal_body(3) [OF op(2)] assms(2,3) memcpy_at_def min_def)
  from le assms(1) show ?thesis
    by (simp add: msg_ops_def Let_def op make_proposal_body(1,2) [OF op(2)] data)
qed

definition sample_request :: BorrowedRequest where
  "sample_request = \<lparr> q_op = CHR ''P'', q_key_ptr = Some ''k1'', q_key_len = 2,
     q_value_ptr = Some ''v1'', q_value_len = 2 \<rparr>"

lemma sample_request_ok: "req_ok sample_request"
  by (simp add: req_ok_def sample_request_def)

theorem proposal_carries_request_witness:
  "msg_ops (\<lambda>_. 0) (make_proposal 1 sample_request (replicate kMaxValueBytes CHR ''x'')) =
    [\<lparr> op_op = CHR ''P'', op_shard = shard_for (\<lambda>_. 0) ''k1'', op_key = ''k1'', op_value = ''v1'' \<rparr>]"
proof -
  have kept: "kept_key sample_request = 2" "kept_value sample_request = 2"
    by (simp_all add: kept_key_def kept_value_def sample_request_def kMaxValueBytes_def)
  have "is_write_op (q_op sample_request)" "q_key_ptr sample_request = Some ''k1''" "q_value_ptr sample_request = Some ''v1''"
    by (simp_all add: sample_request_def is_write_op_def)
  from proposal_carries_request [OF this sample_request_ok, of "replicate kMaxValueBytes CHR ''x''" "\<lambda>_. 0" 1] kept
  show ?thesis by (simp add: sample_request_def)
qed

section \<open>Assigning sequence numbers\<close>

text \<open>What the assignment loop makes of the \<open>i\<close>-th proposal of a chunk.\<close>

definition assigned :: "Bandle \<Rightarrow> nat \<Rightarrow> BandleMessage \<Rightarrow> BandleMessage" where
  "assigned n i m = m\<lparr>m_body := (m_body m)
     \<lparr>b_seq := n_next_seq n + of_nat i * n_cluster_size n, b_start_tsc := n_tsc n i,
      b_client_req_id := push_bit 56 (n_node_id n) OR (n_next_client_req_id n + of_nat i)\<rparr>\<rparr>"

lemma assign_one_fields:
  assumes "assign_one m n = (m1, n1)"
  shows "m1 = assigned n 0 m" "n_next_seq n1 = n_next_seq n + n_cluster_size n"
    "n_next_client_req_id n1 = n_next_client_req_id n + 1" "n_pending_count n1 = n_pending_count n + 1"
    "n_highest_proposed_seq n1 = max (n_highest_proposed_seq n) (n_next_seq n)"
    "n_tsc n1 = (\<lambda>i. n_tsc n (Suc i))"
    "n_pending n1 = (n_pending n)(n_next_client_req_id n AND (kCompletionSlots - 1) :=
       \<lparr> p_id = b_client_req_id (m_body m1), p_op = b_op (m_body m), p_start_tsc = n_tsc n 0, p_done = False \<rparr>)"
  using assms by (auto simp: assign_one_def rdtsc_ordered_def Let_def assigned_def)

text \<open>The parts of a node that assignment leaves alone.\<close>

definition same_log :: "Bandle \<Rightarrow> Bandle \<Rightarrow> bool" where
  "same_log n n' \<longleftrightarrow>
     n_node_id n' = n_node_id n \<and> n_cluster_size n' = n_cluster_size n \<and> n_quorum n' = n_quorum n \<and>
     n_admission_window n' = n_admission_window n \<and> n_admission_batch n' = n_admission_batch n \<and>
     n_batch_size n' = n_batch_size n \<and> n_running n' = n_running n \<and> n_input_done n' = n_input_done n \<and>
     n_log n' = n_log n \<and> n_log_payloads n' = n_log_payloads n \<and> n_execute_next n' = n_execute_next n \<and>
     n_kv n' = n_kv n"

lemma same_log_refl [simp]: "same_log n n"
  by (simp add: same_log_def)

lemma same_log_trans: "same_log n n1 \<Longrightarrow> same_log n1 n2 \<Longrightarrow> same_log n n2"
  by (simp add: same_log_def)

lemma assign_one_same_log: "assign_one m n = (m1, n1) \<Longrightarrow> same_log n n1"
  by (auto simp: assign_one_def rdtsc_ordered_def Let_def same_log_def)

lemma assign_chunk_spec:
  "assign_chunk ms n = (ms', n') \<Longrightarrow>
   ms' = map (\<lambda>i. assigned n i (ms ! i)) [0..<length ms] \<and> same_log n n' \<and>
   n_next_seq n' = n_next_seq n + of_nat (length ms) * n_cluster_size n \<and>
   n_next_client_req_id n' = n_next_client_req_id n + of_nat (length ms) \<and>
   n_pending_count n' = n_pending_count n + of_nat (length ms)"
proof (induction ms arbitrary: n ms')
  case (Cons m ms)
  obtain m1 n1 where one: "assign_one m n = (m1, n1)" by fastforce
  obtain ms1 where rest: "assign_chunk ms n1 = (ms1, n')" "ms' = m1 # ms1"
    using Cons.prems one by (auto split: prod.splits)
  note f = assign_one_fields [OF one] and log = assign_one_same_log [OF one]
  note IH = Cons.IH [OF rest(1)]
  have cs: "n_cluster_size n1 = n_cluster_size n" "n_node_id n1 = n_node_id n"
    using log by (simp_all add: same_log_def)
  have shift: "assigned n1 i x = assigned n (Suc i) x" for i x
    by (simp add: assigned_def f cs algebra_simps)
  have "map (\<lambda>i. assigned n i ((m # ms) ! i)) [0..<length (m # ms)]
      = m1 # map (\<lambda>i. assigned n1 i (ms ! i)) [0..<length ms]"
    by (simp add: upt_conv_Cons map_Suc_upt [symmetric] f(1) shift del: upt_Suc)
  then show ?case
    using IH rest(2) same_log_trans [OF log] by (simp add: f cs algebra_simps)
qed simp

lemma assign_chunk_highest:
  assumes "unat (n_next_seq n) + length ms * unat (n_cluster_size n) < 2 ^ 64"
    and "n_highest_proposed_seq n \<le> n_next_seq n" "assign_chunk ms n = (ms', n')" "ms \<noteq> []"
  shows "unat (n_highest_proposed_seq n') = unat (n_next_seq n) + (length ms - 1) * unat (n_cluster_size n)"
  using assms
proof (induction ms arbitrary: n ms')
  case (Cons m ms)
  obtain m1 n1 where one: "assign_one m n = (m1, n1)" by fastforce
  obtain ms1 where rest: "assign_chunk ms n1 = (ms1, n')" using Cons.prems(3) one by (auto split: prod.splits)
  note f = assign_one_fields [OF one]
  have cs: "n_cluster_size n1 = n_cluster_size n" using assign_one_same_log [OF one] by (simp add: same_log_def)
  have "unat (n_next_seq n) + unat (n_cluster_size n) < 2 ^ 64" using Cons.prems(1) by simp
  then have nxt: "unat (n_next_seq n1) = unat (n_next_seq n) + unat (n_cluster_size n)"
    by (simp add: f unat_word_ariths)
  have hi: "n_highest_proposed_seq n1 = n_next_seq n" using Cons.prems(2) by (simp add: f max_def)
  show ?case
  proof (cases ms)
    case Nil
    with rest hi show ?thesis by simp
  next
    case (Cons m2 ms2)
    have "unat (n_highest_proposed_seq n') = unat (n_next_seq n1) + (length ms - 1) * unat (n_cluster_size n1)"
      using Cons.prems(1) nxt cs hi rest Cons by (intro Cons.IH [of n1 ms1]) (auto simp: word_le_nat_alt)
    with nxt cs Cons show ?thesis by simp
  qed
qed simp

section \<open>The admission window\<close>

lemma unat_window:
  assumes "k < 2 ^ 32" "1 \<le> k"
  shows "unat (max_inflight_seq_window (of_nat k) 3 aw) = max (unat aw) (3 * k + 3)"
proof -
  have "unat (of_nat k :: u32) = k" using assms(1) by (simp add: unat_of_nat)
  then have u: "unat (ucast (of_nat k :: u32) :: u64) = k" using assms(1) by (simp add: unsigned_ucast_eq take_bit_eq_mod)
  then have "unat (max (ucast (of_nat k :: u32)) (1 :: u64)) = k" using assms(2) by (simp add: max_def word_le_nat_alt)
  then have "unat (3 * max (ucast (of_nat k :: u32)) (1 :: u64) + 3) = 3 * k + 3"
    using assms(1) by (simp add: unat_word_ariths)
  then show ?thesis by (simp add: max_inflight_seq_window_def Let_def max_def word_le_nat_alt)
qed

lemma try_assign_nat:
  assumes "n_cluster_size n = 3" "ms \<noteq> []" "length ms < 2 ^ 32" "unat (n_next_seq n) \<le> 2 ^ 62"
    and "exec_next n \<le> 2 ^ 62" "unat (n_admission_window n) \<le> 2 ^ 62"
  shows "try_assign ms n =
    (if unat (n_next_seq n) + 3 * (length ms - 1) < exec_next n + max (unat (n_admission_window n)) (3 * length ms + 3)
     then Some (assign_chunk ms n) else None)"
proof -
  have len: "1 \<le> length ms" using assms(2) by (cases ms) auto
  note w = unat_window [OF assms(3) len, of "n_admission_window n"]
  have "unat (n_next_seq n + of_nat (length ms - 1) * 3) = unat (n_next_seq n) + (length ms - 1) * 3"
    using assms(3,4) by (simp add: unat_word_ariths unat_of_nat)
  moreover have "unat (n_execute_next n + max_inflight_seq_window (of_nat (length ms)) 3 (n_admission_window n))
      = exec_next n + max (unat (n_admission_window n)) (3 * length ms + 3)"
    using assms(3,5,6) w by (simp add: unat_word_ariths exec_next_def)
  ultimately show ?thesis
    by (simp add: try_assign_def Let_def assms(1) word_less_nat_alt mult.commute)
qed

text \<open>Property C25: admission and assignment. A chunk is admitted exactly when its last sequence number is
  below \<open>execute_next_\<close> plus the window, which is the configured one or three times the chunk plus three if
  that is more. When admitted, the proposals get consecutive numbers of this node's residue class and
  consecutive request ids, the pending count grows by the chunk, and the log, the store and the
  configuration stay as they are; when not, nothing changes.\<close>

theorem admission_assigns_window:
  assumes "n_cluster_size n = 3" "ms \<noteq> []" "length ms < 2 ^ 32" "unat (n_next_seq n) \<le> 2 ^ 62"
    and "exec_next n \<le> 2 ^ 62" "unat (n_admission_window n) \<le> 2 ^ 62"
  shows "case try_assign ms n of
      None \<Rightarrow> exec_next n + max (unat (n_admission_window n)) (3 * length ms + 3)
                \<le> unat (n_next_seq n) + 3 * (length ms - 1)
    | Some (ms', n') \<Rightarrow>
        unat (n_next_seq n) + 3 * (length ms - 1) < exec_next n + max (unat (n_admission_window n)) (3 * length ms + 3) \<and>
        ms' = map (\<lambda>i. assigned n i (ms ! i)) [0..<length ms] \<and> same_log n n' \<and>
        unat (n_next_seq n') = unat (n_next_seq n) + 3 * length ms \<and>
        n_next_client_req_id n' = n_next_client_req_id n + of_nat (length ms) \<and>
        n_pending_count n' = n_pending_count n + of_nat (length ms)"
proof -
  obtain ms' n' where a: "assign_chunk ms n = (ms', n')" by fastforce
  have "unat (n_next_seq n + of_nat (length ms) * 3) = unat (n_next_seq n) + 3 * length ms"
    using assms(3,4) by (simp add: unat_word_ariths unat_of_nat)
  with assign_chunk_spec [OF a] try_assign_nat [OF assms] a assms(1) show ?thesis by simp
qed

theorem admission_assigns_window_witness:
  "(case try_assign [default_message] sample_node of
      None \<Rightarrow> False
    | Some (ms', n') \<Rightarrow> ms' = [assigned sample_node 0 default_message] \<and> unat (n_next_seq n') = 5)"
  using admission_assigns_window [of sample_node "[default_message]"] sample_node_fields
  by (auto simp: exec_next_def split: option.splits)

text \<open>Chunks of the admission loop.\<close>

lemma concat_split_chunks: "0 < cap \<Longrightarrow> concat (split_chunks cap xs) = xs"
  by (induction cap xs rule: split_chunks.induct) (subst split_chunks.simps, auto)

lemma split_chunks_sizes:
  "ch \<in> set (split_chunks cap xs) \<Longrightarrow> ch \<noteq> [] \<and> length ch \<le> cap \<and> set ch \<subseteq> set xs"
proof (induction cap xs rule: split_chunks.induct)
  case (1 cap xs)
  show ?case
  proof (cases "xs = [] \<or> cap = 0")
    case True
    with "1.prems" show ?thesis by (subst (asm) split_chunks.simps) simp
  next
    case False
    then have "ch = take cap xs \<or> ch \<in> set (split_chunks cap (drop cap xs))"
      using "1.prems" by (subst (asm) split_chunks.simps) simp
    with False "1.IH" show ?thesis using set_drop_subset [of cap xs] set_take_subset [of cap xs] by fastforce
  qed
qed

lemma admission_batch_capacity_bounds:
  "1 \<le> admission_batch_capacity k b" "admission_batch_capacity k b \<le> max 1 (unat b)"
  by (auto simp: admission_batch_capacity_def Let_def)

end
