(* ===== verification/Bandle_Cluster.thy ===== *)
theory Bandle_Cluster
  imports Link_Invariant Bandle_Requests
begin

text \<open>
  Three nodes over the shared rings. A state holds every node, every ring and the program counters of the
  threads; a step is one step of one thread. The histories of issued messages and the numbers of handled
  messages are recorded beside the state for the invariants and do not influence the steps.
\<close>

section \<open>States and steps\<close>

record Cluster =
  c_node :: "nat \<Rightarrow> Bandle"
  c_ring :: "nat \<Rightarrow> nat \<Rightarrow> SpscRing"
  c_sub :: "nat \<Rightarrow> submit_pc"
  c_noop :: "nat \<Rightarrow> noop_pc"
  c_recv :: "nat \<Rightarrow> nat \<Rightarrow> recv_pc"
  c_hist :: history
  c_done :: "nat \<Rightarrow> nat \<Rightarrow> nat"

text \<open>Records of what a step issues and delivers to its own node.\<close>

fun sub_issues :: "submit_pc \<Rightarrow> submit_pc \<Rightarrow> BandleMessage list" where
  "sub_issues (Sub_Admit chs) (Sub_Bcast msgs pc chs') = map wire msgs"
| "sub_issues _ _ = []"

fun sub_delivers :: "submit_pc \<Rightarrow> nat" where
  "sub_delivers (Sub_Deliver msgs chs) = length msgs"
| "sub_delivers _ = 0"

fun noop_issues :: "noop_pc \<Rightarrow> BandleMessage list" where
  "noop_issues (Np_Reserve msg) = [wire msg]"
| "noop_issues _ = []"

fun noop_delivers :: "noop_pc \<Rightarrow> nat" where
  "noop_delivers (Np_Deliver msg) = 1"
| "noop_delivers _ = 0"

inductive cluster_step :: "(string \<Rightarrow> u64) \<Rightarrow> Cluster \<Rightarrow> Cluster \<Rightarrow> bool" for hash where
  begin_submit:
    "\<lbrakk>p \<in> set node_ids; c_sub c p = Sub_Idle; \<not> n_input_done (c_node c p);
      \<forall>req\<in>set reqs. req_ok req; \<forall>j. length (scratch j) = kMaxValueBytes;
      submit_begin scratch reqs (c_node c p) = (pc, n)\<rbrakk>
     \<Longrightarrow> cluster_step hash c (c\<lparr>c_sub := (c_sub c)(p := pc), c_node := (c_node c)(p := n)\<rparr>)"
| submit:
    "\<lbrakk>p \<in> set node_ids; submit_step hash p (c_sub c p) (c_node c p) (c_ring c p) = (pc, n, rs)\<rbrakk>
     \<Longrightarrow> cluster_step hash c
           (c\<lparr>c_sub := (c_sub c)(p := pc), c_node := (c_node c)(p := n), c_ring := (c_ring c)(p := rs),
              c_hist := (c_hist c)(p := c_hist c p @ sub_issues (c_sub c p) pc),
              c_done := (c_done c)(p := (c_done c p)(p := c_done c p p + sub_delivers (c_sub c p)))\<rparr>)"
| input_done:
    "\<lbrakk>p \<in> set node_ids; c_sub c p = Sub_Idle\<rbrakk>
     \<Longrightarrow> cluster_step hash c (c\<lparr>c_node := (c_node c)(p := mark_input_done (c_node c p))\<rparr>)"
| noop:
    "\<lbrakk>p \<in> set node_ids; noop_step hash p now fin (c_noop c p) (c_node c p) (c_ring c p) = (pc, n, rs)\<rbrakk>
     \<Longrightarrow> cluster_step hash c
           (c\<lparr>c_noop := (c_noop c)(p := pc), c_node := (c_node c)(p := n), c_ring := (c_ring c)(p := rs),
              c_hist := (c_hist c)(p := c_hist c p @ noop_issues (c_noop c p)),
              c_done := (c_done c)(p := (c_done c p)(p := c_done c p p + noop_delivers (c_noop c p)))\<rparr>)"
| recv:
    "\<lbrakk>p \<in> set node_ids; q \<in> set node_ids; p \<noteq> q; buffer_ok (c_recv c q p) buf;
      recv_step hash buf (c_recv c q p) (c_node c q) (c_ring c p q) = (pc, n, r)\<rbrakk>
     \<Longrightarrow> cluster_step hash c
           (c\<lparr>c_recv := (c_recv c)(q := (c_recv c q)(p := pc)), c_node := (c_node c)(q := n),
              c_ring := (c_ring c)(p := (c_ring c p)(q := r)),
              c_done := (c_done c)(q := (c_done c q)(p := c_done c q p + length (recv_handles (c_recv c q p))))\<rparr>)"

text \<open>
  Starting states: nodes as constructed, preloaded with the contents \<open>K0\<close> and started, over empty rings.
  The admission parameters are such that no two sequence numbers in flight share a log slot.
\<close>

definition window_ok :: "Bandle \<Rightarrow> bool" where
  "window_ok n \<longleftrightarrow> unat (n_admission_window n) \<le> 32766 \<and> unat (n_admission_batch n) \<le> 10921"

definition initial_node :: "(string \<Rightarrow> u64) \<Rightarrow> (string \<rightharpoonup> string) \<Rightarrow> nat \<Rightarrow> Bandle \<Rightarrow> bool" where
  "initial_node hash K0 p n \<longleftrightarrow>
     (\<exists>poll noop_us batch workers window adm tsc kv now m.
        bandle_new (of_nat p) 3 poll noop_us batch workers window adm tsc = Some m \<and>
        n = bandle_start now (m\<lparr>n_kv := kv\<rparr>) \<and> kv_wf hash kv \<and> kv_lookup hash kv = K0) \<and>
     window_ok n"

definition cluster_init :: "(string \<Rightarrow> u64) \<Rightarrow> (string \<rightharpoonup> string) \<Rightarrow> Cluster \<Rightarrow> bool" where
  "cluster_init hash K0 c \<longleftrightarrow>
     (\<forall>p\<in>set node_ids. initial_node hash K0 p (c_node c p)) \<and>
     (\<forall>p q. ring_rep ring_cap (c_ring c p q) []) \<and> (\<forall>p. c_sub c p = Sub_Idle) \<and> (\<forall>p. c_noop c p = Np_Idle) \<and>
     (\<forall>p q. c_recv c p q = Rv_Idle) \<and> (\<forall>p. c_hist c p = []) \<and> (\<forall>p q. c_done c p q = 0)"

section \<open>The invariant\<close>

text \<open>What a sending node still owes each peer and itself.\<close>

fun bc_out :: "BandleMessage list \<Rightarrow> bcast_pc \<Rightarrow> nat \<Rightarrow> BandleMessage list" where
  "bc_out ws (Bc_Publish qs heads) q = (if q \<in> set qs then ws else [])"
| "bc_out ws Bc_Done q = []"
| "bc_out ws _ q = ws"

fun bc_staged :: "BandleMessage list \<Rightarrow> bcast_pc \<Rightarrow> nat \<Rightarrow> BandleMessage list" where
  "bc_staged ws (Bc_Write qs heads) q = (if q \<in> set qs then [] else ws)"
| "bc_staged ws (Bc_Publish qs heads) q = (if q \<in> set qs then ws else [])"
| "bc_staged ws _ q = []"

fun bc_need :: "nat \<Rightarrow> bcast_pc \<Rightarrow> nat \<Rightarrow> (u64 \<times> nat) option" where
  "bc_need k (Bc_Check qs heads) q = (if q \<in> set qs then None else Some (heads q, k))"
| "bc_need k (Bc_Write qs heads) q = Some (heads q, k)"
| "bc_need k (Bc_Publish qs heads) q = (if q \<in> set qs then Some (heads q, k) else None)"
| "bc_need k _ q = None"

fun bc_ok :: "nat \<Rightarrow> bcast_pc \<Rightarrow> bool" where
  "bc_ok p (Bc_Check qs heads) \<longleftrightarrow> set qs \<subseteq> set (peers p) \<and> distinct qs"
| "bc_ok p (Bc_Write qs heads) \<longleftrightarrow> set qs \<subseteq> set (peers p) \<and> distinct qs"
| "bc_ok p (Bc_Publish qs heads) \<longleftrightarrow> set qs \<subseteq> set (peers p) \<and> distinct qs"
| "bc_ok p _ \<longleftrightarrow> True"

fun out_of :: "submit_pc \<Rightarrow> noop_pc \<Rightarrow> nat \<Rightarrow> BandleMessage list" where
  "out_of (Sub_Bcast msgs pc chs) np q = bc_out (map wire msgs) pc q"
| "out_of sub (Np_Send msg qs) q = (if q \<in> set qs then [wire msg] else [])"
| "out_of sub np q = []"

fun staged_of :: "submit_pc \<Rightarrow> nat \<Rightarrow> BandleMessage list" where
  "staged_of (Sub_Bcast msgs pc chs) q = bc_staged (map wire msgs) pc q"
| "staged_of sub q = []"

fun need_of :: "submit_pc \<Rightarrow> nat \<Rightarrow> (u64 \<times> nat) option" where
  "need_of (Sub_Bcast msgs pc chs) q = bc_need (length msgs) pc q"
| "need_of sub q = None"

fun self_pending :: "submit_pc \<Rightarrow> noop_pc \<Rightarrow> BandleMessage list" where
  "self_pending (Sub_Bcast msgs pc chs) np = map wire msgs"
| "self_pending (Sub_Deliver msgs chs) np = map wire msgs"
| "self_pending sub (Np_Send msg qs) = [wire msg]"
| "self_pending sub (Np_Deliver msg) = [wire msg]"
| "self_pending sub np = []"

definition chunk_ok :: "nat \<Rightarrow> BandleMessage list \<Rightarrow> bool" where
  "chunk_ok p ch \<longleftrightarrow> ch \<noteq> [] \<and> length ch \<le> 10921 \<and> list_all (prop_ok p) ch"

fun sub_ok :: "nat \<Rightarrow> submit_pc \<Rightarrow> bool" where
  "sub_ok p Sub_Idle \<longleftrightarrow> True"
| "sub_ok p (Sub_Admit chs) \<longleftrightarrow> list_all (chunk_ok p) chs"
| "sub_ok p (Sub_Bcast msgs pc chs) \<longleftrightarrow> chunk_ok p msgs \<and> bc_ok p pc \<and> list_all (chunk_ok p) chs"
| "sub_ok p (Sub_Deliver msgs chs) \<longleftrightarrow> chunk_ok p msgs \<and> list_all (chunk_ok p) chs"

fun noop_ok :: "nat \<Rightarrow> Bandle \<Rightarrow> noop_pc \<Rightarrow> bool" where
  "noop_ok p n Np_Idle \<longleftrightarrow> True"
| "noop_ok p n Np_Read \<longleftrightarrow> unat (n_highest_proposed_seq n) < exec_next n + 1536"
| "noop_ok p n (Np_Reserve msg) \<longleftrightarrow> unat (n_highest_proposed_seq n) < exec_next n + 1536 \<and> prop_ok p msg \<and>
     b_seq (m_body msg) = n_next_seq n"
| "noop_ok p n (Np_Send msg qs) \<longleftrightarrow> prop_ok p msg \<and> set qs \<subseteq> set (peers p) \<and> distinct qs"
| "noop_ok p n (Np_Deliver msg) \<longleftrightarrow> prop_ok p msg"

definition node_ok :: "nat \<Rightarrow> Bandle \<Rightarrow> submit_pc \<Rightarrow> noop_pc \<Rightarrow> bool" where
  "node_ok p n sub np \<longleftrightarrow>
     n_node_id n = of_nat p \<and> n_cluster_size n = 3 \<and> n_running n \<and> window_ok n \<and>
     sub_ok p sub \<and> noop_ok p n np \<and>
     (np \<noteq> Np_Idle \<longrightarrow> n_input_done n) \<and> (n_input_done n \<longrightarrow> sub = Sub_Idle)"

definition issue_inv :: "nat \<Rightarrow> BandleMessage list \<Rightarrow> Bandle \<Rightarrow> bool" where
  "issue_inv p h n \<longleftrightarrow>
     unat (n_next_seq n) = seq_of p (length h) \<and>
     unat (n_highest_proposed_seq n) = (if h = [] then 0 else seq_of p (length h - 1)) \<and>
     (h \<noteq> [] \<longrightarrow> seq_of p (length h - 1) < exec_next n + 32766) \<and>
     (\<forall>i<length h. good_msg p i (h ! i))"

definition local_inv :: "(string \<Rightarrow> u64) \<Rightarrow> (string \<rightharpoonup> string) \<Rightarrow> Cluster \<Rightarrow> nat \<Rightarrow> bool" where
  "local_inv hash K0 c p \<longleftrightarrow>
     node_ok p (c_node c p) (c_sub c p) (c_noop c p) \<and> issue_inv p (c_hist c p) (c_node c p) \<and>
     replica_inv hash K0 (c_hist c) (c_done c p) (c_node c p) \<and>
     \<not> handled (c_done c p) (exec_next (c_node c p)) \<and> c_done c p p \<le> length (c_hist c p) \<and>
     drop (c_done c p p) (c_hist c p) = self_pending (c_sub c p) (c_noop c p)"

definition pair_inv :: "Cluster \<Rightarrow> nat \<Rightarrow> nat \<Rightarrow> bool" where
  "pair_inv c p q \<longleftrightarrow>
     link_inv (c_hist c p) (c_done c q p) (c_ring c p q) (c_recv c q p)
       (out_of (c_sub c p) (c_noop c p) q) (staged_of (c_sub c p) q) (need_of (c_sub c p) q)"

definition full_inv :: "(string \<Rightarrow> u64) \<Rightarrow> (string \<rightharpoonup> string) \<Rightarrow> Cluster \<Rightarrow> bool" where
  "full_inv hash K0 c \<longleftrightarrow>
     (\<forall>p\<in>set node_ids. local_inv hash K0 c p) \<and>
     (\<forall>p\<in>set node_ids. \<forall>q\<in>set node_ids. p \<noteq> q \<longrightarrow> pair_inv c p q)"

definition cluster_inv :: "(string \<Rightarrow> u64) \<Rightarrow> (string \<rightharpoonup> string) \<Rightarrow> Cluster \<Rightarrow> bool" where
  "cluster_inv hash K0 c \<longleftrightarrow> (short (c_hist c) \<longrightarrow> full_inv hash K0 c)"

section \<open>Issuing\<close>

lemma good_msg_wire: "good_msg p i (wire m) \<longleftrightarrow> good_msg p i m"
  by (simp add: good_msg_def)

lemma assigned_ok:
  assumes "prop_ok p m" "n_next_seq n = of_nat (seq_of p k)" "n_cluster_size n = 3"
  shows "prop_ok p (assigned n i m)" "good_msg p (k + i) (assigned n i m)"
proof -
  have "n_next_seq n + of_nat i * 3 = of_nat (seq_of p (k + i))"
    by (simp add: assms(2) seq_of_def algebra_simps)
  then show "prop_ok p (assigned n i m)" "good_msg p (k + i) (assigned n i m)"
    using assms(1,3) by (simp_all add: prop_ok_def good_msg_def assigned_def wf_msg_def fits_def msg_bytes_def)
qed

lemma issue_inv_good: "issue_inv p h n \<Longrightarrow> i < length h \<Longrightarrow> good_msg p i (h ! i)"
  by (simp add: issue_inv_def)

lemma issue_append:
  assumes inv: "issue_inv p h n" and ws: "ws \<noteq> []" "\<forall>i<length ws. good_msg p (length h + i) (ws ! i)"
    and n': "unat (n_next_seq n') = seq_of p (length h + length ws)"
      "unat (n_highest_proposed_seq n') = seq_of p (length h + length ws - 1)" "exec_next n' = exec_next n"
    and win: "seq_of p (length h + length ws - 1) < exec_next n + 32766"
  shows "issue_inv p (h @ ws) n'"
proof -
  have "good_msg p i ((h @ ws) ! i)" if "i < length (h @ ws)" for i
    using that inv ws(2) [rule_format, of "i - length h"]
    by (cases "i < length h") (auto simp: nth_append issue_inv_def)
  with ws(1) n' win show ?thesis by (simp add: issue_inv_def)
qed

lemma assign_issues:
  assumes node: "n_cluster_size n = 3" "window_ok n" "chunk_ok p ch" and inv: "issue_inv p h n"
    and bounds: "exec_next n \<le> 2 ^ 62" "length h < 2 ^ 60" "p \<in> set node_ids"
    and adm: "try_assign ch n = Some (ms, n')"
  shows "same_log n n'" "chunk_ok p ms" "issue_inv p (h @ map wire ms) n'"
proof -
  let ?k = "length h"
  have seq: "unat (n_next_seq n) = seq_of p ?k" using inv by (simp add: issue_inv_def)
  have p3: "p \<le> 3" using bounds(3) by (auto simp: node_ids_def)
  have len: "ch \<noteq> []" "length ch \<le> 10921" using node(3) by (simp_all add: chunk_ok_def)
  have b: "unat (n_next_seq n) \<le> 2 ^ 62" using bounds(2) p3 by (simp add: seq seq_of_def)
  note t = try_assign_nat [OF node(1) len(1) _ b bounds(1)]
  from t len(2) node(2) adm have a: "assign_chunk ch n = (ms, n')"
    and win: "seq_of p ?k + 3 * (length ch - 1) < exec_next n + max (unat (n_admission_window n)) (3 * length ch + 3)"
    by (auto simp: window_ok_def seq split: if_splits)
  note spec = assign_chunk_spec [OF a]
  from spec have ms: "ms = map (\<lambda>i. assigned n i (ch ! i)) [0..<length ch]" and log: "same_log n n'"
    and nxt: "n_next_seq n' = n_next_seq n + of_nat (length ch) * 3" using node(1) by simp_all
  show "same_log n n'" by (rule log)
  have word: "n_next_seq n = of_nat (seq_of p ?k)" using arg_cong [OF seq, of "of_nat :: nat \<Rightarrow> u64"] by simp
  have ok: "prop_ok p (ms ! i)" "good_msg p (?k + i) (ms ! i)" if "i < length ch" for i
    using that node(3) assigned_ok [OF _ word node(1), of "ch ! i" i]
    by (simp_all add: ms chunk_ok_def list_all_length)
  have lms: "length ms = length ch" by (simp add: ms)
  then show "chunk_ok p ms" using len ok(1) by (auto simp: chunk_ok_def list_all_length)
  show "issue_inv p (h @ map wire ms) n'"
  proof (rule issue_append [OF inv])
    show "map wire ms \<noteq> []" using len(1) lms by auto
    show "\<forall>i<length (map wire ms). good_msg p (length h + i) (map wire ms ! i)"
      using ok(2) lms by (simp add: good_msg_wire)
    show "unat (n_next_seq n') = seq_of p (length h + length (map wire ms))"
      using b len(2) by (simp add: nxt unat_word_ariths unat_of_nat lms seq seq_of_def)
    show "exec_next n' = exec_next n" using log by (simp add: same_log_def exec_next_def)
    have "n_highest_proposed_seq n \<le> n_next_seq n"
      using inv by (auto simp: issue_inv_def word_le_nat_alt seq_of_def split: if_splits)
    then show "unat (n_highest_proposed_seq n') = seq_of p (length h + length (map wire ms) - 1)"
      using assign_chunk_highest [of n ch ms n'] a len b node(1) lms
      by (cases ch) (simp_all add: seq seq_of_def)
    show "seq_of p (length h + length (map wire ms) - 1) < exec_next n + 32766"
      using win len node(2) lms by (cases ch) (auto simp: seq_of_def window_ok_def)
  qed
qed

section \<open>Sequence numbers in flight stay within the log\<close>

lemma number_below:
  assumes "q \<in> set node_ids" "4 \<le> x"
  obtains t where "1 \<le> t" "t < x" "x \<le> t + 3" "proposer_of t = q"
proof -
  obtain y where y: "x = 4 + y" using assms(2) le_Suc_ex by blast
  obtain k where k: "q = Suc k" "k < 3" using assms(1) by (auto simp: node_ids_def)
  define j where "j = (k + 2 * y) mod 3"
  have "(y + j) mod 3 = (k + 3 * y) mod 3" unfolding j_def mod_add_right_eq by (simp add: algebra_simps)
  then have "proposer_of (Suc (y + j)) = q" using k by (simp add: proposer_of_def)
  moreover have "j < 3" by (simp add: j_def)
  ultimately show ?thesis using y by (intro that [of "Suc (y + j)"]) simp_all
qed

lemma issue_inv_bound:
  assumes "issue_inv p h n" "i < length h"
  shows "seq_of p i < exec_next n + 32766"
proof -
  have "seq_of p i \<le> seq_of p (length h - 1)" using assms(2) by (simp add: seq_of_def)
  then show ?thesis using assms by (cases h) (auto simp: issue_inv_def)
qed

lemma in_flight_window:
  assumes inv: "full_inv hash K0 c" and pq: "p \<in> set node_ids" "q \<in> set node_ids"
    and i: "i < length (c_hist c p)"
  shows "seq_of p i < exec_next (c_node c q) + 65536"
proof -
  let ?x = "exec_next (c_node c p)"
  have lp: "local_inv hash K0 c p" and lq: "local_inv hash K0 c q" using inv pq by (simp_all add: full_inv_def)
  have s: "seq_of p i < ?x + 32766" using lp i issue_inv_bound by (auto simp: local_inv_def)
  show ?thesis
  proof (cases "4 \<le> ?x")
    case True
    from pq(2) True obtain t where t: "1 \<le> t" "t < ?x" "?x \<le> t + 3" "proposer_of t = q" by (rule number_below)
    have rep: "replica_inv hash K0 (c_hist c) (c_done c p) (c_node c p)" using lp by (simp add: local_inv_def)
    then have "handled (c_done c p) t" using t by (simp add: replica_inv_def)
    moreover have "c_done c p q \<le> length (c_hist c q)" using rep pq(2) by (simp add: replica_inv_def)
    ultimately have "index_of t < length (c_hist c q)" using t(4) by (simp add: handled_def)
    then have "seq_of q (index_of t) < exec_next (c_node c q) + 32766"
      using lq issue_inv_bound by (auto simp: local_inv_def)
    moreover have "seq_of q (index_of t) = t" using seq_of_split [OF t(1)] t(4) by simp
    ultimately show ?thesis using s t(3) by simp
  qed (use s in simp)
qed

section \<open>Frames\<close>

lemma local_frame:
  assumes "local_inv hash K0 c x" "p \<in> set node_ids" "x \<noteq> p"
    and "c_node c' x = c_node c x" "c_sub c' x = c_sub c x" "c_noop c' x = c_noop c x" "c_done c' x = c_done c x"
    and "c_hist c' = (c_hist c)(p := c_hist c p @ ws)"
  shows "local_inv hash K0 c' x"
  using assms replica_inv_issue [OF assms(2), of hash K0 "c_hist c" "c_done c x" "c_node c x" ws]
  by (simp add: local_inv_def)

lemma full_inv_sender:
  assumes inv: "full_inv hash K0 c" and p: "p \<in> set node_ids"
    and other: "\<And>x. x \<noteq> p \<Longrightarrow> c_node c' x = c_node c x \<and> c_sub c' x = c_sub c x \<and> c_noop c' x = c_noop c x \<and>
        c_done c' x = c_done c x \<and> c_ring c' x = c_ring c x \<and> c_done c' p x = c_done c p x"
    and recv: "c_recv c' = c_recv c" and hist: "c_hist c' = (c_hist c)(p := c_hist c p @ ws)"
    and own: "local_inv hash K0 c' p" and out: "\<And>q. q \<in> set node_ids \<Longrightarrow> q \<noteq> p \<Longrightarrow> pair_inv c' p q"
  shows "full_inv hash K0 c'"
  unfolding full_inv_def
proof (intro conjI ballI impI)
  fix x assume "x \<in> set node_ids"
  then show "local_inv hash K0 c' x"
    using inv own local_frame [OF _ p, of hash K0 c x c' ws] other [of x] hist
    by (cases "x = p") (auto simp: full_inv_def)
next
  fix x q assume "x \<in> set node_ids" "q \<in> set node_ids" "x \<noteq> q"
  moreover have "pair_inv c x q" using inv calculation by (simp add: full_inv_def)
  ultimately show "pair_inv c' x q"
    using out [of q] other [of x] other [of q] recv hist
    by (cases "x = p"; cases "q = p") (auto simp: pair_inv_def)
qed

lemma exec_next_same_log: "same_log n n' \<Longrightarrow> exec_next n' = exec_next n"
  by (simp add: same_log_def exec_next_def)

lemma replica_inv_cong:
  assumes "n_execute_next n' = n_execute_next n" "n_log n' = n_log n" "n_log_payloads n' = n_log_payloads n"
    "n_kv n' = n_kv n"
  shows "replica_inv hash K0 hist d n' = replica_inv hash K0 hist d n"
  using assms by (simp add: replica_inv_def log_inv_def kv_inv_def exec_next_def)

lemma replica_inv_same_log: "same_log n n' \<Longrightarrow> replica_inv hash K0 hist d n' = replica_inv hash K0 hist d n"
  by (rule replica_inv_cong) (simp_all add: same_log_def)

lemma issue_inv_cong:
  "n_execute_next n' = n_execute_next n \<Longrightarrow> n_next_seq n' = n_next_seq n \<Longrightarrow>
   n_highest_proposed_seq n' = n_highest_proposed_seq n \<Longrightarrow> issue_inv p h n' = issue_inv p h n"
  by (simp add: issue_inv_def exec_next_def)

section \<open>Delivery and execution at a node\<close>

lemma node_ok_mono:
  "node_ok p n sub np \<Longrightarrow> same_config n n' \<Longrightarrow> exec_next n \<le> exec_next n' \<Longrightarrow> node_ok p n' sub np"
  by (cases np) (auto simp: node_ok_def same_config_def window_ok_def)

lemma issue_inv_mono:
  "issue_inv p h n \<Longrightarrow> same_config n n' \<Longrightarrow> exec_next n \<le> exec_next n' \<Longrightarrow> issue_inv p h n'"
  by (auto simp: issue_inv_def same_config_def)

lemma deliver_at:
  fixes hash c q ms
  defines "n' \<equiv> fst (advance_execute_locked hash (deliver_loop hash ms (c_node c q)))"
  assumes inv: "full_inv hash K0 c" "short (c_hist c)" and pq: "p \<in> set node_ids" "q \<in> set node_ids"
    and ms: "c_done c q p + length ms \<le> length (c_hist c p)"
      "map wire ms = take (length ms) (drop (c_done c q p) (c_hist c p))" "list_all wf_msg ms"
  shows "replica_inv hash K0 (c_hist c) ((c_done c q)(p := c_done c q p + length ms)) n'"
    and "same_config (c_node c q) n'" "exec_next (c_node c q) \<le> exec_next n'"
    and "\<not> handled ((c_done c q)(p := c_done c q p + length ms)) (exec_next n')"
proof -
  have lp: "local_inv hash K0 c p" and lq: "local_inv hash K0 c q" using inv(1) pq by (simp_all add: full_inv_def)
  have good: "\<forall>i<length (c_hist c p). good_msg p i (c_hist c p ! i)"
    using lp by (auto simp: local_inv_def intro: issue_inv_good)
  have rep: "replica_inv hash K0 (c_hist c) (c_done c q) (c_node c q)" using lq by (simp add: local_inv_def)
  note args = inv(2) pq(1) good rep ms(1,2)
  have wf: "\<forall>m\<in>set ms. wf_msg m" using ms(3) by (simp add: list_all_iff)
  note win = in_flight_window [OF inv(1) pq]
  show "replica_inv hash K0 (c_hist c) ((c_done c q)(p := c_done c q p + length ms)) n'"
    unfolding n'_def by (rule replica_inv_deliver_advance [OF args wf win])
  show "same_config (c_node c q) n'"
    unfolding n'_def using deliver_loop_frame(1) advance_same_config by (rule same_config_trans)
  have "exec_next (deliver_loop hash ms (c_node c q)) \<le> exec_next n'"
    unfolding n'_def by (rule advance_exec_next_mono [OF replica_inv_deliver [OF args wf win] inv(2)])
  then show "exec_next (c_node c q) \<le> exec_next n'" by (simp add: exec_next_def deliver_loop_frame)
  show "\<not> handled ((c_done c q)(p := c_done c q p + length ms)) (exec_next n')"
    unfolding n'_def by (rule advance_reaches_gap [OF replica_inv_deliver [OF args wf win] inv(2)])
qed

lemma short_prefix: "short (hist(p := hist p @ ws)) \<Longrightarrow> short hist"
  unfolding short_def by (metis fun_upd_other fun_upd_same le_add1 length_append order.strict_trans1)

section \<open>Reception steps\<close>

lemma handled_types:
  assumes "issue_inv p h n" "map wire ms = take (length ms) (drop d h)"
  shows "\<forall>m\<in>set ms. m_type m = PROPOSAL"
proof
  fix m assume "m \<in> set ms"
  then have "wire m \<in> set (map wire ms)" by simp
  then have "wire m \<in> set h" unfolding assms(2) by (meson in_set_dropD in_set_takeD)
  then obtain i where "i < length h" "h ! i = wire m" by (auto simp: in_set_conv_nth)
  then have "good_msg p i (wire m)" using issue_inv_good [OF assms(1)] by metis
  then show "m_type m = PROPOSAL" by (simp add: good_msg_def)
qed

lemma recv_step_at:
  assumes inv: "full_inv hash K0 c" "short (c_hist c)" and pq: "p \<in> set node_ids" "q \<in> set node_ids" "p \<noteq> q"
    and buf: "buffer_ok (c_recv c q p) buf"
    and step: "recv_step hash buf (c_recv c q p) (c_node c q) (c_ring c p q) = (pc, n, r)"
  defines "d \<equiv> c_done c q p + length (recv_handles (c_recv c q p))"
  shows "link_inv (c_hist c p) d r pc (out_of (c_sub c p) (c_noop c p) q) (staged_of (c_sub c p) q) (need_of (c_sub c p) q)"
    and "replica_inv hash K0 (c_hist c) ((c_done c q)(p := d)) n"
    and "same_config (c_node c q) n" "exec_next (c_node c q) \<le> exec_next n"
    and "\<not> handled ((c_done c q)(p := d)) (exec_next n)"
proof -
  have pair: "pair_inv c p q" and lq: "local_inv hash K0 c q" and lp: "local_inv hash K0 c p"
    using inv(1) pq by (simp_all add: full_inv_def)
  let ?link = "\<lambda>d r rv. link_inv (c_hist c p) d r rv (out_of (c_sub c p) (c_noop c p) q) (staged_of (c_sub c p) q)
      (need_of (c_sub c p) q)"
  have link: "?link (c_done c q p) (c_ring c p q) (c_recv c q p)" using pair by (simp add: pair_inv_def)
  have rep: "replica_inv hash K0 (c_hist c) (c_done c q) (c_node c q)"
    and gap: "\<not> handled (c_done c q) (exec_next (c_node c q))" using lq by (simp_all add: local_inv_def)
  have idle: "?link (c_done c q p) r pc \<and> n = c_node c q" if "recv_handles (c_recv c q p) = []"
    "\<forall>ms. c_recv c q p \<noteq> Rv_Handle ms"
    using that link step buf link_recv_start link_recv_first link_recv_more
    by (cases "c_recv c q p") (metis buffer_ok.simps(1))+
  have "?link d r pc \<and> replica_inv hash K0 (c_hist c) ((c_done c q)(p := d)) n \<and>
      same_config (c_node c q) n \<and> exec_next (c_node c q) \<le> exec_next n \<and>
      \<not> handled ((c_done c q)(p := d)) (exec_next n)"
  proof (cases "c_recv c q p")
    case (Rv_Handle msgs)
    let ?ms = "take kHandleChunk msgs"
    have h: "recv_handles (c_recv c q p) = ?ms" by (simp add: Rv_Handle recv_handles_def)
    note hd = link_recv_handle [OF link [unfolded Rv_Handle] step [unfolded Rv_Handle]]
    then have ms: "c_done c q p + length ?ms \<le> length (c_hist c p)"
      "map wire ?ms = take (length ?ms) (drop (c_done c q p) (c_hist c p))" "list_all wf_msg ?ms" by blast+
    show ?thesis
    proof (cases "msgs = []")
      case True
      with hd rep gap show ?thesis by (auto simp: d_def h)
    next
      case False
      then have "?ms \<noteq> []" by (simp add: kHandleChunk_def)
      moreover have "issue_inv p (c_hist c p) (c_node c p)" using lp by (simp add: local_inv_def)
      ultimately have n: "n = fst (advance_execute_locked hash (deliver_loop hash ?ms (c_node c q)))"
        using hd False handle_chunk_proposals [OF handled_types [OF _ ms(2)]] by simp
      show ?thesis
        unfolding d_def h n using deliver_at [OF inv pq(1,2) ms] conjunct1 [OF hd] by blast
    qed
  qed (use idle rep gap in \<open>simp_all add: d_def recv_handles_def\<close>)
  then show "?link d r pc" "replica_inv hash K0 (c_hist c) ((c_done c q)(p := d)) n"
    "same_config (c_node c q) n" "exec_next (c_node c q) \<le> exec_next n"
    "\<not> handled ((c_done c q)(p := d)) (exec_next n)" by simp_all
qed

lemma full_inv_recv:
  assumes inv: "full_inv hash K0 c" "short (c_hist c)" and pq: "p \<in> set node_ids" "q \<in> set node_ids" "p \<noteq> q"
    and buf: "buffer_ok (c_recv c q p) buf"
    and step: "recv_step hash buf (c_recv c q p) (c_node c q) (c_ring c p q) = (pc, n, r)"
  shows "full_inv hash K0
           (c\<lparr>c_recv := (c_recv c)(q := (c_recv c q)(p := pc)), c_node := (c_node c)(q := n),
              c_ring := (c_ring c)(p := (c_ring c p)(q := r)),
              c_done := (c_done c)(q := (c_done c q)(p := c_done c q p + length (recv_handles (c_recv c q p))))\<rparr>)"
    (is "full_inv hash K0 ?c")
proof -
  note at = recv_step_at [OF assms]
  have "local_inv hash K0 ?c x" if "x \<in> set node_ids" for x
  proof -
    have "local_inv hash K0 c x" using inv(1) that by (simp add: full_inv_def)
    then show ?thesis
      using at(2-5) pq(3) by (cases "x = q") (auto simp: local_inv_def intro: node_ok_mono issue_inv_mono)
  qed
  moreover have "pair_inv ?c x y" if "x \<in> set node_ids" "y \<in> set node_ids" "x \<noteq> y" for x y
  proof (cases "x = p \<and> y = q")
    case True
    with at(1) show ?thesis by (simp add: pair_inv_def)
  next
    case False
    moreover have "pair_inv c x y" using inv(1) that by (simp add: full_inv_def)
    ultimately show ?thesis by (auto simp: pair_inv_def)
  qed
  ultimately show ?thesis by (simp add: full_inv_def)
qed

section \<open>Submission steps\<close>

lemma sub_active_noop: "node_ok p n sub np \<Longrightarrow> sub \<noteq> Sub_Idle \<Longrightarrow> np = Np_Idle"
  by (auto simp: node_ok_def)

lemma self_pending_idle [simp]: "self_pending Sub_Idle Np_Idle = []" "self_pending (Sub_Admit chs) Np_Idle = []"
  by simp_all

lemma chunk_ok_msgs: "chunk_ok p ms \<Longrightarrow> \<forall>m\<in>set ms. wf_msg m \<and> fits m"
  by (auto simp: chunk_ok_def prop_ok_def list_all_iff)

lemma set_peers: "q \<in> set (peers p) \<longleftrightarrow> q \<in> set node_ids \<and> q \<noteq> p"
  by (auto simp: peers_def)

lemma distinct_peers: "distinct (peers p)"
  by (simp add: peers_def node_ids_def)

text \<open>One access of the broadcast to one ring, seen from every link of the sender.\<close>

text \<open>
  What a broadcast in progress keeps: its control point is consistent, and the link to every peer is in the state
  that the control point says.
\<close>

definition bcast_inv ::
  "BandleMessage list \<Rightarrow> (nat \<Rightarrow> nat) \<Rightarrow> (nat \<Rightarrow> recv_pc) \<Rightarrow> nat \<Rightarrow> BandleMessage list \<Rightarrow> bcast_pc \<Rightarrow> (nat \<Rightarrow> SpscRing) \<Rightarrow> bool" where
  "bcast_inv hist d rv p msgs pc rs \<longleftrightarrow> bc_ok p pc \<and>
     (\<forall>q\<in>set (peers p). link_inv hist (d q) (rs q) (rv q) (bc_out (map wire msgs) pc q)
        (bc_staged (map wire msgs) pc q) (bc_need (length msgs) pc q))"

lemma bcast_inv_check:
  assumes step: "bcast_step True p msgs (Bc_Check (q0 # qs0) heads) rs = (pc', rs')" and len: "length msgs < 2 ^ 63"
    and inv: "bcast_inv hist d rv p msgs (Bc_Check (q0 # qs0) heads) rs"
  shows "bcast_inv hist d rv p msgs pc' rs'"
proof (cases "can_push_batch ring_cap (of_nat (length msgs)) (rs q0)")
  case None
  have "link_inv hist (d q) (rs q) (rv q) (map wire msgs) [] None" if "q \<in> set (peers p)" for q
    using inv that unfolding bcast_inv_def bc_out.simps bc_staged.simps by (intro link_forget) blast
  with None step inv show ?thesis by (auto simp: bcast_inv_def)
next
  case (Some h)
  have q0: "q0 \<in> set (peers p)" "q0 \<notin> set qs0" using inv by (auto simp: bcast_inv_def)
  have "link_inv hist (d q0) (rs q0) (rv q0) (map wire msgs) [] (Some (h, length msgs))"
    using inv q0 by (intro link_check [OF _ len Some]) (fastforce simp: bcast_inv_def)
  with q0 Some step inv show ?thesis by (fastforce simp: bcast_inv_def)
qed

lemma bcast_inv_write:
  assumes step: "bcast_step True p msgs (Bc_Write (q0 # qs0) heads) rs = (pc', rs')" and ms: "chunk_ok p msgs"
    and inv: "bcast_inv hist d rv p msgs (Bc_Write (q0 # qs0) heads) rs"
  shows "bcast_inv hist d rv p msgs pc' rs'"
proof -
  have q0: "q0 \<in> set (peers p)" "q0 \<notin> set qs0" using inv by (auto simp: bcast_inv_def)
  then have "link_inv hist (d q0) (rs q0) (rv q0) (map wire msgs) [] (Some (heads q0, length msgs))"
    using inv by (fastforce simp: bcast_inv_def)
  from link_write [OF this chunk_ok_msgs [OF ms]] obtain w r' where
    "write_batch_at ring_cap (heads q0) msgs (rs q0) = (True, w, r')"
    "link_inv hist (d q0) r' (rv q0) (map wire msgs) (map wire msgs) (Some (heads q0, length msgs))" .
  with q0 step inv show ?thesis by (fastforce simp: bcast_inv_def)
qed

lemma bcast_inv_publish:
  assumes step: "bcast_step True p msgs (Bc_Publish (q0 # qs0) heads) rs = (pc', rs')"
    and inv: "bcast_inv hist d rv p msgs (Bc_Publish (q0 # qs0) heads) rs"
  shows "bcast_inv hist d rv p msgs pc' rs'"
proof -
  have q0: "q0 \<in> set (peers p)" "q0 \<notin> set qs0" using inv by (auto simp: bcast_inv_def)
  then have "link_inv hist (d q0) (rs q0) (rv q0) (map wire msgs) (map wire msgs) (Some (heads q0, length (map wire msgs)))"
    using inv by (fastforce simp: bcast_inv_def)
  from link_publish [OF this] q0 step inv show ?thesis by (fastforce simp: bcast_inv_def)
qed

lemma bcast_inv_step:
  assumes step: "bcast_step True p msgs pc rs = (pc', rs')" and ms: "chunk_ok p msgs"
    and inv: "bcast_inv hist d rv p msgs pc rs"
  shows "bcast_inv hist d rv p msgs pc' rs'"
proof (cases "(True, p, msgs, pc, rs)" rule: bcast_step.cases)
  case (3 running p msgs q0 qs0 heads rs)
  with bcast_inv_check step inv ms show ?thesis by (simp add: chunk_ok_def)
next
  case (5 running p msgs q0 qs0 heads rs)
  with bcast_inv_write step inv ms show ?thesis by blast
next
  case (7 running p msgs q0 qs0 heads rs)
  with bcast_inv_publish step inv show ?thesis by blast
qed (use step inv in \<open>auto simp: bcast_inv_def distinct_peers\<close>)

lemma bcast_links:
  assumes step: "bcast_step True p msgs pc rs = (pc', rs')" and ms: "chunk_ok p msgs" and ok: "bc_ok p pc"
    and links: "\<And>q. q \<in> set (peers p) \<Longrightarrow> link_inv hist (d q) (rs q) (rv q) (bc_out (map wire msgs) pc q)
      (bc_staged (map wire msgs) pc q) (bc_need (length msgs) pc q)"
  shows "bc_ok p pc'" and "\<And>q. q \<in> set (peers p) \<Longrightarrow> link_inv hist (d q) (rs' q) (rv q) (bc_out (map wire msgs) pc' q)
      (bc_staged (map wire msgs) pc' q) (bc_need (length msgs) pc' q)"
  using bcast_inv_step [OF step ms, of hist d rv] ok links unfolding bcast_inv_def by blast+

abbreviation after_submit :: "Cluster \<Rightarrow> nat \<Rightarrow> submit_pc \<Rightarrow> Bandle \<Rightarrow> (nat \<Rightarrow> SpscRing) \<Rightarrow> Cluster" where
  "after_submit c p pc n rs \<equiv>
     c\<lparr>c_sub := (c_sub c)(p := pc), c_node := (c_node c)(p := n), c_ring := (c_ring c)(p := rs),
       c_hist := (c_hist c)(p := c_hist c p @ sub_issues (c_sub c p) pc),
       c_done := (c_done c)(p := (c_done c p)(p := c_done c p p + sub_delivers (c_sub c p)))\<rparr>"

lemma full_inv_submitI:
  assumes "full_inv hash K0 c" "p \<in> set node_ids"
    and "local_inv hash K0 (after_submit c p pc n rs) p"
    and "\<And>q. q \<in> set (peers p) \<Longrightarrow> link_inv (c_hist c p @ sub_issues (c_sub c p) pc) (c_done c q p) (rs q) (c_recv c q p)
          (out_of pc (c_noop c p) q) (staged_of pc q) (need_of pc q)"
  shows "full_inv hash K0 (after_submit c p pc n rs)"
  using assms by (intro full_inv_sender [OF assms(1,2), where ws = "sub_issues (c_sub c p) pc"])
    (auto simp: pair_inv_def set_peers)

lemma full_invD:
  assumes "full_inv hash K0 c" "p \<in> set node_ids"
  shows "node_ok p (c_node c p) (c_sub c p) (c_noop c p)" "issue_inv p (c_hist c p) (c_node c p)"
    "replica_inv hash K0 (c_hist c) (c_done c p) (c_node c p)" "c_done c p p \<le> length (c_hist c p)"
    "drop (c_done c p p) (c_hist c p) = self_pending (c_sub c p) (c_noop c p)"
    "\<not> handled (c_done c p) (exec_next (c_node c p))"
    "\<And>q. q \<in> set (peers p) \<Longrightarrow> link_inv (c_hist c p) (c_done c q p) (c_ring c p q) (c_recv c q p)
          (out_of (c_sub c p) (c_noop c p) q) (staged_of (c_sub c p) q) (need_of (c_sub c p) q)"
  using assms by (auto simp: full_inv_def local_inv_def pair_inv_def set_peers)

lemma full_inv_admit:
  assumes inv: "full_inv hash K0 c" and p: "p \<in> set node_ids" and sub: "c_sub c p = Sub_Admit (ch # chs)"
    and adm: "try_assign ch (c_node c p) = Some (ms, n)"
    and short: "short ((c_hist c)(p := c_hist c p @ map wire ms))"
  shows "full_inv hash K0 (after_submit c p (Sub_Bcast ms (bcast_start ms) chs) n (c_ring c p))"
proof (rule full_inv_submitI [OF inv p])
  note D = full_invD [OF inv p]
  have node: "n_cluster_size (c_node c p) = 3" "window_ok (c_node c p)" "chunk_ok p ch" "list_all (chunk_ok p) chs"
    and np: "c_noop c p = Np_Idle"
    using D(1) sub_active_noop [OF D(1)] by (auto simp: node_ok_def sub)
  have short0: "short (c_hist c)" using short by (rule short_prefix)
  then have len: "length (c_hist c p) < 2 ^ 60" using p by (simp add: short_def)
  note iss = assign_issues [OF node(1-3) D(2) replica_inv_next_bound [OF short0 D(3)] len p adm]
  have start: "bcast_start ms = Bc_Loop (\<lambda>_. 0)" using iss(2) by (auto simp: bcast_start_def chunk_ok_def)
  have "drop (c_done c p p) (c_hist c p) = []" using D(5) by (simp add: sub np)
  then have "drop (c_done c p p) (c_hist c p @ map wire ms) = map wire ms" using D(4) by simp
  moreover have "node_ok p n (Sub_Bcast ms (Bc_Loop (\<lambda>_. 0)) chs) Np_Idle"
    using D(1) iss(1,2) node(4) by (simp add: node_ok_def sub np same_log_def window_ok_def)
  moreover have "replica_inv hash K0 ((c_hist c)(p := c_hist c p @ map wire ms)) (c_done c p) n"
    using replica_inv_issue [OF p D(3)] replica_inv_same_log [OF iss(1)] by simp
  ultimately show "local_inv hash K0 (after_submit c p (Sub_Bcast ms (bcast_start ms) chs) n (c_ring c p)) p"
    using iss(3) D(4,6) by (simp add: local_inv_def sub np start exec_next_same_log [OF iss(1)])
  show "link_inv (c_hist c p @ sub_issues (c_sub c p) (Sub_Bcast ms (bcast_start ms) chs)) (c_done c q p) (c_ring c p q)
      (c_recv c q p) (out_of (Sub_Bcast ms (bcast_start ms) chs) (c_noop c p) q)
      (staged_of (Sub_Bcast ms (bcast_start ms) chs) q) (need_of (Sub_Bcast ms (bcast_start ms) chs) q)"
    if "q \<in> set (peers p)" for q
    using D(7) [OF that] by (simp add: sub np start link_issue)
qed

lemma full_inv_bcast:
  assumes inv: "full_inv hash K0 c" and p: "p \<in> set node_ids" and sub: "c_sub c p = Sub_Bcast ms pc chs"
    and step: "bcast_step True p ms pc (c_ring c p) = (pc', rs)"
  shows "full_inv hash K0 (after_submit c p (Sub_Bcast ms pc' chs) (c_node c p) rs)"
proof (rule full_inv_submitI [OF inv p])
  note D = full_invD [OF inv p]
  have ok: "chunk_ok p ms" "bc_ok p pc" "list_all (chunk_ok p) chs" and np: "c_noop c p = Np_Idle"
    using D(1) sub_active_noop [OF D(1)] by (auto simp: node_ok_def sub)
  note links = bcast_links [OF step ok(1,2), where hist = "c_hist c p" and d = "\<lambda>q. c_done c q p" and rv = "\<lambda>q. c_recv c q p"]
  have pre: "link_inv (c_hist c p) (c_done c q p) (c_ring c p q) (c_recv c q p) (bc_out (map wire ms) pc q)
      (bc_staged (map wire ms) pc q) (bc_need (length ms) pc q)" if "q \<in> set (peers p)" for q
    using D(7) [OF that] by (simp add: sub)
  from links(1) [OF pre] show "local_inv hash K0 (after_submit c p (Sub_Bcast ms pc' chs) (c_node c p) rs) p"
    using D ok by (simp add: local_inv_def sub np node_ok_def)
  show "link_inv (c_hist c p @ sub_issues (c_sub c p) (Sub_Bcast ms pc' chs)) (c_done c q p) (rs q)
      (c_recv c q p) (out_of (Sub_Bcast ms pc' chs) (c_noop c p) q)
      (staged_of (Sub_Bcast ms pc' chs) q) (need_of (Sub_Bcast ms pc' chs) q)"
    if "q \<in> set (peers p)" for q
    using links(2) [OF pre that] by (simp add: sub)
qed

lemma full_inv_deliver:
  assumes inv: "full_inv hash K0 c" "short (c_hist c)" and p: "p \<in> set node_ids" and sub: "c_sub c p = Sub_Deliver ms chs"
  shows "full_inv hash K0 (after_submit c p (Sub_Admit chs) (fst (deliver_chunk hash ms (c_node c p))) (c_ring c p))"
proof (rule full_inv_submitI [OF inv(1) p])
  note D = full_invD [OF inv(1) p]
  have ok: "chunk_ok p ms" "list_all (chunk_ok p) chs" and np: "c_noop c p = Np_Idle"
    using D(1) sub_active_noop [OF D(1)] by (auto simp: node_ok_def sub)
  have dr: "drop (c_done c p p) (c_hist c p) = map wire ms" using D(5) by (simp add: sub np)
  then have len: "c_done c p p + length ms = length (c_hist c p)"
    using D(4) by (metis length_drop length_map le_add_diff_inverse)
  have wf: "list_all wf_msg ms" using chunk_ok_msgs [OF ok(1)] by (simp add: list_all_iff)
  note at = deliver_at [OF inv p p, of ms, unfolded dr, OF _ _ wf]
  have nok: "node_ok p (c_node c p) (Sub_Admit chs) Np_Idle" using D(1) ok by (simp add: node_ok_def sub np)
  show "local_inv hash K0 (after_submit c p (Sub_Admit chs) (fst (deliver_chunk hash ms (c_node c p))) (c_ring c p)) p"
    using at len node_ok_mono [OF nok] issue_inv_mono [OF D(2)]
    by (simp add: local_inv_def sub np deliver_chunk_def)
  show "link_inv (c_hist c p @ sub_issues (c_sub c p) (Sub_Admit chs)) (c_done c q p) (c_ring c p q)
      (c_recv c q p) (out_of (Sub_Admit chs) (c_noop c p) q) (staged_of (Sub_Admit chs) q) (need_of (Sub_Admit chs) q)"
    if "q \<in> set (peers p)" for q
    using D(7) [OF that] by (simp add: sub np)
qed

lemma after_submit_same: "c_sub c p = pc \<Longrightarrow> sub_issues pc pc = [] \<Longrightarrow> sub_delivers pc = 0 \<Longrightarrow>
  after_submit c p pc (c_node c p) (c_ring c p) = c"
  by (simp add: fun_upd_idem)

lemma full_inv_pc:
  assumes inv: "full_inv hash K0 c" and p: "p \<in> set node_ids" and act: "c_sub c p \<noteq> Sub_Idle"
    and same: "\<And>q. out_of pc Np_Idle q = out_of (c_sub c p) Np_Idle q" "\<And>q. staged_of pc q = staged_of (c_sub c p) q"
      "\<And>q. need_of pc q = need_of (c_sub c p) q" "self_pending pc Np_Idle = self_pending (c_sub c p) Np_Idle"
      "sub_issues (c_sub c p) pc = []" "sub_delivers (c_sub c p) = 0" and ok: "sub_ok p pc"
  shows "full_inv hash K0 (after_submit c p pc (c_node c p) (c_ring c p))"
proof (rule full_inv_submitI [OF inv p])
  note D = full_invD [OF inv p]
  have np: "c_noop c p = Np_Idle" using act sub_active_noop [OF D(1)] by blast
  show "local_inv hash K0 (after_submit c p pc (c_node c p) (c_ring c p)) p"
    using D same ok act by (auto simp: local_inv_def np node_ok_def fun_upd_idem)
  show "link_inv (c_hist c p @ sub_issues (c_sub c p) pc) (c_done c q p) (c_ring c p q)
      (c_recv c q p) (out_of pc (c_noop c p) q) (staged_of pc q) (need_of pc q)"
    if "q \<in> set (peers p)" for q
    using D(7) [OF that] same by (simp add: np)
qed

lemma full_inv_submit:
  assumes inv: "full_inv hash K0 c" and p: "p \<in> set node_ids"
    and step: "submit_step hash p (c_sub c p) (c_node c p) (c_ring c p) = (pc, n, rs)"
    and short: "short ((c_hist c)(p := c_hist c p @ sub_issues (c_sub c p) pc))"
  shows "full_inv hash K0 (after_submit c p pc n rs)"
proof (cases "c_sub c p")
  case Sub_Idle
  with inv step show ?thesis using after_submit_same [of c p Sub_Idle] by simp
next
  case (Sub_Admit chunks)
  show ?thesis
  proof (cases chunks)
    case Nil
    with Sub_Admit step show ?thesis using full_inv_pc [OF inv p, of Sub_Idle] by simp
  next
    case (Cons ch chs)
    show ?thesis
    proof (cases "try_assign ch (c_node c p)")
      case None
      have s: "c_sub c p = Sub_Admit (ch # chs)" using Sub_Admit Cons by simp
      from step None have "pc = Sub_Admit (ch # chs)" "n = c_node c p" "rs = c_ring c p" by (simp_all add: s)
      with after_submit_same [OF s] inv show ?thesis by simp
    next
      case (Some r)
      obtain ms n' where r: "r = (ms, n')" by fastforce
      from Sub_Admit Cons Some step r have "pc = Sub_Bcast ms (bcast_start ms) chs" "n = n'" "rs = c_ring c p" by simp_all
      with full_inv_admit [OF inv p Sub_Admit [unfolded Cons] Some [unfolded r]] short Sub_Admit Cons show ?thesis
        by simp
    qed
  qed
next
  case (Sub_Bcast ms bpc chs)
  have run: "n_running (c_node c p)" and ok: "chunk_ok p ms" "list_all (chunk_ok p) chs"
    using full_invD(1) [OF inv p] by (simp_all add: node_ok_def Sub_Bcast)
  show ?thesis
  proof (cases "bpc = Bc_Done")
    case True
    with Sub_Bcast step ok show ?thesis using full_inv_pc [OF inv p, of "Sub_Deliver ms chs"] by auto
  next
    case False
    then obtain bpc' where "bcast_step True p ms bpc (c_ring c p) = (bpc', rs)" "pc = Sub_Bcast ms bpc' chs"
      "n = c_node c p" using step Sub_Bcast run by (cases bpc) (auto split: prod.splits)
    with full_inv_bcast [OF inv p Sub_Bcast] show ?thesis by simp
  qed
next
  case (Sub_Deliver ms chs)
  have "short (c_hist c)" using short by (rule short_prefix)
  from full_inv_deliver [OF inv this p Sub_Deliver] Sub_Deliver step show ?thesis by auto
qed

text \<open>Changes of a node that neither execution nor the sequence numbers see.\<close>

lemma full_inv_inert:
  assumes inv: "full_inv hash K0 c" and p: "p \<in> set node_ids"
    and same: "n_execute_next n = n_execute_next (c_node c p)" "n_log n = n_log (c_node c p)"
      "n_log_payloads n = n_log_payloads (c_node c p)" "n_kv n = n_kv (c_node c p)"
      "n_next_seq n = n_next_seq (c_node c p)" "n_highest_proposed_seq n = n_highest_proposed_seq (c_node c p)"
    and nok: "node_ok p n pc np"
    and pcs: "self_pending pc np = self_pending (c_sub c p) (c_noop c p)"
      "\<And>q. out_of pc np q = out_of (c_sub c p) (c_noop c p) q" "\<And>q. staged_of pc q = staged_of (c_sub c p) q"
      "\<And>q. need_of pc q = need_of (c_sub c p) q"
  shows "full_inv hash K0 (c\<lparr>c_sub := (c_sub c)(p := pc), c_noop := (c_noop c)(p := np), c_node := (c_node c)(p := n)\<rparr>)"
    (is "full_inv hash K0 ?c")
proof (rule full_inv_sender [OF inv p, where ws = "[]"])
  note D = full_invD [OF inv p]
  show "local_inv hash K0 ?c p"
    using D(2-6) nok pcs(1) exec_next_def same(1) by (simp add: local_inv_def issue_inv_cong [OF same(1,5,6)] replica_inv_cong [OF same(1-4)])
  show "pair_inv ?c p q" if "q \<in> set node_ids" "q \<noteq> p" for q
    using D(7) [of q] that by (simp add: pair_inv_def set_peers pcs(2-4))
qed simp_all

lemma full_inv_input_done:
  assumes inv: "full_inv hash K0 c" and p: "p \<in> set node_ids" and sub: "c_sub c p = Sub_Idle"
  shows "full_inv hash K0 (c\<lparr>c_node := (c_node c)(p := mark_input_done (c_node c p))\<rparr>)"
proof -
  note D = full_invD [OF inv p]
  have "node_ok p (mark_input_done (c_node c p)) (c_sub c p) (c_noop c p)"
    using D(1) by (cases "c_noop c p") (auto simp: node_ok_def mark_input_done_def window_ok_def sub exec_next_def)
  from full_inv_inert [OF inv p _ _ _ _ _ _ this] show ?thesis
    by (simp add: mark_input_done_def)
qed

lemma full_inv_begin:
  assumes inv: "full_inv hash K0 c" and p: "p \<in> set node_ids" and sub: "c_sub c p = Sub_Idle"
    and open_input: "\<not> n_input_done (c_node c p)"
    and reqs: "\<forall>req\<in>set reqs. req_ok req" "\<forall>j. length (scratch j) = kMaxValueBytes"
    and start: "submit_begin scratch reqs (c_node c p) = (pc, n)"
  shows "full_inv hash K0 (c\<lparr>c_sub := (c_sub c)(p := pc), c_node := (c_node c)(p := n)\<rparr>)"
proof -
  note D = full_invD [OF inv p]
  have np: "c_noop c p = Np_Idle" using D(1) open_input by (auto simp: node_ok_def)
  have id: "n_node_id (c_node c p) = of_nat p" using D(1) by (simp add: node_ok_def)
  obtain msgs n1 where build: "build_proposals scratch reqs 0 (c_node c p) = (msgs, n1)" by fastforce
  have ok: "list_all (prop_ok p) msgs" using build_proposals_ok [OF id reqs, of 0] build by simp
  obtain bad where n1: "n1 = (c_node c p)\<lparr>n_error_ops := n_error_ops (c_node c p) + bad,
      n_total_ops := n_total_ops (c_node c p) + bad\<rparr>"
    using build that by (auto simp: build_proposals_spec)
  have win: "unat (n_admission_batch n1) \<le> 10921" using D(1) n1 by (simp add: node_ok_def window_ok_def)
  have "chunk_ok p ch" if "ch \<in> set (admission_chunks n1 msgs)" for ch
    using split_chunks_sizes [of ch] that ok win admission_batch_capacity_bounds(2) [of "length msgs" "n_admission_batch n1"]
    by (fastforce simp: admission_chunks_def chunk_ok_def list_all_iff)
  then have "sub_ok p pc" using start build by (auto simp: submit_begin_def list_all_iff split: if_splits)
  moreover have n: "n = c_node c p \<or> n = n1" using start build by (auto simp: submit_begin_def split: if_splits)
  ultimately have nok: "node_ok p n pc (c_noop c p)" using D(1) open_input by (auto simp: node_ok_def window_ok_def n1 np)
  have "pc = Sub_Idle \<or> (\<exists>chs. pc = Sub_Admit chs)"
    using start build by (auto simp: submit_begin_def split: if_splits)
  then have pcs: "self_pending pc (c_noop c p) = []" "out_of pc (c_noop c p) q = []" "staged_of pc q = []"
    "need_of pc q = None" for q by (auto simp: np)
  have same: "n_execute_next n = n_execute_next (c_node c p)" "n_log n = n_log (c_node c p)"
      "n_log_payloads n = n_log_payloads (c_node c p)" "n_kv n = n_kv (c_node c p)"
      "n_next_seq n = n_next_seq (c_node c p)" "n_highest_proposed_seq n = n_highest_proposed_seq (c_node c p)"
    using n by (auto simp: n1)
  have "self_pending (c_sub c p) (c_noop c p) = []" "out_of (c_sub c p) (c_noop c p) q = []"
    "staged_of (c_sub c p) q = []" "need_of (c_sub c p) q = None" for q by (simp_all add: sub np)
  with full_inv_inert [OF inv p same nok] pcs show ?thesis by simp
qed

section \<open>No-op steps\<close>

abbreviation after_noop :: "Cluster \<Rightarrow> nat \<Rightarrow> noop_pc \<Rightarrow> Bandle \<Rightarrow> (nat \<Rightarrow> SpscRing) \<Rightarrow> Cluster" where
  "after_noop c p pc n rs \<equiv>
     c\<lparr>c_noop := (c_noop c)(p := pc), c_node := (c_node c)(p := n), c_ring := (c_ring c)(p := rs),
       c_hist := (c_hist c)(p := c_hist c p @ noop_issues (c_noop c p)),
       c_done := (c_done c)(p := (c_done c p)(p := c_done c p p + noop_delivers (c_noop c p)))\<rparr>"

lemma full_inv_noopI:
  assumes "full_inv hash K0 c" "p \<in> set node_ids"
    and "local_inv hash K0 (after_noop c p pc n rs) p"
    and "\<And>q. q \<in> set (peers p) \<Longrightarrow> link_inv (c_hist c p @ noop_issues (c_noop c p)) (c_done c q p) (rs q) (c_recv c q p)
          (out_of (c_sub c p) pc q) (staged_of (c_sub c p) q) (need_of (c_sub c p) q)"
  shows "full_inv hash K0 (after_noop c p pc n rs)"
  using assms by (intro full_inv_sender [OF assms(1,2), where ws = "noop_issues (c_noop c p)"])
    (auto simp: pair_inv_def set_peers)

lemma noop_active_sub: "node_ok p n sub np \<Longrightarrow> np \<noteq> Np_Idle \<Longrightarrow> sub = Sub_Idle \<and> n_input_done n"
  by (auto simp: node_ok_def)

lemma noop_guard:
  assumes "should_propose_noop_locked now fin n" "n_cluster_size n = 3" "exec_next n \<le> 2 ^ 62"
  shows "n_input_done n" "unat (n_highest_proposed_seq n) < exec_next n + 1536"
proof -
  have "unat (n_execute_next n + 1536) = exec_next n + 1536" using assms(3) by (simp add: unat_word_ariths exec_next_def)
  with assms show "n_input_done n" "unat (n_highest_proposed_seq n) < exec_next n + 1536"
    by (simp_all add: should_propose_noop_locked_def word_less_nat_alt)
qed

lemma noop_message_ok: "n_node_id n = of_nat p \<Longrightarrow> prop_ok p (noop_message n)"
  using wf_default_message
  by (simp add: prop_ok_def noop_message_def wf_msg_def fits_def msg_bytes_def payload_bytes_def
      default_message_def default_payload_def)

lemma noop_reserve_issues:
  assumes ok: "noop_ok p n (Np_Reserve msg)" and inv: "issue_inv p h n" "1 \<le> exec_next n"
    and p: "p \<in> set node_ids" and n: "n_cluster_size n = 3" and len: "length h < 2 ^ 60"
  shows "issue_inv p (h @ [wire msg]) (noop_reserve now n)"
proof (rule issue_append [OF inv(1)])
  have p3: "p \<le> 3" using p by (auto simp: node_ids_def)
  have seq: "unat (n_next_seq n) = seq_of p (length h)" using inv(1) by (simp add: issue_inv_def)
  then have "unat (n_next_seq n) \<le> 2 ^ 62" using len p3 by (simp add: seq_of_def)
  then show "unat (n_next_seq (noop_reserve now n)) = seq_of p (length h + length [wire msg])"
    using seq by (simp add: noop_reserve_def n unat_word_ariths seq_of_def)
  have "b_seq (m_body msg) = of_nat (seq_of p (length h))" using ok arg_cong [OF seq, of "of_nat :: nat \<Rightarrow> u64"] by simp
  then show "\<forall>i<length [wire msg]. good_msg p (length h + i) ([wire msg] ! i)"
    using ok by (simp add: good_msg_def prop_ok_def)
  have "n_highest_proposed_seq n \<le> n_next_seq n"
    using inv(1) by (auto simp: issue_inv_def word_le_nat_alt seq_of_def split: if_splits)
  then show "unat (n_highest_proposed_seq (noop_reserve now n)) = seq_of p (length h + length [wire msg] - 1)"
    using seq by (simp add: noop_reserve_def max_def)
  show "seq_of p (length h + length [wire msg] - 1) < exec_next n + 32766"
    using ok inv p3 by (cases h) (auto simp: issue_inv_def seq_of_def)
qed (simp_all add: noop_reserve_def exec_next_def)

lemma full_inv_reserve:
  assumes inv: "full_inv hash K0 c" and p: "p \<in> set node_ids" and np: "c_noop c p = Np_Reserve msg"
    and short: "short ((c_hist c)(p := c_hist c p @ [wire msg]))"
  shows "full_inv hash K0 (after_noop c p (Np_Send msg (peers p)) (noop_reserve now (c_node c p)) (c_ring c p))"
proof (rule full_inv_noopI [OF inv p])
  note D = full_invD [OF inv p]
  let ?n = "noop_reserve now (c_node c p)"
  have sub: "c_sub c p = Sub_Idle" using noop_active_sub [OF D(1)] np by simp
  have ok: "noop_ok p (c_node c p) (Np_Reserve msg)" "n_cluster_size (c_node c p) = 3"
    using D(1) by (simp_all add: node_ok_def np)
  have "length (c_hist c p) < 2 ^ 60" using short_prefix [OF short] p by (simp add: short_def)
  with noop_reserve_issues [OF ok(1) D(2) _ p ok(2)] D(3)
  have iss: "issue_inv p (c_hist c p @ [wire msg]) ?n" by (simp add: replica_inv_def)
  have "drop (c_done c p p) (c_hist c p) = []" using D(5) by (simp add: sub np)
  then have dr: "drop (c_done c p p) (c_hist c p @ [wire msg]) = [wire msg]" using D(4) by simp
  have "node_ok p ?n Sub_Idle (Np_Send msg (peers p))"
    using D(1) ok(1) by (simp add: node_ok_def np sub noop_reserve_def window_ok_def distinct_peers)
  moreover have "replica_inv hash K0 ((c_hist c)(p := c_hist c p @ [wire msg])) (c_done c p) ?n"
    using replica_inv_issue [OF p D(3)] by (subst replica_inv_cong) (simp_all add: noop_reserve_def)
  ultimately show "local_inv hash K0 (after_noop c p (Np_Send msg (peers p)) ?n (c_ring c p)) p"
    using iss D(4,6) dr by (simp add: local_inv_def sub np noop_reserve_def exec_next_def)
  show "link_inv (c_hist c p @ noop_issues (c_noop c p)) (c_done c q p) (c_ring c p q) (c_recv c q p)
          (out_of (c_sub c p) (Np_Send msg (peers p)) q) (staged_of (c_sub c p) q) (need_of (c_sub c p) q)"
    if "q \<in> set (peers p)" for q
    using D(7) [OF that] that by (simp add: sub np link_issue)
qed

lemma full_inv_send:
  assumes inv: "full_inv hash K0 c" and p: "p \<in> set node_ids" and np: "c_noop c p = Np_Send msg (q0 # qs)"
    and push: "send_to_peer msg (c_ring c p q0) = (ok, r)"
  shows "full_inv hash K0 (after_noop c p (Np_Send msg (if ok then qs else q0 # qs)) (c_node c p) ((c_ring c p)(q0 := r)))"
proof (rule full_inv_noopI [OF inv p])
  note D = full_invD [OF inv p]
  let ?pc = "Np_Send msg (if ok then qs else q0 # qs)"
  have sub: "c_sub c p = Sub_Idle" using noop_active_sub [OF D(1)] np by simp
  have m: "wf_msg msg" "fits msg" "q0 \<in> set (peers p)" "q0 \<notin> set qs"
    using D(1) by (auto simp: node_ok_def np prop_ok_def)
  show "local_inv hash K0 (after_noop c p ?pc (c_node c p) ((c_ring c p)(q0 := r))) p"
    using D by (auto simp: local_inv_def sub np node_ok_def)
  show "link_inv (c_hist c p @ noop_issues (c_noop c p)) (c_done c q p) (((c_ring c p)(q0 := r)) q) (c_recv c q p)
          (out_of (c_sub c p) ?pc q) (staged_of (c_sub c p) q) (need_of (c_sub c p) q)"
    if "q \<in> set (peers p)" for q
  proof (cases "q = q0")
    case True
    have "link_inv (c_hist c p) (c_done c q0 p) (c_ring c p q0) (c_recv c q0 p) [wire msg] [] None"
      using D(7) [OF m(3)] by (simp add: sub np)
    from link_push [OF this m(1,2)] push True m(4) show ?thesis by (auto simp: send_to_peer_def sub np)
  next
    case False
    with D(7) [OF that] show ?thesis by (auto simp: sub np)
  qed
qed

lemma full_inv_noop_deliver:
  assumes inv: "full_inv hash K0 c" "short (c_hist c)" and p: "p \<in> set node_ids" and np: "c_noop c p = Np_Deliver msg"
  shows "full_inv hash K0 (after_noop c p Np_Idle (fst (handle_proposal_locked hash msg True (c_node c p))) (c_ring c p))"
proof (rule full_inv_noopI [OF inv(1) p])
  note D = full_invD [OF inv(1) p]
  have sub: "c_sub c p = Sub_Idle" using noop_active_sub [OF D(1)] np by simp
  have dr: "drop (c_done c p p) (c_hist c p) = map wire [msg]" using D(5) by (simp add: sub np)
  then have len: "c_done c p p + length [msg] = length (c_hist c p)"
    using D(4) by (metis length_drop length_map le_add_diff_inverse)
  have wf: "list_all wf_msg [msg]" using D(1) by (simp add: node_ok_def np prop_ok_def)
  note at = deliver_at [OF inv p p, of "[msg]", unfolded dr, OF _ _ wf]
  have nok: "node_ok p (c_node c p) Sub_Idle Np_Idle" using D(1) by (simp add: node_ok_def np)
  show "local_inv hash K0 (after_noop c p Np_Idle (fst (handle_proposal_locked hash msg True (c_node c p))) (c_ring c p)) p"
    using at len node_ok_mono [OF nok] issue_inv_mono [OF D(2)]
    by (simp add: local_inv_def sub np handle_proposal_advance)
  show "link_inv (c_hist c p @ noop_issues (c_noop c p)) (c_done c q p) (c_ring c p q) (c_recv c q p)
          (out_of (c_sub c p) Np_Idle q) (staged_of (c_sub c p) q) (need_of (c_sub c p) q)"
    if "q \<in> set (peers p)" for q
    using D(7) [OF that] by (simp add: sub np)
qed

lemma full_inv_noop_pc:
  assumes inv: "full_inv hash K0 c" and p: "p \<in> set node_ids" and sub: "c_sub c p = Sub_Idle"
    and inp: "n_input_done (c_node c p)" "noop_ok p (c_node c p) pc"
    and same: "\<And>q. out_of Sub_Idle pc q = out_of Sub_Idle (c_noop c p) q"
      "self_pending Sub_Idle pc = self_pending Sub_Idle (c_noop c p)"
      "noop_issues (c_noop c p) = []" "noop_delivers (c_noop c p) = 0"
  shows "full_inv hash K0 (after_noop c p pc (c_node c p) (c_ring c p))"
proof (rule full_inv_noopI [OF inv p])
  note D = full_invD [OF inv p]
  show "local_inv hash K0 (after_noop c p pc (c_node c p) (c_ring c p)) p"
    using D same inp by (auto simp: local_inv_def sub node_ok_def)
  show "link_inv (c_hist c p @ noop_issues (c_noop c p)) (c_done c q p) (c_ring c p q) (c_recv c q p)
          (out_of (c_sub c p) pc q) (staged_of (c_sub c p) q) (need_of (c_sub c p) q)"
    if "q \<in> set (peers p)" for q
    using D(7) [OF that] same by (simp add: sub)
qed

lemma full_inv_noop:
  assumes inv: "full_inv hash K0 c" and p: "p \<in> set node_ids"
    and step: "noop_step hash p now fin (c_noop c p) (c_node c p) (c_ring c p) = (pc, n, rs)"
    and short: "short ((c_hist c)(p := c_hist c p @ noop_issues (c_noop c p)))"
  shows "full_inv hash K0 (after_noop c p pc n rs)"
proof -
  note D = full_invD [OF inv p]
  note short0 = short_prefix [OF short]
  have node: "n_running (c_node c p)" "n_cluster_size (c_node c p) = 3" "n_node_id (c_node c p) = of_nat p"
    using D(1) by (simp_all add: node_ok_def)
  note active = noop_active_sub [OF D(1)]
  show ?thesis
  proof (cases "c_noop c p")
    case Np_Idle
    show ?thesis
    proof (cases "should_propose_noop_locked now fin (c_node c p)")
      case True
      note guard = noop_guard [OF True node(2) replica_inv_next_bound [OF short0 D(3)]]
      have "c_sub c p = Sub_Idle" using D(1) guard(1) by (simp add: node_ok_def)
      from full_inv_noop_pc [OF inv p this guard(1), of Np_Read] guard Np_Idle step True node show ?thesis by auto
    next
      case False
      with Np_Idle step have "pc = c_noop c p" "n = c_node c p" "rs = c_ring c p" by simp_all
      moreover have "noop_issues (c_noop c p) = []" "noop_delivers (c_noop c p) = 0" by (simp_all add: Np_Idle)
      ultimately show ?thesis using inv by simp
    qed
  next
    case Np_Read
    then have "c_sub c p = Sub_Idle" "n_input_done (c_node c p)" using active by simp_all
    from full_inv_noop_pc [OF inv p this, of "Np_Reserve (noop_message (c_node c p))"] noop_message_ok [OF node(3)] D(1)
      Np_Read step show ?thesis by (auto simp: node_ok_def noop_message_def)
  next
    case (Np_Reserve msg)
    with full_inv_reserve [OF inv p Np_Reserve, of now] short step show ?thesis by auto
  next
    case (Np_Send msg qs)
    then have act: "c_sub c p = Sub_Idle" "n_input_done (c_node c p)" using active by simp_all
    show ?thesis
    proof (cases qs)
      case Nil
      from full_inv_noop_pc [OF inv p act, of "Np_Deliver msg"] D(1) Np_Send Nil step show ?thesis
        by (auto simp: node_ok_def)
    next
      case (Cons q0 qs0)
      obtain ok r where "send_to_peer msg (c_ring c p q0) = (ok, r)" by fastforce
      with full_inv_send [OF inv p Np_Send [unfolded Cons]] Np_Send Cons step node(1) show ?thesis by auto
    qed
  next
    case (Np_Deliver msg)
    with full_inv_noop_deliver [OF inv short0 p Np_Deliver] step show ?thesis by auto
  qed
qed

end
