(* ===== verification/Cluster_Properties.thy ===== *)
theory Cluster_Properties
  imports Bandle_Cluster
begin

text \<open>
  The invariant of the cluster holds in every reachable state, and what follows from it: replicas execute
  the same operations in the same order, no proposal in flight is lost from a log, and replicas that have
  caught up hold the same data.
\<close>

section \<open>Every step keeps the invariant\<close>

lemma full_inv_step:
  assumes "cluster_step hash c c'" "full_inv hash K0 c" "short (c_hist c')"
  shows "full_inv hash K0 c'"
  using assms
proof (cases rule: cluster_step.cases)
  case (begin_submit p reqs scratch pc n)
  with assms(2) show ?thesis by (auto intro: full_inv_begin)
next
  case (submit p pc n rs)
  with full_inv_submit [OF assms(2) submit(2,3)] assms(3) show ?thesis by simp
next
  case (input_done p)
  with assms(2) show ?thesis by (auto intro: full_inv_input_done)
next
  case (noop p now fin pc n rs)
  with full_inv_noop [OF assms(2) noop(2,3)] assms(3) show ?thesis by simp
next
  case (recv p q buf pc n r)
  with full_inv_recv [OF assms(2) _ recv(2-6)] assms(3) show ?thesis by simp
qed

lemma step_history:
  assumes "cluster_step hash c c'"
  shows "\<exists>p ws. c_hist c' = (c_hist c)(p := c_hist c p @ ws)"
  using assms
proof (cases rule: cluster_step.cases)
  case (submit p pc n rs)
  then show ?thesis by (intro exI [of _ p] exI [of _ "sub_issues (c_sub c p) pc"]) simp
next
  case (noop p now fin pc n rs)
  then show ?thesis by (intro exI [of _ p] exI [of _ "noop_issues (c_noop c p)"]) simp
qed (intro exI [of _ 0] exI [of _ "[]"], simp)+

lemma cluster_inv_step:
  assumes inv: "cluster_inv hash K0 c" and step: "cluster_step hash c c'"
  shows "cluster_inv hash K0 c'"
  unfolding cluster_inv_def
proof
  assume short: "short (c_hist c')"
  obtain p ws where "c_hist c' = (c_hist c)(p := c_hist c p @ ws)" using step_history [OF step] by blast
  with short have "short (c_hist c)" using short_prefix [of "c_hist c" p ws] by simp
  with inv have "full_inv hash K0 c" by (simp add: cluster_inv_def)
  with step show "full_inv hash K0 c'" using short by (rule full_inv_step)
qed

section \<open>Starting states\<close>

lemma bandle_new_fields:
  assumes new: "bandle_new node_id cs poll us batch workers window adm tsc = Some m"
  shows "n_node_id m = node_id" "n_cluster_size m = cs" "\<not> n_running m" "\<not> n_input_done m"
    "n_next_seq m = node_id" "n_highest_proposed_seq m = 0" "n_execute_next m = 1"
    "n_log m = (\<lambda>_. empty_log_entry)" "length (n_log_payloads m idx) = kMaxValueBytes"
proof -
  have "bandle_new node_id cs poll us batch workers window adm tsc = None" if "cs \<noteq> 3 \<or> node_id < 1 \<or> cs < node_id"
    unfolding bandle_new_def if_P [OF that] ..
  with new have ok: "\<not> (cs \<noteq> 3 \<or> node_id < 1 \<or> cs < node_id)" by force
  note new [unfolded bandle_new_def if_not_P [OF ok] option.inject, symmetric]
  then show "n_node_id m = node_id" "n_cluster_size m = cs" "\<not> n_running m" "\<not> n_input_done m"
    "n_next_seq m = node_id" "n_highest_proposed_seq m = 0" "n_execute_next m = 1"
    "n_log m = (\<lambda>_. empty_log_entry)" "length (n_log_payloads m idx) = kMaxValueBytes"
    by simp_all
qed

lemma initial_node_fields:
  assumes "initial_node hash K0 p n"
  shows "n_node_id n = of_nat p" "n_cluster_size n = 3" "n_running n" "window_ok n" "\<not> n_input_done n"
    "n_next_seq n = of_nat p" "n_highest_proposed_seq n = 0" "n_execute_next n = 1"
    "n_log n = (\<lambda>_. empty_log_entry)" "length (n_log_payloads n idx) = kMaxValueBytes"
    "kv_wf hash (n_kv n)" "kv_lookup hash (n_kv n) = K0"
proof -
  obtain poll us batch workers window adm tsc kv now m where
    m: "bandle_new (of_nat p) 3 poll us batch workers window adm tsc = Some m"
    and n: "n = bandle_start now (m\<lparr>n_kv := kv\<rparr>)" "kv_wf hash kv" "kv_lookup hash kv = K0" "window_ok n"
    using assms unfolding initial_node_def by (elim exE conjE)
  have fields: "n_node_id m = of_nat p" "n_cluster_size m = 3" "\<not> n_running m" "\<not> n_input_done m"
    "n_next_seq m = of_nat p" "n_highest_proposed_seq m = 0" "n_execute_next m = 1"
    "n_log m = (\<lambda>_. empty_log_entry)" "length (n_log_payloads m idx) = kMaxValueBytes" for idx
    using bandle_new_fields [OF m] by simp_all
  show "n_node_id n = of_nat p" "n_cluster_size n = 3" "n_running n" "window_ok n" "\<not> n_input_done n"
    "n_next_seq n = of_nat p" "n_highest_proposed_seq n = 0" "n_execute_next n = 1"
    "n_log n = (\<lambda>_. empty_log_entry)" "length (n_log_payloads n idx) = kMaxValueBytes"
    "kv_wf hash (n_kv n)" "kv_lookup hash (n_kv n) = K0"
    using n fields by (simp_all add: bandle_start_def)
qed

lemma initial_replica:
  assumes "initial_node hash K0 p n"
  shows "replica_inv hash K0 (\<lambda>_. []) (\<lambda>_. 0) n"
  using initial_node_fields [OF assms]
  by (simp add: replica_inv_def log_inv_def kv_inv_def handled_def exec_next_def empty_log_entry_def issued_ops_def)

lemma empty_link: "ring_rep ring_cap r [] \<Longrightarrow> link_inv [] 0 r Rv_Idle [] [] None"
  by (rule link_invI [where q = "[]"]) (simp_all add: ring_inv_def, simp add: ring_rep_def)

lemma cluster_inv_init:
  assumes init: "cluster_init hash K0 c"
  shows "cluster_inv hash K0 c"
proof -
  have hist: "c_hist c = (\<lambda>_. [])" and d: "c_done c p = (\<lambda>_. 0)" for p
    using init by (auto simp: cluster_init_def fun_eq_iff)
  have "local_inv hash K0 c p" if p: "p \<in> set node_ids" for p
  proof -
    have node: "initial_node hash K0 p (c_node c p)" using init p by (simp add: cluster_init_def)
    note f = initial_node_fields [OF node]
    have "unat (of_nat p :: u64) = p" using p by (intro unat_of_nat_u64) (auto simp: node_ids_def)
    then have "issue_inv p [] (c_node c p)" using f by (simp add: issue_inv_def seq_of_def)
    then show ?thesis
      using init f initial_replica [OF node]
      by (simp add: local_inv_def cluster_init_def node_ok_def hist d handled_def)
  qed
  moreover have "pair_inv c p q" for p q
    using init empty_link by (simp add: pair_inv_def cluster_init_def)
  ultimately show ?thesis by (simp add: cluster_inv_def full_inv_def)
qed

text \<open>The protocol meets the interface of invariants.\<close>

interpretation cluster: step_invariant "cluster_init hash K0" "cluster_step hash" "cluster_inv hash K0" for hash K0
  by unfold_locales (auto intro: cluster_inv_init cluster_inv_step)

abbreviation reachable :: "(string \<Rightarrow> u64) \<Rightarrow> (string \<rightharpoonup> string) \<Rightarrow> Cluster \<Rightarrow> bool" where
  "reachable hash K0 \<equiv> reach (cluster_init hash K0) (cluster_step hash)"

lemma reachable_inv: "reachable hash K0 c \<Longrightarrow> short (c_hist c) \<Longrightarrow> full_inv hash K0 c"
  using cluster.inv_reach [of hash K0 c] by (simp add: cluster_inv_def)

section \<open>Agreement\<close>

lemma issued_ops_prefix: "\<exists>rest. issued_ops hash hist (k + j) = issued_ops hash hist k @ rest"
proof (induction j)
  case (Suc j)
  then show ?case using issued_ops_Suc [of hash hist "k + j"] by auto
qed simp

text \<open>Property C1: state machine replication. In every reachable state the store of a replica is the
  initial contents after the operations of the sequence numbers below its \<open>execute_next_\<close>, taken in that
  order; so what a replica that is behind has executed is a prefix of what any other has executed, and two
  replicas that have executed equally far hold the same data.\<close>

theorem replicas_agree:
  assumes "reachable hash K0 c" "short (c_hist c)" "p \<in> set node_ids" "q \<in> set node_ids"
    and "exec_next (c_node c p) \<le> exec_next (c_node c q)"
  shows "kv_lookup hash (n_kv (c_node c p)) = fold spec_one (issued_ops hash (c_hist c) (exec_next (c_node c p) - 1)) K0 \<and>
    (\<exists>rest. issued_ops hash (c_hist c) (exec_next (c_node c q) - 1)
              = issued_ops hash (c_hist c) (exec_next (c_node c p) - 1) @ rest \<and>
            kv_lookup hash (n_kv (c_node c q)) = fold spec_one rest (kv_lookup hash (n_kv (c_node c p)))) \<and>
    (exec_next (c_node c p) = exec_next (c_node c q) \<longrightarrow>
       kv_lookup hash (n_kv (c_node c q)) = kv_lookup hash (n_kv (c_node c p)))"
proof -
  let ?ops = "\<lambda>x. issued_ops hash (c_hist c) (exec_next (c_node c x) - 1)"
  note inv = reachable_inv [OF assms(1,2)]
  have kv: "kv_lookup hash (n_kv (c_node c x)) = fold spec_one (?ops x) K0" "1 \<le> exec_next (c_node c x)"
    if "x \<in> set node_ids" for x
    using full_invD(3) [OF inv that] by (simp_all add: replica_inv_def kv_inv_def)
  obtain j where "exec_next (c_node c q) - 1 = exec_next (c_node c p) - 1 + j"
    using assms(5) by (metis diff_le_mono le_Suc_ex)
  then obtain rest where rest: "?ops q = ?ops p @ rest" using issued_ops_prefix by metis
  show ?thesis
  proof (intro conjI impI exI [of _ rest])
    show "kv_lookup hash (n_kv (c_node c q)) = fold spec_one rest (kv_lookup hash (n_kv (c_node c p)))"
      by (simp only: kv(1) [OF assms(3)] kv(1) [OF assms(4)] rest fold_append comp_apply)
    show "kv_lookup hash (n_kv (c_node c q)) = kv_lookup hash (n_kv (c_node c p))"
      if "exec_next (c_node c p) = exec_next (c_node c q)"
      by (simp only: kv(1) [OF assms(3)] kv(1) [OF assms(4)] that)
  qed (rule kv(1) [OF assms(3)] rest)+
qed

text \<open>Property C3: proposals in flight stay in the log. A sequence number that any node has issued is less
  than 65536 ahead of every replica's \<open>execute_next_\<close>, so it never shares a log slot with another one in
  flight; and once a replica has handled a proposal, its log holds it, decided and intact, until it is
  executed.\<close>

theorem no_proposal_lost:
  assumes "reachable hash K0 c" "short (c_hist c)" "p \<in> set node_ids" "q \<in> set node_ids"
    and "i < length (c_hist c p)"
  shows "seq_of p i < exec_next (c_node c q) + 65536 \<and>
    (i < c_done c q p \<and> exec_next (c_node c q) \<le> seq_of p i \<longrightarrow>
       entry_holds hash (seq_of p i) (c_hist c p ! i) (n_log (c_node c q) (log_slot (of_nat (seq_of p i))))
         (n_log_payloads (c_node c q) (log_slot (of_nat (seq_of p i)))))"
proof -
  note inv = reachable_inv [OF assms(1,2)]
  note win = in_flight_window [OF inv assms(3-5)]
  have log: "log_inv hash (c_hist c) (c_done c q) (c_node c q)"
    using full_invD(3) [OF inv assms(4)] by (simp add: replica_inv_def)
  have "issued (c_hist c) (seq_of p i) = c_hist c p ! i" "handled (c_done c q) (seq_of p i) \<longleftrightarrow> i < c_done c q p"
    using split_seq_of [OF assms(3), of i] by (simp_all add: issued_def handled_def)
  with win log_invD(1) [OF log _ win] show ?thesis by simp
qed

text \<open>Property C12: sequence numbers are used once. No two proposals issued in a run, by the same or by
  different nodes, as client requests or as no-ops, carry the same sequence number.\<close>

theorem sequence_numbers_unique:
  assumes "reachable hash K0 c" "short (c_hist c)" "p \<in> set node_ids" "q \<in> set node_ids"
    and "i < length (c_hist c p)" "j < length (c_hist c q)"
    and "b_seq (m_body (c_hist c p ! i)) = b_seq (m_body (c_hist c q ! j))"
  shows "p = q \<and> i = j"
proof -
  note inv = reachable_inv [OF assms(1,2)]
  have bound: "seq_of x k < 2 ^ 64" if "x \<in> set node_ids" "k < length (c_hist c x)" for x k
  proof -
    have "x \<le> 3" "length (c_hist c x) < 2 ^ 60"
      using that(1) assms(2) by (auto simp: short_def node_ids_def)
    with that(2) show ?thesis by (simp add: seq_of_def)
  qed
  have "of_nat (seq_of p i) = (of_nat (seq_of q j) :: u64)"
    using issue_inv_good [OF full_invD(2) [OF inv assms(3)] assms(5)]
      issue_inv_good [OF full_invD(2) [OF inv assms(4)] assms(6)] assms(7) by (simp add: good_msg_def)
  then have "seq_of p i = seq_of q j"
    using unat_of_nat_u64 bound [OF assms(3,5)] bound [OF assms(4,6)] by metis
  then show ?thesis using seq_of_inj [OF assms(3,4)] by simp
qed

text \<open>Property C10: links deliver in order. Between two nodes, what a proposer has issued is what the
  receiver has handled, followed by the batch it is handling, the messages in the ring and those the
  proposer is about to publish: nothing is lost, duplicated or reordered by the concurrent accesses of
  sender and receiver.\<close>

theorem links_deliver_in_order:
  assumes "reachable hash K0 c" "short (c_hist c)" "p \<in> set node_ids" "q \<in> set node_ids" "p \<noteq> q"
  shows "\<exists>queue. ring_rep kBandleRingCapacity (c_ring c p q) queue \<and>
    c_hist c p = take (c_done c q p) (c_hist c p) @ recv_pending (c_recv c q p) @ queue @
                 out_of (c_sub c p) (c_noop c p) q \<and>
    c_done c q p \<le> length (c_hist c p)"
proof -
  note inv = reachable_inv [OF assms(1,2)]
  have "q \<in> set (peers p)" using assms(4,5) by (simp add: set_peers)
  from full_invD(7) [OF inv assms(3) this] show ?thesis
    unfolding link_inv_def ring_inv_def by (metis append_take_drop_id)
qed

section \<open>Convergence\<close>

definition quiescent :: "Cluster \<Rightarrow> bool" where
  "quiescent c \<longleftrightarrow>
     (\<forall>p\<in>set node_ids. c_sub c p = Sub_Idle \<and> c_noop c p = Np_Idle) \<and>
     (\<forall>p\<in>set node_ids. \<forall>q\<in>set node_ids. c_recv c q p = Rv_Idle \<and> r_head (c_ring c p q) = r_tail (c_ring c p q))"

definition was_issued :: "history \<Rightarrow> nat \<Rightarrow> bool" where
  "was_issued hist s \<longleftrightarrow> index_of s < length (hist (proposer_of s))"

lemma quiescent_handled:
  assumes inv: "full_inv hash K0 c" and quiet: "quiescent c" and pq: "p \<in> set node_ids" "q \<in> set node_ids"
  shows "c_done c q p = length (c_hist c p)"
proof (cases "p = q")
  case True
  have "drop (c_done c p p) (c_hist c p) = []" using full_invD(5) [OF inv pq(1)] quiet pq by (simp add: quiescent_def)
  with full_invD(4) [OF inv pq(1)] True show ?thesis by simp
next
  case False
  then have "q \<in> set (peers p)" using pq by (simp add: set_peers)
  from full_invD(7) [OF inv pq(1) this] quiet pq obtain queue where
    "ring_rep ring_cap (c_ring c p q) queue" "drop (c_done c q p) (c_hist c p) = queue" "c_done c q p \<le> length (c_hist c p)"
    by (auto simp: link_inv_def ring_inv_def quiescent_def)
  with quiet pq show ?thesis by (simp add: ring_rep_def quiescent_def)
qed

text \<open>Property C2: replicas converge. When no thread has work in hand and the rings are empty, every
  replica has executed exactly the sequence numbers before the first one that its owner has not issued yet;
  so all replicas have executed equally far and hold the same data.\<close>

theorem quiescent_convergence:
  assumes "reachable hash K0 c" "short (c_hist c)" "quiescent c" "p \<in> set node_ids" "q \<in> set node_ids"
  shows "(\<forall>s. 1 \<le> s \<longrightarrow> (s < exec_next (c_node c p) \<longleftrightarrow> (\<forall>t. 1 \<le> t \<and> t \<le> s \<longrightarrow> was_issued (c_hist c) t))) \<and>
    exec_next (c_node c p) = exec_next (c_node c q) \<and>
    kv_lookup hash (n_kv (c_node c p)) = kv_lookup hash (n_kv (c_node c q))"
proof -
  note inv = reachable_inv [OF assms(1,2)]
  have h: "handled (c_done c x) s \<longleftrightarrow> was_issued (c_hist c) s" if "x \<in> set node_ids" for x s
    using quiescent_handled [OF inv assms(3) _ that] by (simp add: handled_def was_issued_def)
  have below: "was_issued (c_hist c) s" if "x \<in> set node_ids" "1 \<le> s" "s < exec_next (c_node c x)" for x s
    using full_invD(3) [OF inv that(1)] that h [OF that(1)] by (simp add: replica_inv_def)
  have at: "\<not> was_issued (c_hist c) (exec_next (c_node c x))" "1 \<le> exec_next (c_node c x)" if "x \<in> set node_ids" for x
    using full_invD(3,6) [OF inv that] h [OF that] by (simp_all add: replica_inv_def)
  have eq: "exec_next (c_node c p) = exec_next (c_node c q)"
    using below at assms(4,5) by (metis linorder_neqE_nat)
  moreover have "s < exec_next (c_node c p) \<longleftrightarrow> (\<forall>t. 1 \<le> t \<and> t \<le> s \<longrightarrow> was_issued (c_hist c) t)" if "1 \<le> s" for s
    using below [OF assms(4)] at [OF assms(4)] by (meson le_less_trans not_le)
  moreover have "kv_inv hash K0 (c_hist c) (c_node c x)" if "x \<in> set node_ids" for x
    using full_invD(3) [OF inv that] by (simp add: replica_inv_def)
  ultimately show ?thesis using assms(4,5) by (simp add: kv_inv_def)
qed

section \<open>A concrete run\<close>

text \<open>Three nodes with the default parameters and an empty store; node 1 has no input and issues a no-op.\<close>

definition demo_node :: "nat \<Rightarrow> Bandle" where
  "demo_node p = bandle_start 0 (the (bandle_new (of_nat p) 3 0 0 64 1 192 32 (\<lambda>_. 0)))"

definition demo_cluster :: Cluster where
  "demo_cluster = \<lparr> c_node = demo_node, c_ring = (\<lambda>_ _. fresh_ring 0), c_sub = (\<lambda>_. Sub_Idle),
     c_noop = (\<lambda>_. Np_Idle), c_recv = (\<lambda>_ _. Rv_Idle), c_hist = (\<lambda>_. []), c_done = (\<lambda>_ _. 0) \<rparr>"

lemma demo_node_initial: "p \<in> set node_ids \<Longrightarrow> initial_node hash Map.empty p (demo_node p)"
proof -
  assume p: "p \<in> set node_ids"
  then have "(of_nat p :: u64) \<in> {1, 2, 3}" by (auto simp: node_ids_def)
  then have ok: "\<not> ((3 :: u64) \<noteq> 3 \<or> (of_nat p :: u64) < 1 \<or> (3 :: u64) < of_nat p)" by auto
  then obtain m where m: "bandle_new (of_nat p) 3 0 0 64 1 192 32 (\<lambda>_. 0) = Some m"
    "n_admission_window m = 192" "n_admission_batch m = 32" "m\<lparr>n_kv := empty_store\<rparr> = m"
    unfolding bandle_new_def if_not_P [OF ok] by simp
  have n: "demo_node p = bandle_start 0 (m\<lparr>n_kv := empty_store\<rparr>)" using m by (simp add: demo_node_def)
  moreover have "window_ok (demo_node p)" using m by (simp add: n window_ok_def bandle_start_def)
  ultimately show ?thesis
    unfolding initial_node_def using m(1) kv_wf_empty [of hash] kv_lookup_empty [of hash] by blast
qed

lemma demo_initial: "cluster_init hash Map.empty demo_cluster"
  using demo_node_initial by (simp add: cluster_init_def demo_cluster_def)

lemma demo_node_fields:
  "n_input_done (demo_node 1) = False" "n_noop_interval_us (demo_node 1) = 0" "n_last_noop_ns (demo_node 1) = 0"
  "n_highest_proposed_seq (demo_node 1) = 0" "n_execute_next (demo_node 1) = 1" "n_cluster_size (demo_node 1) = 3"
  "n_running (demo_node 1)" "n_next_seq (demo_node 1) = 1" "n_node_id (demo_node 1) = 1"
  by (simp_all add: demo_node_def bandle_new_def bandle_start_def)

lemma demo_run:
  "\<exists>c. reachable hash Map.empty c \<and> short (c_hist c) \<and> length (c_hist c 1) = 1 \<and> c_hist c 2 = [] \<and> c_hist c 3 = [] \<and>
       c_done c = (\<lambda>_ _. 0) \<and> n_kv (c_node c 1) = n_kv (demo_node 1)"
proof -
  let ?c0 = demo_cluster
  let ?c1 = "?c0\<lparr>c_node := (c_node ?c0)(1 := mark_input_done (c_node ?c0 1))\<rparr>"
  let ?n1 = "c_node ?c1 1"
  let ?c2 = "after_noop ?c1 1 Np_Read ?n1 (c_ring ?c1 1)"
  let ?c3 = "after_noop ?c2 1 (Np_Reserve (noop_message ?n1)) ?n1 (c_ring ?c2 1)"
  let ?c4 = "after_noop ?c3 1 (Np_Send (noop_message ?n1) (peers 1)) (noop_reserve 0 ?n1) (c_ring ?c3 1)"
  have id: "(1 :: nat) \<in> set node_ids" by (simp add: node_ids_def)
  have "reachable hash Map.empty ?c0" by (rule reach_init) (rule demo_initial)
  then have "reachable hash Map.empty ?c1"
    by (rule reach_step) (rule cluster_step.input_done [OF id], simp add: demo_cluster_def)
  then have "reachable hash Map.empty ?c2"
    by (rule reach_step) (rule cluster_step.noop [OF id, where now = 0 and fin = False],
        simp add: demo_cluster_def demo_node_fields [simplified] mark_input_done_def should_propose_noop_locked_def)
  then have "reachable hash Map.empty ?c3"
    by (rule reach_step) (rule cluster_step.noop [OF id, where now = 0 and fin = False], simp)
  then have r: "reachable hash Map.empty ?c4"
    by (rule reach_step) (rule cluster_step.noop [OF id, where now = 0 and fin = False], simp)
  show ?thesis
    by (intro exI [of _ ?c4] conjI r)
      (simp_all add: demo_cluster_def short_def node_ids_def mark_input_done_def noop_reserve_def fun_eq_iff)
qed

lemma demo_replica: "reachable hash Map.empty demo_cluster" "short (c_hist demo_cluster)" "quiescent demo_cluster"
  by (rule reach_init, rule demo_initial)
    (simp_all add: demo_cluster_def short_def quiescent_def fresh_ring_def)

theorem replicas_agree_witness:
  "kv_lookup (\<lambda>_. 0) (n_kv (c_node demo_cluster 2)) = kv_lookup (\<lambda>_. 0) (n_kv (c_node demo_cluster 1))"
proof -
  have "exec_next (c_node demo_cluster p) = 1" if "p \<in> set node_ids" for p
    using initial_node_fields(8) [OF demo_node_initial [OF that]] by (simp add: demo_cluster_def exec_next_def)
  with replicas_agree [OF demo_replica(1,2), of 1 2] show ?thesis by (simp add: node_ids_def)
qed

theorem no_proposal_lost_witness:
  "\<exists>c. reachable (\<lambda>_. 0) Map.empty c \<and> length (c_hist c 1) = 1 \<and> seq_of 1 0 < exec_next (c_node c 2) + 65536"
proof -
  obtain c where c: "reachable (\<lambda>_. 0) Map.empty c" "short (c_hist c)" "length (c_hist c 1) = 1"
    using demo_run by blast
  then have "0 < length (c_hist c 1)" by simp
  from no_proposal_lost [OF c(1,2) _ _ this, of 2] c show ?thesis by (intro exI [of _ c]) (simp add: node_ids_def)
qed

theorem sequence_numbers_unique_witness:
  "\<exists>c. reachable (\<lambda>_. 0) Map.empty c \<and>
     {(p, i). p \<in> set node_ids \<and> i < length (c_hist c p) \<and>
              b_seq (m_body (c_hist c p ! i)) = b_seq (m_body (c_hist c 1 ! 0))} = {(1, 0)}"
proof -
  obtain c where c: "reachable (\<lambda>_. 0) Map.empty c" "short (c_hist c)" "length (c_hist c 1) = 1"
    using demo_run by blast
  then have "0 < length (c_hist c 1)" by simp
  with sequence_numbers_unique [OF c(1,2) _ _ _ this] c(1) show ?thesis
    by (intro exI [of _ c]) (auto simp: node_ids_def)
qed

theorem links_deliver_in_order_witness:
  "\<exists>c queue. reachable (\<lambda>_. 0) Map.empty c \<and> length (c_hist c 1) = 1 \<and>
     ring_rep kBandleRingCapacity (c_ring c 1 2) queue \<and>
     c_hist c 1 = recv_pending (c_recv c 2 1) @ queue @ out_of (c_sub c 1) (c_noop c 1) 2"
proof -
  obtain c where c: "reachable (\<lambda>_. 0) Map.empty c" "short (c_hist c)" "length (c_hist c 1) = 1" "c_done c = (\<lambda>_ _. 0)"
    using demo_run by blast
  with links_deliver_in_order [OF c(1,2), of 1 2] show ?thesis by (auto simp: node_ids_def)
qed

theorem quiescent_convergence_witness:
  "exec_next (c_node demo_cluster 1) = exec_next (c_node demo_cluster 3)"
  using quiescent_convergence [OF demo_replica, of 1 3] by (simp add: node_ids_def)

end
