(* ===== verification/Receiver_Threads.thy ===== *)
theory Receiver_Threads
  imports Cluster_Properties
begin

text \<open>
  The receiver threads of a node (\<open>start\<close>, \<open>recv_loop\<close> and \<open>recv_source_loop\<close> in \<open>src/bandle.cpp\<close>): one thread that
  serves all sources in turn, which is the default, or one thread per source. Each thread owns a batch
  buffer, which it uses for all its sources: \<open>drain_source_ring\<close> copies messages from a ring into it and
  \<open>handle_messages_batch\<close> reads them back from it. The cluster of \<open>Bandle_Cluster\<close>, where every link has a receiver
  of its own that keeps the messages it has read at its control point, is shown to cover both configurations.
\<close>

section \<open>Threads\<close>

datatype recv_thread = Recv_Loop int | Recv_Source_Loop nat int

text \<open>The loop of \<open>start\<close> over the sources; a given processor is the first of consecutive ones.\<close>

fun source_threads :: "nat \<Rightarrow> nat list \<Rightarrow> int \<Rightarrow> int \<Rightarrow> recv_thread list" where
  "source_threads q [] recv_cpu idx = []"
| "source_threads q (src # srcs) recv_cpu idx =
     (if src = q then source_threads q srcs recv_cpu idx
      else Recv_Source_Loop src (if 0 \<le> recv_cpu then recv_cpu + idx else recv_cpu)
             # source_threads q srcs recv_cpu (idx + 1))"

definition start_threads :: "nat \<Rightarrow> nat \<Rightarrow> int \<Rightarrow> recv_thread list" where
  "start_threads q pipeline_workers recv_cpu =
     (if pipeline_workers \<le> 1 then [Recv_Loop recv_cpu] else source_threads q node_ids recv_cpu 0)"

primrec thread_sources :: "nat \<Rightarrow> recv_thread \<Rightarrow> nat list" where
  "thread_sources q (Recv_Loop cpu) = peers q"
| "thread_sources q (Recv_Source_Loop src cpu) = [src]"

text \<open>
  \<open>drain_source_ring\<close> and \<open>handle_messages_batch\<close> on the buffer of the thread. \<open>Dp_First\<close> is the first read,
  which does not test \<open>running_\<close>; \<open>Dp_More\<close> holds \<open>read_count\<close>; \<open>Dp_Handle\<close> holds the loop variable \<open>base\<close> and \<open>count\<close>.
\<close>

datatype drain_pc =
    Dp_Idle
  | Dp_First u64 nat
  | Dp_More u64 nat nat
  | Dp_Handle nat nat

fun drain_step ::
  "(string \<Rightarrow> u64) \<Rightarrow> drain_pc \<Rightarrow> BandleMessage list \<Rightarrow> Bandle \<Rightarrow> SpscRing
     \<Rightarrow> drain_pc \<times> BandleMessage list \<times> Bandle \<times> SpscRing" where
  "drain_step hash Dp_Idle batch n r =
     (let t = r_tail r; avail = r_head r - t
      in if avail = 0 then (Dp_Idle, batch, n, r)
         else let count = min (unat avail) (recv_batch_capacity (n_batch_size n))
              in (Dp_First t count,
                  if length batch < count then batch @ replicate (count - length batch) default_message else batch, n, r))"
| "drain_step hash (Dp_First t count) batch n r =
     (case read_batch_at_abs ring_cap t batch count r of (k, batch1) \<Rightarrow> (Dp_More t count k, batch1, n, r))"
| "drain_step hash (Dp_More t count read_count) batch n r =
     (if read_count < count \<and> n_running n
      then case read_batch_at_abs ring_cap (t + of_nat read_count) (drop read_count batch) (count - read_count) r of
             (k, rest) \<Rightarrow> (Dp_More t count (read_count + k), take read_count batch @ rest, n, r)
      else if read_count = 0 then (Dp_Idle, batch, n, r)
      else (Dp_Handle 0 read_count, batch, n, commit_tail (t + of_nat read_count) r))"
| "drain_step hash (Dp_Handle base count) batch n r =
     (if base < count
      then let stop = min count (base + kHandleChunk)
           in (Dp_Handle (base + kHandleChunk) count, batch,
               fst (handle_chunk hash (take (stop - base) (drop base batch)) n), r)
      else (Dp_Idle, batch, n, r))"

text \<open>
  A thread tests \<open>running_\<close> (\<open>Lp_Check\<close>) and then drains its sources one after the other; \<open>rx_drain\<close> is where it is
  with the first source of \<open>Lp_Pass\<close>.
\<close>

datatype loop_pc = Lp_Check | Lp_Pass "nat list" bool | Lp_Exit

record Receiver =
  rx_kind :: recv_thread
  rx_pc :: loop_pc
  rx_drain :: drain_pc
  rx_batch :: "BandleMessage list"

text \<open>
  Where a thread goes on after a step for its source: \<open>drain_source_ring\<close> that returns false ends the work
  for the source; after a handled batch \<open>recv_loop\<close> drains the same source again, while \<open>recv_source_loop\<close>
  first tests \<open>running_\<close>.
\<close>

fun handling :: "drain_pc \<Rightarrow> bool" where
  "handling (Dp_Handle base count) \<longleftrightarrow> True"
| "handling _ \<longleftrightarrow> False"

definition pass_next :: "recv_thread \<Rightarrow> drain_pc \<Rightarrow> drain_pc \<Rightarrow> nat \<Rightarrow> nat list \<Rightarrow> bool \<Rightarrow> loop_pc" where
  "pass_next kind pc pc' src srcs progressed =
     (if pc' \<noteq> Dp_Idle then Lp_Pass (src # srcs) progressed
      else if handling pc
           then (case kind of Recv_Loop cpu \<Rightarrow> Lp_Pass (src # srcs) True | Recv_Source_Loop s cpu \<Rightarrow> Lp_Check)
           else Lp_Pass srcs progressed)"

text \<open>The number of messages handled in a step is recorded in \<open>c_done\<close>, as in \<open>cluster_step\<close>.\<close>

fun drain_handles :: "drain_pc \<Rightarrow> nat" where
  "drain_handles (Dp_Handle base count) = min kHandleChunk (count - base)"
| "drain_handles _ = 0"

definition receiver_step :: "(string \<Rightarrow> u64) \<Rightarrow> nat \<Rightarrow> Receiver \<Rightarrow> Cluster \<Rightarrow> Receiver \<times> Cluster" where
  "receiver_step hash q th c =
     (case rx_pc th of
        Lp_Check \<Rightarrow>
          (th\<lparr>rx_pc := (if n_running (c_node c q) then Lp_Pass (thread_sources q (rx_kind th)) False else Lp_Exit)\<rparr>, c)
      | Lp_Exit \<Rightarrow> (th, c)
      | Lp_Pass [] progressed \<Rightarrow> (th\<lparr>rx_pc := Lp_Check\<rparr>, c)
      | Lp_Pass (src # srcs) progressed \<Rightarrow>
          (case drain_step hash (rx_drain th) (rx_batch th) (c_node c q) (c_ring c src q) of
             (pc, batch, n, r) \<Rightarrow>
               (th\<lparr>rx_pc := pass_next (rx_kind th) (rx_drain th) pc src srcs progressed, rx_drain := pc, rx_batch := batch\<rparr>,
                c\<lparr>c_node := (c_node c)(q := n), c_ring := (c_ring c)(src := (c_ring c src)(q := r)),
                  c_done := (c_done c)(q := (c_done c q)(src := c_done c q src + drain_handles (rx_drain th)))\<rparr>)))"

text \<open>
  Nodes with their threads. The field \<open>c_recv\<close> of the cluster, the receivers of the links, is not in use here; steps of
  the other threads are the steps of the cluster that leave it alone.
\<close>

record Threaded =
  td_cluster :: Cluster
  td_threads :: "nat \<Rightarrow> Receiver list"

inductive threaded_step :: "(string \<Rightarrow> u64) \<Rightarrow> Threaded \<Rightarrow> Threaded \<Rightarrow> bool" for hash where
  others: "\<lbrakk>cluster_step hash (td_cluster s) c; c_recv c = c_recv (td_cluster s)\<rbrakk>
    \<Longrightarrow> threaded_step hash s (s\<lparr>td_cluster := c\<rparr>)"
| receiver: "\<lbrakk>q \<in> set node_ids; i < length (td_threads s q);
      receiver_step hash q (td_threads s q ! i) (td_cluster s) = (th, c)\<rbrakk>
    \<Longrightarrow> threaded_step hash s
          (s\<lparr>td_cluster := c, td_threads := (td_threads s)(q := (td_threads s q)[i := th])\<rparr>)"

definition new_receiver :: "Bandle \<Rightarrow> recv_thread \<Rightarrow> Receiver" where
  "new_receiver n kind =
     \<lparr> rx_kind = kind, rx_pc = Lp_Check, rx_drain = Dp_Idle,
       rx_batch = replicate (recv_batch_capacity (n_batch_size n)) default_message \<rparr>"

definition threaded_init :: "(string \<Rightarrow> u64) \<Rightarrow> (string \<rightharpoonup> string) \<Rightarrow> Threaded \<Rightarrow> bool" where
  "threaded_init hash K0 s \<longleftrightarrow> cluster_init hash K0 (td_cluster s) \<and>
     (\<forall>q. if q \<in> set node_ids
          then \<exists>cpu. td_threads s q =
            map (new_receiver (c_node (td_cluster s) q)) (start_threads q (n_pipeline_workers (c_node (td_cluster s) q)) cpu)
          else td_threads s q = [])"

section \<open>Every source has one thread\<close>

lemma source_threads_sources: "concat (map (thread_sources q) (source_threads q srcs cpu idx)) = filter (\<lambda>p. p \<noteq> q) srcs"
  by (induction srcs arbitrary: idx) simp_all

lemma start_threads_sources: "concat (map (thread_sources q) (start_threads q workers cpu)) = peers q"
  by (simp add: start_threads_def source_threads_sources peers_def)

section \<open>The buffer holds what a link's receiver has read\<close>

text \<open>The control point of the receiver of a link that a thread stands for: the messages are those in the buffer.\<close>

fun abs_pc :: "BandleMessage list \<Rightarrow> drain_pc \<Rightarrow> recv_pc" where
  "abs_pc batch Dp_Idle = Rv_Idle"
| "abs_pc batch (Dp_First t count) = Rv_First t count"
| "abs_pc batch (Dp_More t count read_count) = Rv_More t count (take read_count batch)"
| "abs_pc batch (Dp_Handle base count) = Rv_Handle (take (count - base) (drop base batch))"

fun unread :: "drain_pc \<Rightarrow> BandleMessage list \<Rightarrow> BandleMessage list" where
  "unread (Dp_More t count read_count) batch = drop read_count batch"
| "unread pc batch = batch"

fun drain_fits :: "drain_pc \<Rightarrow> BandleMessage list \<Rightarrow> bool" where
  "drain_fits (Dp_First t count) batch \<longleftrightarrow> count \<le> length batch"
| "drain_fits (Dp_More t count read_count) batch \<longleftrightarrow> read_count \<le> count \<and> count \<le> length batch"
| "drain_fits (Dp_Handle base count) batch \<longleftrightarrow> count \<le> length batch"
| "drain_fits Dp_Idle batch \<longleftrightarrow> True"

lemma read_batch_descs_bounds:
  "fst (read_batch_descs cap a r count n out) \<le> count + n \<and> length (snd (read_batch_descs cap a r count n out)) = length out"
proof (induction n arbitrary: count out)
  case (Suc n)
  show ?case using Suc.IH [of "Suc count" "out[count := _]"] by (auto simp: Let_def split: option.split)
qed simp

lemma read_batch_payloads_length: "length (read_batch_payloads cap a r i n out) = length out"
  by (induction n arbitrary: i out) simp_all

lemma read_batch_bounds:
  "read_batch_at_abs cap a out n r = (k, out1) \<Longrightarrow> k \<le> n \<and> length out1 = length out"
  using read_batch_descs_bounds [of cap a r 0 n out]
  by (auto simp: read_batch_at_abs_def read_batch_payloads_length split: if_splits prod.splits)

lemma drain_step_fits:
  assumes "drain_fits pc batch" "drain_step hash pc batch n r = (pc', batch', n', r')"
  shows "drain_fits pc' batch'"
proof (cases pc)
  case (Dp_First t count)
  with assms show ?thesis using read_batch_bounds [of ring_cap t batch count r] by (auto split: prod.splits)
next
  case (Dp_More t count got)
  with assms show ?thesis
    using read_batch_bounds [of ring_cap "t + of_nat got" "drop got batch" "count - got" r]
    by (auto split: prod.splits if_splits)
qed (use assms in \<open>auto simp: Let_def split: if_splits\<close>)

text \<open>A step on the buffer is a step of the link's receiver.\<close>

lemma drain_step_refines:
  assumes fits: "drain_fits pc batch" and step: "drain_step hash pc batch n r = (pc', batch', n', r')"
  shows "recv_step hash (unread pc batch) (abs_pc batch pc) n r = (abs_pc batch' pc', n', r') \<and>
    length (recv_handles (abs_pc batch pc)) = drain_handles pc"
proof (cases pc)
  case (Dp_More t count got)
  let ?read = "read_batch_at_abs ring_cap (t + of_nat got) (drop got batch) (count - got) r"
  obtain k rest where read: "?read = (k, rest)" by fastforce
  have len: "length (take got batch) = got" "got = 0 \<or> batch \<noteq> []" using fits Dp_More by auto
  with read_batch_bounds [OF read] read step show ?thesis
    by (auto simp: Dp_More recv_handles_def split: if_splits)
next
  case (Dp_Handle base count)
  have "take (min count (base + kHandleChunk) - base) (drop base batch) = take kHandleChunk (take (count - base) (drop base batch))"
  proof -
    have "min count (base + kHandleChunk) - base = min kHandleChunk (count - base)" by linarith
    then show ?thesis by (simp add: take_take)
  qed
  moreover have "drop kHandleChunk (take (count - base) (drop base batch))
      = take (count - (base + kHandleChunk)) (drop (base + kHandleChunk) batch)"
    by (simp add: drop_take add.commute)
  moreover have "take (count - base) (drop base batch) = [] \<longleftrightarrow> \<not> base < count" using fits Dp_Handle by auto
  ultimately show ?thesis using fits step by (auto simp: Dp_Handle recv_handles_def Let_def split: if_splits)
qed (use step in \<open>auto simp: recv_handles_def Let_def split: if_splits prod.splits\<close>)

text \<open>The buffer holds messages after the step, and it is fit for the next one.\<close>

lemma buffer_fits: "list_all wf_msg batch \<Longrightarrow> drain_fits pc batch \<Longrightarrow> buffer_ok (abs_pc batch pc) (unread pc batch)"
  by (cases pc) (auto simp: list_all_iff dest: in_set_dropD)

lemma wf_default: "wf_msg default_message"
  by (simp add: wf_msg_def default_message_def default_payload_def)

lemma drain_step_wf:
  assumes link: "link_inv hist d r (abs_pc batch pc) out staged need"
    and batch: "list_all wf_msg batch" "drain_fits pc batch"
    and step: "drain_step hash pc batch n r = (pc', batch', n', r')"
  shows "list_all wf_msg batch'"
proof (cases pc)
  case (Dp_First t count)
  from link obtain q where q: "ring_inv r q staged need" "t = r_tail r" "count \<le> length q" by (auto simp: Dp_First elim: link_invE)
  have "region_rep ring_cap r (r_tail r) (take count q @ drop count q)" using q(1) by (simp add: ring_inv_def ring_rep_def)
  then have rep: "region_rep ring_cap r (r_tail r) (take count q)" by (rule region_rep_prefix)
  have len: "length (take count q) = count" using q(3) by simp
  have "count \<le> length batch" using batch(2) Dp_First by simp
  from read_batch_at_abs_rep [OF rep, unfolded len, OF this] batch(1) obtain out1 where
    "read_batch_at_abs ring_cap t batch count r = (count, out1)" "list_all wf_msg out1"
    unfolding list_all_iff q(2) by metis
  with Dp_First step show ?thesis by auto
next
  case (Dp_More t count got)
  from link have "length (take got batch) = count" by (auto simp: Dp_More elim: link_invE)
  with Dp_More step batch show ?thesis by (auto split: if_splits)
qed (use step batch(1) wf_default in \<open>auto simp: Let_def list_all_iff split: if_splits\<close>)

section \<open>The threads refine the receivers of the links\<close>

definition heading :: "Receiver \<Rightarrow> nat \<Rightarrow> bool" where
  "heading th p \<longleftrightarrow> (case rx_pc th of Lp_Pass (src # srcs) progressed \<Rightarrow> src = p | _ \<Rightarrow> False)"

fun pass_sources :: "loop_pc \<Rightarrow> nat list" where
  "pass_sources (Lp_Pass srcs progressed) = srcs"
| "pass_sources _ = []"

text \<open>The receiver of the link from \<open>p\<close> that the threads of a node implement, and the cluster of all of these.\<close>

definition link_pc :: "Receiver list \<Rightarrow> nat \<Rightarrow> recv_pc" where
  "link_pc ths p = (case find (\<lambda>th. heading th p) ths of None \<Rightarrow> Rv_Idle | Some th \<Rightarrow> abs_pc (rx_batch th) (rx_drain th))"

definition td_abs :: "Threaded \<Rightarrow> Cluster" where
  "td_abs s = (td_cluster s)\<lparr>c_recv := (\<lambda>q. link_pc (td_threads s q))\<rparr>"

definition thread_ok :: "nat \<Rightarrow> Receiver \<Rightarrow> bool" where
  "thread_ok q th \<longleftrightarrow> list_all wf_msg (rx_batch th) \<and> drain_fits (rx_drain th) (rx_batch th) \<and>
     set (pass_sources (rx_pc th)) \<subseteq> set (thread_sources q (rx_kind th)) \<and> distinct (pass_sources (rx_pc th)) \<and>
     (pass_sources (rx_pc th) = [] \<longrightarrow> rx_drain th = Dp_Idle)"

definition threads_ok :: "nat \<Rightarrow> Receiver list \<Rightarrow> bool" where
  "threads_ok q ths \<longleftrightarrow> concat (map (thread_sources q \<circ> rx_kind) ths) = peers q \<and> (\<forall>th\<in>set ths. thread_ok q th)"

lemma heading_iff: "heading th p \<longleftrightarrow> (\<exists>srcs. pass_sources (rx_pc th) = p # srcs)"
  by (auto simp: heading_def split: loop_pc.splits list.splits)

lemma heading_source: "thread_ok q th \<Longrightarrow> heading th p \<Longrightarrow> p \<in> set (thread_sources q (rx_kind th))"
  by (auto simp: thread_ok_def heading_iff)

lemma distinct_concat_nth:
  assumes "distinct (concat (map f xs))" "i < length xs" "j < length xs" "i \<noteq> j"
  shows "set (f (xs ! i)) \<inter> set (f (xs ! j)) = {}"
  using assms
proof (induction xs arbitrary: i j)
  case (Cons x xs)
  have "set (f x) \<inter> set (f (xs ! k)) = {}" if "k < length xs" for k using Cons.prems(1) that by fastforce
  with Cons show ?case by (cases i; cases j) auto
qed simp

lemma source_thread_unique:
  assumes "threads_ok q ths" "i < length ths" "j < length ths"
    "p \<in> set (thread_sources q (rx_kind (ths ! i)))" "p \<in> set (thread_sources q (rx_kind (ths ! j)))"
  shows "j = i"
proof (rule ccontr)
  assume "j \<noteq> i"
  have "distinct (concat (map (thread_sources q \<circ> rx_kind) ths))" using assms(1) distinct_peers by (simp add: threads_ok_def)
  from distinct_concat_nth [OF this assms(2,3)] \<open>j \<noteq> i\<close> assms(4,5) show False by auto
qed

text \<open>The control point of a link is that of the thread that has its source.\<close>

lemma link_pc_thread:
  assumes ok: "threads_ok q ths" and i: "i < length ths" "p \<in> set (thread_sources q (rx_kind (ths ! i)))"
  shows "link_pc ths p = (if heading (ths ! i) p then abs_pc (rx_batch (ths ! i)) (rx_drain (ths ! i)) else Rv_Idle)"
proof (cases "find (\<lambda>th. heading th p) ths")
  case None
  then have "\<not> heading (ths ! i) p" using i(1) by (auto simp: find_None_iff)
  with None show ?thesis by (simp add: link_pc_def)
next
  case (Some th)
  then obtain j where j: "j < length ths" "heading (ths ! j) p" "th = ths ! j" by (auto simp: find_Some_iff)
  then have "p \<in> set (thread_sources q (rx_kind (ths ! j)))" using ok by (auto simp: threads_ok_def intro: heading_source)
  with source_thread_unique [OF ok i(1) j(1) i(2)] Some j show ?thesis by (simp add: link_pc_def)
qed

lemma link_pc_active:
  assumes "link_pc ths p \<noteq> Rv_Idle"
  obtains i where "i < length ths" "heading (ths ! i) p"
proof -
  from assms obtain th where "find (\<lambda>th. heading th p) ths = Some th" by (auto simp: link_pc_def split: option.splits)
  then show ?thesis using that by (auto simp: find_Some_iff)
qed

lemma pass_next_cases:
  "pass_next kind pc pc' src srcs progressed \<in> {Lp_Pass (src # srcs) True, Lp_Pass (src # srcs) progressed} \<or>
   (pc' = Dp_Idle \<and> pass_next kind pc pc' src srcs progressed \<in> {Lp_Check, Lp_Pass srcs progressed})"
  by (auto simp: pass_next_def split: recv_thread.splits)

text \<open>
  One step of a thread: either it changes nothing but its own loop, or it is a drain step for the source it is
  at. In both cases it stays in order, and its kind does not change.
\<close>

lemma receiver_step_drains:
  assumes "rx_pc th = Lp_Pass (src # srcs) progressed"
    and "drain_step hash (rx_drain th) (rx_batch th) (c_node c q) (c_ring c src q) = (pc, batch, n, r)"
  shows "receiver_step hash q th c =
    (th\<lparr>rx_pc := pass_next (rx_kind th) (rx_drain th) pc src srcs progressed, rx_drain := pc, rx_batch := batch\<rparr>,
     c\<lparr>c_node := (c_node c)(q := n), c_ring := (c_ring c)(src := (c_ring c src)(q := r)),
       c_done := (c_done c)(q := (c_done c q)(src := c_done c q src + drain_handles (rx_drain th)))\<rparr>)"
  using assms by (simp add: receiver_step_def)

lemma receiver_step_loops:
  assumes "pass_sources (rx_pc th) = []" "receiver_step hash q th c = (th', c')"
  shows "c' = c \<and> rx_kind th' = rx_kind th \<and> rx_drain th' = rx_drain th \<and> rx_batch th' = rx_batch th \<and>
    pass_sources (rx_pc th') \<in> {[], thread_sources q (rx_kind th)}"
  using assms by (auto simp: receiver_step_def split: loop_pc.splits list.splits if_splits)

lemma distinct_thread_sources: "distinct (thread_sources q kind)"
  by (cases kind) (simp_all add: distinct_peers)

lemma thread_ok_loops:
  assumes "thread_ok q th" "pass_sources (rx_pc th) = []" "receiver_step hash q th c = (th', c')"
  shows "thread_ok q th'"
  using assms receiver_step_loops [OF assms(2,3)] distinct_thread_sources [of q "rx_kind th"]
  by (auto simp: thread_ok_def)

lemma thread_ok_drains:
  assumes ok: "thread_ok q th" and pc: "rx_pc th = Lp_Pass (src # srcs) progressed"
    and step: "drain_step hash (rx_drain th) (rx_batch th) n r = (pc', batch', n', r')"
    and wf: "list_all wf_msg batch'"
  shows "thread_ok q (th\<lparr>rx_pc := pass_next (rx_kind th) (rx_drain th) pc' src srcs progressed, rx_drain := pc', rx_batch := batch'\<rparr>)"
proof -
  let ?pc = "pass_next (rx_kind th) (rx_drain th) pc' src srcs progressed"
  have "drain_fits pc' batch'" using ok step by (auto simp: thread_ok_def intro: drain_step_fits)
  moreover have srcs: "set (src # srcs) \<subseteq> set (thread_sources q (rx_kind th))" "distinct (src # srcs)"
    using ok pc by (simp_all add: thread_ok_def)
  have "pass_sources ?pc = src # srcs \<or> pc' = Dp_Idle \<and> pass_sources ?pc \<in> {[], srcs}"
    using pass_next_cases [of "rx_kind th" "rx_drain th" pc' src srcs progressed] by auto
  ultimately show ?thesis using wf srcs by (auto simp: thread_ok_def)
qed

lemma threads_ok_update:
  assumes ok: "threads_ok q ths" and i: "i < length ths" and th: "thread_ok q th" "rx_kind th = rx_kind (ths ! i)"
  shows "threads_ok q (ths[i := th])"
proof -
  have "map (thread_sources q \<circ> rx_kind) (ths[i := th]) = map (thread_sources q \<circ> rx_kind) ths"
    using th(2) i by (auto simp: list_eq_iff_nth_eq nth_list_update)
  then show ?thesis using ok th(1) set_update_subset_insert [of ths i th] by (auto simp: threads_ok_def)
qed

lemma link_pc_update:
  assumes ok: "threads_ok q ths" and i: "i < length ths" and th: "thread_ok q th" "rx_kind th = rx_kind (ths ! i)"
  shows "link_pc (ths[i := th]) p =
    (if p \<in> set (thread_sources q (rx_kind th))
     then if heading th p then abs_pc (rx_batch th) (rx_drain th) else Rv_Idle else link_pc ths p)"
proof (cases "p \<in> set (thread_sources q (rx_kind th))")
  case True
  with link_pc_thread [OF threads_ok_update [OF ok i th], of i p] i show ?thesis by simp
next
  case False
  have no: "\<not> heading th p" "\<not> heading (ths ! i) p" using False th ok i by (auto simp: threads_ok_def dest!: heading_source nth_mem)
  have "find (\<lambda>th. heading th p) (ths[i := th]) = find (\<lambda>th. heading th p) ths" using i no
  proof (induction ths arbitrary: i)
    case (Cons x xs)
    then show ?case by (cases i) auto
  qed simp
  with False show ?thesis by (simp add: link_pc_def)
qed

lemma link_pc_loops:
  assumes ok: "threads_ok q ths" and i: "i < length ths" and pc: "pass_sources (rx_pc (ths ! i)) = []"
    and step: "receiver_step hash q (ths ! i) c = (th, c')"
  shows "threads_ok q (ths[i := th]) \<and> link_pc (ths[i := th]) = link_pc ths"
proof -
  note loops = receiver_step_loops [OF pc step]
  have old: "thread_ok q (ths ! i)" using ok i by (simp add: threads_ok_def)
  note th = thread_ok_loops [OF old pc step]
  have idle: "rx_drain (ths ! i) = Dp_Idle" using old pc by (simp add: thread_ok_def)
  have "link_pc (ths[i := th]) p = link_pc ths p" for p
    using link_pc_update [OF ok i th, of p] link_pc_thread [OF ok i, of p] loops idle pc by (auto simp: heading_iff)
  with threads_ok_update [OF ok i th] loops show ?thesis by auto
qed

lemma link_pc_drains:
  assumes ok: "threads_ok q ths" and i: "i < length ths" and pc: "rx_pc (ths ! i) = Lp_Pass (src # srcs) progressed"
    and step: "drain_step hash (rx_drain (ths ! i)) (rx_batch (ths ! i)) n r = (pc', batch', n', r')"
    and wf: "list_all wf_msg batch'"
  defines "th \<equiv> (ths ! i)\<lparr>rx_pc := pass_next (rx_kind (ths ! i)) (rx_drain (ths ! i)) pc' src srcs progressed,
    rx_drain := pc', rx_batch := batch'\<rparr>"
  shows "threads_ok q (ths[i := th]) \<and> link_pc ths src = abs_pc (rx_batch (ths ! i)) (rx_drain (ths ! i)) \<and>
    link_pc (ths[i := th]) = (link_pc ths)(src := abs_pc batch' pc')"
proof -
  have old: "thread_ok q (ths ! i)" using ok i by (simp add: threads_ok_def)
  have th: "thread_ok q th" "rx_kind th = rx_kind (ths ! i)"
    using thread_ok_drains [OF old pc step wf] by (simp_all add: th_def)
  have src: "src \<in> set (thread_sources q (rx_kind (ths ! i)))" using old pc by (simp add: thread_ok_def)
  have head: "heading (ths ! i) p \<longleftrightarrow> p = src" for p using pc by (auto simp: heading_iff)
  have pass: "pass_sources (rx_pc th) = src # srcs \<or> pc' = Dp_Idle"
    using pass_next_cases [of "rx_kind (ths ! i)" "rx_drain (ths ! i)" pc' src srcs progressed] by (auto simp: th_def)
  have "link_pc (ths[i := th]) p = ((link_pc ths)(src := abs_pc batch' pc')) p" for p
    using link_pc_update [OF ok i th, of p] link_pc_thread [OF ok i, of p] src head [of p] pass th(2)
    by (auto simp: heading_iff th_def)
  with threads_ok_update [OF ok i th] link_pc_thread [OF ok i src] head [of src] show ?thesis by auto
qed

lemma cluster_step_frame:
  assumes "cluster_step hash c c'" "c_recv c' = c_recv c"
  shows "cluster_step hash (c\<lparr>c_recv := rv\<rparr>) (c'\<lparr>c_recv := rv\<rparr>) \<or> c' = c"
  using assms
proof cases
  case (begin_submit p reqs scratch pc n)
  then show ?thesis
    using cluster_step.begin_submit [of p "c\<lparr>c_recv := rv\<rparr>" reqs scratch pc n hash] by (cases c) simp
next
  case (submit p pc n rs)
  then show ?thesis using cluster_step.submit [of p hash "c\<lparr>c_recv := rv\<rparr>" pc n rs] by (cases c) simp
next
  case (input_done p)
  then show ?thesis using cluster_step.input_done [of p "c\<lparr>c_recv := rv\<rparr>" hash] by (cases c) simp
next
  case (noop p now fin pc n rs)
  then show ?thesis using cluster_step.noop [of p hash now fin "c\<lparr>c_recv := rv\<rparr>" pc n rs] by (cases c) simp
next
  case (recv p q buf pc n r)
  have "c_recv c' q p = pc" using recv(1) by simp
  then have same: "pc = c_recv c q p" using assms(2) by simp
  have "drop 64 ms \<noteq> ms" if "ms \<noteq> []" for ms :: "BandleMessage list"
  proof
    assume "drop 64 ms = ms"
    from arg_cong [OF this, of length] that show False by (cases ms) simp_all
  qed
  then have "n = c_node c q \<and> r = c_ring c p q \<and> recv_handles (c_recv c q p) = []" using recv(6) unfolding same
    by (cases "c_recv c q p") (auto simp: Let_def recv_handles_def kHandleChunk_def split: if_splits prod.splits)
  then show ?thesis using recv(1) same by simp
qed

lemma receiver_step_history: "receiver_step hash q th c = (th', c') \<Longrightarrow> c_hist c' = c_hist c \<and> c_recv c' = c_recv c"
  by (auto simp: receiver_step_def split: loop_pc.splits list.splits prod.splits)

lemma receiver_step_simulates:
  assumes inv: "full_inv hash K0 (td_abs s)" and q: "q \<in> set node_ids" and ok: "threads_ok q (td_threads s q)"
    and i: "i < length (td_threads s q)"
    and step: "receiver_step hash q (td_threads s q ! i) (td_cluster s) = (th, c)"
  defines "s' \<equiv> s\<lparr>td_cluster := c, td_threads := (td_threads s)(q := (td_threads s q)[i := th])\<rparr>"
  shows "threads_ok q (td_threads s' q) \<and> (td_abs s' = td_abs s \<or> cluster_step hash (td_abs s) (td_abs s'))"
proof (cases "pass_sources (rx_pc (td_threads s q ! i))")
  case Nil
  note l = link_pc_loops [OF ok i Nil step]
  moreover have "c = td_cluster s" using receiver_step_loops [OF Nil step] by blast
  moreover have "(\<lambda>x. link_pc (((td_threads s)(q := (td_threads s q)[i := th])) x)) = (\<lambda>x. link_pc (td_threads s x))"
    using l by auto
  ultimately show ?thesis by (simp add: s'_def td_abs_def)
next
  case (Cons src srcs)
  let ?th = "td_threads s q ! i"
  obtain progressed where pc: "rx_pc ?th = Lp_Pass (src # srcs) progressed" using Cons by (cases "rx_pc ?th") auto
  obtain pc' batch n r where st: "drain_step hash (rx_drain ?th) (rx_batch ?th) (c_node (td_cluster s) q) (c_ring (td_cluster s) src q)
      = (pc', batch, n, r)" by (metis prod_cases4)
  have old: "thread_ok q ?th" using ok i by (simp add: threads_ok_def)
  then have fits: "drain_fits (rx_drain ?th) (rx_batch ?th)" "list_all wf_msg (rx_batch ?th)" by (simp_all add: thread_ok_def)
  have "src \<in> set (concat (map (thread_sources q \<circ> rx_kind) (td_threads s q)))"
    using old pc i nth_mem [OF i] by (force simp: thread_ok_def)
  then have "src \<in> set (peers q)" using ok unfolding threads_ok_def by simp
  then have src: "src \<in> set node_ids" "src \<noteq> q" "q \<in> set (peers src)" using q by (auto simp: set_peers)
  have head: "link_pc (td_threads s q) src = abs_pc (rx_batch ?th) (rx_drain ?th)"
    using link_pc_thread [OF ok i, of src] old pc by (simp add: thread_ok_def heading_def)
  have "list_all wf_msg batch"
    using drain_step_wf [OF _ fits(2,1) st] full_invD(7) [OF inv src(1,3)] head by (simp add: td_abs_def)
  note l = link_pc_drains [OF ok i pc st this]
  note ref = drain_step_refines [OF fits(1) st]
  have step': "recv_step hash (unread (rx_drain ?th) (rx_batch ?th)) (c_recv (td_abs s) q src) (c_node (td_abs s) q)
      (c_ring (td_abs s) src q) = (abs_pc batch pc', n, r)"
    using ref head by (simp add: td_abs_def)
  have buf: "buffer_ok (c_recv (td_abs s) q src) (unread (rx_drain ?th) (rx_batch ?th))"
    using buffer_fits [OF fits(2,1)] head by (simp add: td_abs_def)
  have res: "th = ?th\<lparr>rx_pc := pass_next (rx_kind ?th) (rx_drain ?th) pc' src srcs progressed, rx_drain := pc', rx_batch := batch\<rparr>"
    "c = (td_cluster s)\<lparr>c_node := (c_node (td_cluster s))(q := n),
      c_ring := (c_ring (td_cluster s))(src := (c_ring (td_cluster s) src)(q := r)),
      c_done := (c_done (td_cluster s))(q := (c_done (td_cluster s) q)(src := c_done (td_cluster s) q src + drain_handles (rx_drain ?th)))\<rparr>"
    using step receiver_step_drains [OF pc st] by auto
  have "(\<lambda>x. link_pc (((td_threads s)(q := (td_threads s q)[i := th])) x))
      = (\<lambda>x. link_pc (td_threads s x))(q := (link_pc (td_threads s q))(src := abs_pc batch pc'))"
    using l res(1) by auto
  then have "td_abs s' = (td_abs s)\<lparr>c_recv := (c_recv (td_abs s))(q := (c_recv (td_abs s) q)(src := abs_pc batch pc')),
      c_node := (c_node (td_abs s))(q := n), c_ring := (c_ring (td_abs s))(src := (c_ring (td_abs s) src)(q := r)),
      c_done := (c_done (td_abs s))(q := (c_done (td_abs s) q)(src :=
        c_done (td_abs s) q src + length (recv_handles (c_recv (td_abs s) q src))))\<rparr>"
    using ref head by (intro Cluster.equality) (simp_all add: s'_def td_abs_def res(2))
  with cluster_step.recv [OF src(1) q src(2) buf step'] have "cluster_step hash (td_abs s) (td_abs s')" by simp
  with l res(1) show ?thesis by (simp add: s'_def)
qed

definition threaded_inv :: "(string \<Rightarrow> u64) \<Rightarrow> (string \<rightharpoonup> string) \<Rightarrow> Threaded \<Rightarrow> bool" where
  "threaded_inv hash K0 s \<longleftrightarrow> (short (c_hist (td_cluster s)) \<longrightarrow>
     reachable hash K0 (td_abs s) \<and> (\<forall>q\<in>set node_ids. threads_ok q (td_threads s q)))"

lemma td_abs_fields [simp]:
  "c_hist (td_abs s) = c_hist (td_cluster s)" "c_done (td_abs s) = c_done (td_cluster s)" "c_node (td_abs s) = c_node (td_cluster s)"
  "c_ring (td_abs s) = c_ring (td_cluster s)" "c_noop (td_abs s) = c_noop (td_cluster s)" "c_sub (td_abs s) = c_sub (td_cluster s)"
  "c_recv (td_abs s) q = link_pc (td_threads s q)"
  by (simp_all add: td_abs_def)

lemma threaded_inv_step:
  assumes inv: "threaded_inv hash K0 s" and step: "threaded_step hash s s'"
  shows "threaded_inv hash K0 s'"
  unfolding threaded_inv_def
proof
  assume short: "short (c_hist (td_cluster s'))"
  from step show "reachable hash K0 (td_abs s') \<and> (\<forall>q\<in>set node_ids. threads_ok q (td_threads s' q))"
  proof cases
    case (others c)
    obtain p ws where "c_hist c = (c_hist (td_cluster s))(p := c_hist (td_cluster s) p @ ws)"
      using step_history [OF others(2)] by blast
    then have "short (c_hist (td_cluster s))" using short others(1) short_prefix [of "c_hist (td_cluster s)" p ws] by simp
    then have r: "reachable hash K0 (td_abs s)" "\<forall>q\<in>set node_ids. threads_ok q (td_threads s q)"
      using inv by (simp_all add: threaded_inv_def)
    have "cluster_step hash (td_abs s) (td_abs s') \<or> td_abs s' = td_abs s"
      using cluster_step_frame [OF others(2,3), of "\<lambda>q. link_pc (td_threads s q)"] by (auto simp: others(1) td_abs_def)
    with r others(1) show ?thesis by (auto intro: reach_step)
  next
    case (receiver q i th c)
    have h: "c_hist c = c_hist (td_cluster s)" using receiver_step_history [OF receiver(4)] by blast
    then have short0: "short (c_hist (td_cluster s))" using short receiver(1) by simp
    then have r: "reachable hash K0 (td_abs s)" "\<forall>x\<in>set node_ids. threads_ok x (td_threads s x)"
      using inv by (simp_all add: threaded_inv_def)
    have full: "full_inv hash K0 (td_abs s)" by (rule reachable_inv [OF r(1)]) (simp add: short0)
    from receiver_step_simulates [OF full receiver(2) _ receiver(3,4)] r receiver(1,2)
    have "threads_ok q (td_threads s' q)" "td_abs s' = td_abs s \<or> cluster_step hash (td_abs s) (td_abs s')" by simp_all
    with r receiver(1) show ?thesis by (auto intro: reach_step)
  qed
qed

lemma new_threads_ok: "threads_ok q (map (new_receiver n) (start_threads q workers cpu))"
proof -
  let ?ths = "start_threads q workers cpu"
  have src: "concat (map (thread_sources q) ?ths) = peers q" by (rule start_threads_sources)
  have "list_all wf_msg (replicate m default_message)" for m using wf_default by (simp add: list_all_iff)
  then have "thread_ok q (new_receiver n k)" for k by (simp add: thread_ok_def new_receiver_def)
  moreover have "thread_sources q \<circ> rx_kind \<circ> new_receiver n = thread_sources q" by (simp add: fun_eq_iff new_receiver_def)
  ultimately show ?thesis using src by (auto simp: threads_ok_def)
qed

lemma new_link_pc: "link_pc (map (new_receiver n) kinds) p = Rv_Idle"
proof (rule ccontr)
  assume "link_pc (map (new_receiver n) kinds) p \<noteq> Rv_Idle"
  then obtain i where "i < length kinds" "heading (map (new_receiver n) kinds ! i) p" by (elim link_pc_active) simp
  then show False by (simp add: heading_def new_receiver_def)
qed

lemma threaded_init_inv:
  assumes "threaded_init hash K0 s"
  shows "threaded_inv hash K0 s"
proof -
  have "threads_ok q (td_threads s q)" if "q \<in> set node_ids" for q
    using assms that new_threads_ok unfolding threaded_init_def by metis
  moreover have "link_pc (td_threads s q) p = Rv_Idle" for q p
  proof -
    have "\<exists>n kinds. td_threads s q = map (new_receiver n) kinds"
      using assms unfolding threaded_init_def by (metis list.simps(8))
    then show ?thesis using new_link_pc by metis
  qed
  then have "cluster_init hash K0 (td_abs s)" using assms by (simp add: threaded_init_def cluster_init_def)
  ultimately show ?thesis by (auto simp: threaded_inv_def intro: reach_init)
qed

interpretation receivers: step_invariant "threaded_init hash K0" "threaded_step hash" "threaded_inv hash K0" for hash K0
  by unfold_locales (fact threaded_init_inv, fact threaded_inv_step)

lemma one_thread_active:
  assumes ok: "threads_ok q ths" and p: "link_pc ths p \<noteq> Rv_Idle"
  shows "\<exists>!i. i < length ths \<and> heading (ths ! i) p"
proof -
  obtain i where i: "i < length ths" "heading (ths ! i) p" using p by (rule link_pc_active)
  have src: "p \<in> set (thread_sources q (rx_kind (ths ! j)))" if "j < length ths" "heading (ths ! j) p" for j
    using ok that by (auto simp: threads_ok_def intro: heading_source)
  have "j = i" if "j < length ths" "heading (ths ! j) p" for j
    using source_thread_unique [OF ok i(1) that(1)] src i that by blast
  with i show ?thesis by blast
qed

text \<open>What a thread is about to hand to \<open>handle_messages_batch\<close> is the next part of its source's history.\<close>

lemma buffer_is_next:
  assumes inv: "full_inv hash K0 (td_abs s)" and ok: "threads_ok q (td_threads s q)"
    and pq: "p \<in> set node_ids" "q \<in> set node_ids" "p \<noteq> q" and i: "i < length (td_threads s q)" "heading (td_threads s q ! i) p"
    and pc: "rx_drain (td_threads s q ! i) = Dp_Handle base count"
  defines "msgs \<equiv> take (count - base) (drop base (rx_batch (td_threads s q ! i)))"
  shows "map wire msgs = take (count - base) (drop (c_done (td_cluster s) q p) (c_hist (td_cluster s) p))"
proof -
  have th: "thread_ok q (td_threads s q ! i)" using ok i by (simp add: threads_ok_def)
  have "link_pc (td_threads s q) p = Rv_Handle msgs"
    using link_pc_thread [OF ok i(1) heading_source [OF th i(2)]] i(2) pc by (simp add: msgs_def)
  moreover have "q \<in> set (peers p)" using pq by (simp add: set_peers)
  ultimately obtain rest where "drop (c_done (td_cluster s) q p) (c_hist (td_cluster s) p) = map wire msgs @ rest"
    using full_invD(7) [OF inv pq(1)] by (fastforce elim: link_invE)
  moreover have "length msgs = count - base" using th pc by (auto simp: thread_ok_def msgs_def)
  ultimately show ?thesis by simp
qed

text \<open>Property C11: receiver threads. With one receiver thread for all sources, or with one per source, the threads of
  \<open>start\<close> serve every peer exactly once, and a source is drained by at most one of them. What a thread reads back from
  its buffer to handle are the next messages that its source has issued: the buffer mixes up nothing although it is
  shared by the sources, and it is always large enough. And the cluster whose receivers are what the threads
  stand for only goes through states of the model with an independent receiver per link; so the properties
  of the cluster hold in both configurations.\<close>

theorem receiver_threads_refine:
  assumes "reach (threaded_init hash K0) (threaded_step hash) s" "short (c_hist (td_cluster s))"
    and "p \<in> set node_ids" "q \<in> set node_ids" "p \<noteq> q"
  shows "reachable hash K0 (td_abs s) \<and>
    concat (map (thread_sources q \<circ> rx_kind) (td_threads s q)) = peers q \<and>
    (c_recv (td_abs s) q p \<noteq> Rv_Idle \<longrightarrow> (\<exists>!i. i < length (td_threads s q) \<and> heading (td_threads s q ! i) p)) \<and>
    (\<forall>i base count. i < length (td_threads s q) \<and> heading (td_threads s q ! i) p \<and>
        rx_drain (td_threads s q ! i) = Dp_Handle base count \<longrightarrow>
      count \<le> length (rx_batch (td_threads s q ! i)) \<and>
      map wire (take (count - base) (drop base (rx_batch (td_threads s q ! i))))
        = take (count - base) (drop (c_done (td_cluster s) q p) (c_hist (td_cluster s) p)))"
proof -
  have "threaded_inv hash K0 s" by (rule receivers.inv_reach [OF assms(1)])
  then have r: "reachable hash K0 (td_abs s)" "threads_ok q (td_threads s q)"
    using assms(2,4) by (simp_all add: threaded_inv_def)
  moreover have "full_inv hash K0 (td_abs s)" by (rule reachable_inv [OF r(1)]) (simp add: assms(2))
  note next_ones = buffer_is_next [OF this r(2) assms(3-5)]
  have "count \<le> length (rx_batch (td_threads s q ! i))"
    if "i < length (td_threads s q)" "rx_drain (td_threads s q ! i) = Dp_Handle base count" for i base count
  proof -
    have "thread_ok q (td_threads s q ! i)" using r(2) that(1) by (simp add: threads_ok_def)
    then show ?thesis using that(2) by (simp add: thread_ok_def)
  qed
  ultimately show ?thesis using one_thread_active [OF r(2), of p] next_ones by (simp add: threads_ok_def)
qed

section \<open>A concrete run\<close>

text \<open>
  One step of the receiver thread \<open>i\<close> of a node, and one step of its proposer, as functions. The demonstration cluster
  has one receiver thread per node, pinned to processor 4.
\<close>

definition td_receive :: "(string \<Rightarrow> u64) \<Rightarrow> nat \<Rightarrow> nat \<Rightarrow> Threaded \<Rightarrow> Threaded" where
  "td_receive hash q i s =
     (if q \<in> set node_ids \<and> i < length (td_threads s q)
      then case receiver_step hash q (td_threads s q ! i) (td_cluster s) of
             (th, c) \<Rightarrow> s\<lparr>td_cluster := c, td_threads := (td_threads s)(q := (td_threads s q)[i := th])\<rparr>
      else s)"

definition td_propose :: "(string \<Rightarrow> u64) \<Rightarrow> nat \<Rightarrow> u64 \<Rightarrow> bool \<Rightarrow> Threaded \<Rightarrow> Threaded" where
  "td_propose hash p now fin s =
     (if p \<in> set node_ids
      then case noop_step hash p now fin (c_noop (td_cluster s) p) (c_node (td_cluster s) p) (c_ring (td_cluster s) p) of
             (pc, n, rs) \<Rightarrow> s\<lparr>td_cluster := after_noop (td_cluster s) p pc n rs\<rparr>
      else s)"

abbreviation td_reach :: "(string \<Rightarrow> u64) \<Rightarrow> (string \<rightharpoonup> string) \<Rightarrow> Threaded \<Rightarrow> bool" where
  "td_reach hash K0 \<equiv> reach (threaded_init hash K0) (threaded_step hash)"

lemma reach_receive: "td_reach hash K0 s \<Longrightarrow> td_reach hash K0 (td_receive hash q i s)"
  by (auto simp: td_receive_def split: prod.split intro: reach_step threaded_step.receiver)

lemma reach_propose:
  assumes "td_reach hash K0 s"
  shows "td_reach hash K0 (td_propose hash p now fin s)"
proof (cases "p \<in> set node_ids")
  case True
  obtain pc n rs where st: "noop_step hash p now fin (c_noop (td_cluster s) p) (c_node (td_cluster s) p) (c_ring (td_cluster s) p)
      = (pc, n, rs)" by (metis prod_cases3)
  have "threaded_step hash s (s\<lparr>td_cluster := after_noop (td_cluster s) p pc n rs\<rparr>)"
    by (rule threaded_step.others [OF cluster_step.noop [OF True st]]) simp
  with assms show ?thesis using True st by (auto simp: td_propose_def intro: reach_step)
qed (use assms in \<open>simp add: td_propose_def\<close>)

definition demo_threaded :: Threaded where
  "demo_threaded = \<lparr> td_cluster = demo_cluster, td_threads = (\<lambda>q. if q \<in> set node_ids
      then map (new_receiver (demo_node q)) (start_threads q (n_pipeline_workers (demo_node q)) 4) else []) \<rparr>"

lemma demo_threaded_reach: "td_reach hash Map.empty demo_threaded"
  using demo_initial by (intro reach_init) (auto simp: demo_threaded_def threaded_init_def demo_cluster_def)

text \<open>Node 1 has no input and reserves a number for a no-op; the receiver of node 2 starts a pass.\<close>

definition demo_noop :: BandleMessage where
  "demo_noop = noop_message (demo_node 1)"

definition demo_reserved :: "(string \<Rightarrow> u64) \<Rightarrow> Threaded" where
  "demo_reserved hash = (td_propose hash 1 0 False \<circ> td_propose hash 1 0 False \<circ> td_propose hash 1 0 False)
     (demo_threaded\<lparr>td_cluster := demo_cluster\<lparr>c_node := demo_node(1 := mark_input_done (demo_node 1))\<rparr>\<rparr>)"

definition demo_passing :: "(string \<Rightarrow> u64) \<Rightarrow> Threaded" where
  "demo_passing hash = td_receive hash 2 0 (demo_reserved hash)"

lemma demo_passing_reach: "td_reach hash Map.empty (demo_passing hash)"
proof -
  let ?c = "demo_cluster\<lparr>c_node := demo_node(1 := mark_input_done (demo_node 1))\<rparr>"
  have "cluster_step hash demo_cluster ?c"
    using cluster_step.input_done [of 1 demo_cluster hash] by (simp add: node_ids_def demo_cluster_def)
  then have "threaded_step hash demo_threaded (demo_threaded\<lparr>td_cluster := ?c\<rparr>)"
    by (intro threaded_step.others) (simp_all add: demo_threaded_def)
  with demo_threaded_reach have "td_reach hash Map.empty (demo_threaded\<lparr>td_cluster := ?c\<rparr>)" by (rule reach_step)
  then show ?thesis by (simp add: demo_passing_def demo_reserved_def reach_receive reach_propose)
qed

lemma noop_message_input_done: "noop_message (mark_input_done n) = noop_message n"
  by (simp add: noop_message_def mark_input_done_def)

lemma demo_reserved_fields:
  "td_threads (demo_reserved hash) 2 = [new_receiver (demo_node 2) (Recv_Loop 4)]"
  "c_noop (td_cluster (demo_reserved hash)) 1 = Np_Send demo_noop [2, 3]"
  "c_hist (td_cluster (demo_reserved hash)) = (\<lambda>_. [])(1 := [wire demo_noop])"
  "c_done (td_cluster (demo_reserved hash)) q p = 0" "c_ring (td_cluster (demo_reserved hash)) p q = fresh_ring 0"
  "c_node (td_cluster (demo_reserved hash)) 2 = demo_node 2" "n_running (c_node (td_cluster (demo_reserved hash)) 1)"
  "c_noop (td_cluster (demo_reserved hash)) 3 = Np_Idle"
  by (simp_all add: demo_reserved_def td_propose_def demo_threaded_def demo_cluster_def node_ids_def peers_def start_threads_def
      demo_node_fields [simplified] mark_input_done_def should_propose_noop_locked_def demo_noop_def
      noop_message_def noop_reserve_def demo_node_def bandle_new_def bandle_start_def)

text \<open>Node 1 sends the no-op to node 2, whose receiver finds it, reads it and is about to handle it.\<close>

definition demo_handling :: "(string \<Rightarrow> u64) \<Rightarrow> Threaded" where
  "demo_handling hash = (td_receive hash 2 0 \<circ> td_receive hash 2 0 \<circ> td_receive hash 2 0 \<circ> td_propose hash 1 0 False)
     (demo_passing hash)"

lemma demo_handling_reach: "td_reach hash Map.empty (demo_handling hash)"
  by (simp add: demo_handling_def demo_passing_reach reach_receive reach_propose)

lemma demo_passing_fields:
  "td_threads (demo_passing hash) 2 = [(new_receiver (demo_node 2) (Recv_Loop 4))\<lparr>rx_pc := Lp_Pass [1, 3] False\<rparr>]"
  "td_cluster (demo_passing hash) = td_cluster (demo_reserved hash)"
  using demo_reserved_fields(1,6)
  by (simp_all add: demo_passing_def td_receive_def receiver_step_def node_ids_def peers_def new_receiver_def
      demo_node_def bandle_new_def bandle_start_def)

lemma demo_noop_sent: "\<exists>r. push ring_cap demo_noop (fresh_ring 0) = (True, r) \<and> ring_rep ring_cap r [wire demo_noop] \<and>
    r_head r = 1 \<and> r_tail r = 0"
proof -
  have "prop_ok 1 demo_noop" unfolding demo_noop_def by (rule noop_message_ok) (simp add: demo_node_fields [simplified])
  then have m: "wf_msg demo_noop" "fits demo_noop" by (simp_all add: prop_ok_def)
  obtain r where r: "push ring_cap demo_noop (fresh_ring 0) = (True, r)" "ring_rep ring_cap r [wire demo_noop]"
    using push_rep [OF kBandleRingCapacity_pow2, of "fresh_ring 0" "[]" demo_noop] m by (auto simp: kBandleRingCapacity_def)
  have "r_head r = 1 \<and> r_tail r = 0"
    using r(1) m(2) push_room [of ring_cap "fresh_ring 0" demo_noop]
    by (auto simp: fresh_ring_def kBandleRingCapacity_def)
  with r show ?thesis by blast
qed

lemma td_receive_commit:
  assumes "td_threads s 2 = [th]" "rx_pc th = Lp_Pass (1 # srcs) progressed" "rx_drain th = Dp_More t 1 1"
  shows "\<exists>th'. td_threads (td_receive hash 2 0 s) 2 = [th'] \<and> heading th' 1 \<and> rx_drain th' = Dp_Handle 0 1 \<and> rx_kind th' = rx_kind th"
    "c_hist (td_cluster (td_receive hash 2 0 s)) = c_hist (td_cluster s)"
    "c_done (td_cluster (td_receive hash 2 0 s)) 2 1 = c_done (td_cluster s) 2 1"
  using assms by (auto simp: td_receive_def receiver_step_def pass_next_def node_ids_def heading_def)

lemma demo_handling_fields:
  "\<exists>th. td_threads (demo_handling hash) 2 = [th] \<and> heading th 1 \<and> rx_drain th = Dp_Handle 0 1 \<and> rx_kind th = Recv_Loop 4"
  "c_hist (td_cluster (demo_handling hash)) = (\<lambda>_. [])(1 := [wire demo_noop])" "c_done (td_cluster (demo_handling hash)) 2 1 = 0"
proof -
  obtain r where r: "push ring_cap demo_noop (fresh_ring 0) = (True, r)" "ring_rep ring_cap r [wire demo_noop]"
    "r_head r = 1" "r_tail r = 0" using demo_noop_sent by blast
  let ?b = "rx_batch (new_receiver (demo_node 2) (Recv_Loop 4))"
  have len: "1 \<le> length ?b" "list_all wf_msg ?b" using wf_default
    by (simp_all add: new_receiver_def recv_batch_capacity_def list_all_iff)
  have "ring_inv r [wire demo_noop] [] None" using r(2) by (simp add: ring_inv_def ring_rep_def)
  from read_batch_front [OF this _ len(2,1)] obtain out1 where read: "read_batch_at_abs ring_cap 0 ?b 1 r = (1, out1)"
    by (auto simp: r(4))
  let ?s1 = "td_propose hash 1 0 False (demo_passing hash)"
  have s1: "td_threads ?s1 2 = [(new_receiver (demo_node 2) (Recv_Loop 4))\<lparr>rx_pc := Lp_Pass [1, 3] False\<rparr>]"
    "c_ring (td_cluster ?s1) 1 2 = r" "c_node (td_cluster ?s1) 2 = demo_node 2"
    "c_hist (td_cluster ?s1) = (\<lambda>_. [])(1 := [wire demo_noop])" "c_done (td_cluster ?s1) 2 1 = 0"
    using demo_reserved_fields [of hash] r(1)
    by (simp_all add: td_propose_def demo_passing_fields node_ids_def send_to_peer_def)
  let ?s2 = "td_receive hash 2 0 ?s1"
  have cap: "0 < recv_batch_capacity b" for b by (simp add: recv_batch_capacity_def)
  have s2: "td_threads ?s2 2 = [(new_receiver (demo_node 2) (Recv_Loop 4))\<lparr>rx_pc := Lp_Pass [1, 3] False, rx_drain := Dp_First 0 1\<rparr>]"
    "c_ring (td_cluster ?s2) 1 2 = r" "c_node (td_cluster ?s2) 2 = demo_node 2"
    "c_hist (td_cluster ?s2) = (\<lambda>_. [])(1 := [wire demo_noop])" "c_done (td_cluster ?s2) 2 1 = 0"
    using s1 r(3,4) cap [of "n_batch_size (demo_node 2)"]
    by (simp_all add: td_receive_def receiver_step_def pass_next_def node_ids_def new_receiver_def Let_def)
  let ?s3 = "td_receive hash 2 0 ?s2"
  have s3: "\<exists>th. td_threads ?s3 2 = [th] \<and> rx_pc th = Lp_Pass [1, 3] False \<and> rx_drain th = Dp_More 0 1 1 \<and> rx_kind th = Recv_Loop 4"
    "c_ring (td_cluster ?s3) 1 2 = r" "c_node (td_cluster ?s3) 2 = demo_node 2"
    "c_hist (td_cluster ?s3) = (\<lambda>_. [])(1 := [wire demo_noop])" "c_done (td_cluster ?s3) 2 1 = 0"
    using s2 read by (simp_all add: td_receive_def receiver_step_def pass_next_def node_ids_def new_receiver_def)
  have s4: "demo_handling hash = td_receive hash 2 0 ?s3" by (simp add: demo_handling_def)
  obtain th where "td_threads ?s3 2 = [th]" "rx_pc th = Lp_Pass [1, 3] False" "rx_drain th = Dp_More 0 1 1" "rx_kind th = Recv_Loop 4"
    using s3(1) by blast
  from td_receive_commit [OF this(1-3), of hash] this(4) s3(4,5)
  show "\<exists>th. td_threads (demo_handling hash) 2 = [th] \<and> heading th 1 \<and> rx_drain th = Dp_Handle 0 1 \<and> rx_kind th = Recv_Loop 4"
    "c_hist (td_cluster (demo_handling hash)) = (\<lambda>_. [])(1 := [wire demo_noop])" "c_done (td_cluster (demo_handling hash)) 2 1 = 0"
    unfolding s4 by simp_all
qed

theorem receiver_threads_refine_witness:
  "\<exists>th. td_threads (demo_handling (\<lambda>_. 0)) 2 = [th] \<and> rx_drain th = Dp_Handle 0 1 \<and>
     map wire (take 1 (rx_batch th)) = [wire demo_noop] \<and> thread_sources 2 (rx_kind th) = [1, 3]"
proof -
  let ?s = "demo_handling (\<lambda>_. 0)"
  obtain th where th: "td_threads ?s 2 = [th]" "heading th 1" "rx_drain th = Dp_Handle 0 1" "rx_kind th = Recv_Loop 4"
    using demo_handling_fields(1) by blast
  have "short (c_hist (td_cluster ?s))" by (simp add: demo_handling_fields(2) short_def)
  from receiver_threads_refine [OF demo_handling_reach this, of 1 2] th demo_handling_fields(2,3) [of "\<lambda>_. 0"]
  show ?thesis by (auto simp: node_ids_def peers_def)
qed

end
