(* ===== verification/Request_Completion.thy ===== *)
theory Request_Completion
  imports Cluster_Properties
begin

text \<open>
  Completion of client requests: the pending table of a node against the requests it has issued. A node's
  history is its client requests followed by its no-ops; a request is pending from its admission until
  its sequence number is executed at the node that admitted it, and is completed exactly then.
\<close>

section \<open>Request ids\<close>

definition request_id :: "nat \<Rightarrow> nat \<Rightarrow> u64" where
  "request_id p i = push_bit 56 (of_nat p) OR of_nat (Suc i)"

definition request_slot :: "nat \<Rightarrow> u64" where
  "request_slot i = log_slot (of_nat (Suc i))"

lemma request_id_local:
  assumes "Suc i < 2 ^ 56"
  shows "take_bit 56 (request_id p i) = of_nat (Suc i)"
proof -
  have "take_bit 56 (request_id p i) = take_bit 56 (of_nat (Suc i))"
    unfolding request_id_def by (rule bit_eqI) (auto simp: bit_simps)
  also have "\<dots> = of_nat (Suc i)" 
  proof (rule word_unat_eq_iff [THEN iffD2])
    have "unat (of_nat (Suc i) :: u64) = Suc i" using assms by (intro unat_of_nat_u64) simp
    then show "unat (take_bit 56 (of_nat (Suc i) :: u64)) = unat (of_nat (Suc i) :: u64)"
      using assms by (simp only: unat_take_bit_u64) simp
  qed
  finally show ?thesis .
qed

lemma request_id_slot: "Suc i < 2 ^ 56 \<Longrightarrow> pending_slot (request_id p i) = request_slot i"
proof -
  assume i: "Suc i < 2 ^ 56"
  have "request_id p i AND (push_bit 56 1 - 1) = take_bit 56 (request_id p i)"
    by (simp add: take_bit_eq_mask mask_eq_exp_minus_1 push_bit_eq_mult)
  then show ?thesis by (simp add: pending_slot_def request_id_local [OF i] request_slot_def log_slot_def)
qed

lemma request_id_nonzero: "Suc i < 2 ^ 56 \<Longrightarrow> request_id p i \<noteq> 0"
proof
  assume i: "Suc i < 2 ^ 56" and "request_id p i = 0"
  then have "(of_nat (Suc i) :: u64) = 0" using request_id_local [OF i, of p] by simp
  moreover have "unat (of_nat (Suc i) :: u64) = Suc i" using i by (intro unat_of_nat_u64) simp
  ultimately show False by simp
qed

lemma request_slot_window: "request_slot i = request_slot j \<Longrightarrow> i < j + 65536 \<Longrightarrow> j < i + 65536 \<Longrightarrow> i = j"
  using log_slot_window [of "Suc (min i j)" "Suc i" "Suc j"] by (auto simp: request_slot_def min_def)

section \<open>The pending table\<close>

text \<open>\<open>k\<close> of the proposals \<open>h\<close> that node \<open>p\<close> has issued are client requests.\<close>

definition waiting :: "nat \<Rightarrow> nat \<Rightarrow> Bandle \<Rightarrow> nat set" where
  "waiting p k n = {i. i < k \<and> exec_next n \<le> seq_of p i}"

text \<open>Reads among the first \<open>k\<close> proposals that wait no more.\<close>

definition reads_done :: "nat \<Rightarrow> nat \<Rightarrow> BandleMessage list \<Rightarrow> Bandle \<Rightarrow> nat set" where
  "reads_done p k h n = {i. i < k \<and> i \<notin> waiting p k n \<and> b_op (m_body (h ! i)) = CHR ''G''}"

definition pend_inv :: "nat \<Rightarrow> nat \<Rightarrow> BandleMessage list \<Rightarrow> Bandle \<Rightarrow> bool" where
  "pend_inv p k h n \<longleftrightarrow>
     k \<le> length h \<and> n_next_client_req_id n = of_nat (Suc k) \<and> (\<not> n_input_done n \<longrightarrow> k = length h) \<and>
     (\<forall>i<length h. b_client_req_id (m_body (h ! i)) = (if i < k then request_id p i else 0)) \<and>
     (\<forall>i\<in>waiting p k n. p_id (n_pending n (request_slot i)) = request_id p i \<and> \<not> p_done (n_pending n (request_slot i)) \<and>
        p_op (n_pending n (request_slot i)) = b_op (m_body (h ! i))) \<and>
     n_pending_count n = of_nat (card (waiting p k n)) \<and>
     n_ok_ops n = of_nat (k - card (waiting p k n)) \<and> n_total_ops n = n_ok_ops n + n_error_ops n \<and>
     n_read_ops n = of_nat (card (reads_done p k h n))"

lemma waiting_finite [simp]: "finite (waiting p k n)"
  by (simp add: waiting_def)

lemma reads_done_finite [simp]: "finite (reads_done p k h n)"
  by (simp add: reads_done_def)

lemma reads_done_append: "k \<le> length h \<Longrightarrow> reads_done p k (h @ ws) n = reads_done p k h n"
  by (auto simp: reads_done_def nth_append)

lemma card_waiting: "card (waiting p k n) \<le> k"
  using card_mono [of "{..<k}" "waiting p k n"] by (auto simp: waiting_def)

lemma pend_inv_cong:
  assumes "n_next_client_req_id n' = n_next_client_req_id n" "n_input_done n' = n_input_done n"
    "n_pending n' = n_pending n" "n_pending_count n' = n_pending_count n" "n_ok_ops n' = n_ok_ops n"
    "n_error_ops n' = n_error_ops n + b" "n_total_ops n' = n_total_ops n + b" "n_execute_next n' = n_execute_next n"
    "n_read_ops n' = n_read_ops n"
  shows "pend_inv p k h n' = pend_inv p k h n"
  using assms by (simp add: pend_inv_def reads_done_def waiting_def exec_next_def)

section \<open>Execution\<close>

lemma finish_request_pending:
  assumes "0 < n_pending_count n"
  shows "n_pending (fst (finish_request ps n w)) = (n_pending n)(ps := (n_pending n ps)\<lparr>p_done := True\<rparr>)"
    "n_pending_count (fst (finish_request ps n w)) = n_pending_count n - 1"
    "n_ok_ops (fst (finish_request ps n w)) = n_ok_ops n + 1"
    "n_total_ops (fst (finish_request ps n w)) = n_total_ops n + 1"
    "n_error_ops (fst (finish_request ps n w)) = n_error_ops n"
    "n_read_ops (fst (finish_request ps n w)) = n_read_ops n + (if p_op (n_pending n ps) = CHR ''G'' then 1 else 0)"
  using assms by (simp_all add: finish_defs)

lemma exec_one_pending:
  fixes n hash w
  defines "e \<equiv> n_log n (log_slot (n_execute_next n))"
  defines "n' \<equiv> fst (exec_one hash n w)"
  defines "m \<equiv> (if completes_request e n then fst (finish_request (pending_slot (e_client_req_id e)) n w) else n)"
  shows "n_pending n' = n_pending m" "n_pending_count n' = n_pending_count m" "n_ok_ops n' = n_ok_ops m"
    "n_total_ops n' = n_total_ops m" "n_error_ops n' = n_error_ops m" "n_read_ops n' = n_read_ops m"
  unfolding n'_def m_def e_def
  by (simp_all add: fst_exec_one set_log_def complete_entry_def finish_request_updates)

text \<open>
  The entry that is executed next holds the message its proposer issued under that number: decided, with the
  proposer's id and the client request id of that message.
\<close>

lemma next_entry_message:
  assumes inv: "replica_inv hash K0 hist d n" and short: "short hist" and ready: "entry_ready n (n_execute_next n)"
    and good: "\<forall>q\<in>set node_ids. \<forall>i<length (hist q). good_msg q i (hist q ! i)"
  defines "q \<equiv> proposer_of (exec_next n)" and "i \<equiv> index_of (exec_next n)"
    and "e \<equiv> n_log n (log_slot (n_execute_next n))"
  shows "i < length (hist q)" "e_decision e = 1" "e_proposer e = of_nat q"
    "e_client_req_id e = b_client_req_id (m_body (hist q ! i))"
proof -
  let ?x = "exec_next n"
  have h: "handled d ?x" by (rule ready_handled [OF inv short ready])
  have "d q \<le> length (hist q)" using inv proposer_of_id [of ?x] unfolding replica_inv_def q_def by blast
  with h show iq: "i < length (hist q)" by (simp add: handled_def q_def i_def)
  have "entry_holds hash ?x (issued hist ?x) e (n_log_payloads n (log_slot (n_execute_next n)))"
    using inv h log_invD(1) [of hash hist d n ?x] by (simp add: replica_inv_def execute_next_of_nat e_def)
  moreover have "issued hist ?x = hist q ! i" by (simp add: issued_def q_def i_def)
  moreover have "good_msg q i (hist q ! i)" using good iq proposer_of_id [of ?x] by (simp add: q_def)
  ultimately show "e_decision e = 1" "e_proposer e = of_nat q" "e_client_req_id e = b_client_req_id (m_body (hist q ! i))"
    by (auto simp: entry_holds_def good_msg_def q_def)
qed

text \<open>Two requests of a node that wait at the same time have different pending slots.\<close>

lemma waiting_slots_distinct:
  assumes "j < k" "seq_of p i < seq_of p j" "pend_inv p k ms n"
    and "\<forall>i<length ms. seq_of p i < x + 65536" "seq_of p i = x"
  shows "request_slot j \<noteq> request_slot i"
proof
  assume same: "request_slot j = request_slot i"
  have "seq_of p j < x + 65536" using assms by (auto simp: pend_inv_def)
  then have "i < j" "j < i + 65536" using assms(2,5) by (simp_all add: seq_of_def)
  with request_slot_window [OF same] show False by simp
qed

text \<open>Executing a request of the node itself completes it; executing anything else completes nothing.\<close>

lemma pend_inv_complete:
  assumes pend: "pend_inv p k ms n" and small: "Suc k < 2 ^ 56" and i: "i \<in> waiting p k n" and node: "n_node_id n = of_nat p"
    and e: "e_decision e = 1" "e_proposer e = of_nat p" "e_client_req_id e = request_id p i"
    and entry: "e = n_log n (log_slot (n_execute_next n))"
    and left: "waiting p k (fst (exec_one hash n w)) = waiting p k n - {i}"
    and other: "\<And>j. j \<in> waiting p k (fst (exec_one hash n w)) \<Longrightarrow> request_slot j \<noteq> request_slot i"
  shows "pend_inv p k ms (fst (exec_one hash n w))"
proof -
  let ?n = "fst (exec_one hash n w)"
  have cfg: "n_next_client_req_id ?n = n_next_client_req_id n" "n_input_done ?n = n_input_done n"
    using exec_one_frame(5) [of n hash w] by (simp_all add: same_config_def)
  have i56: "Suc i < 2 ^ 56" using i small by (simp add: waiting_def)
  note slot = request_id_slot [OF i56, of p]
  have tab: "p_id (n_pending n (request_slot i)) = request_id p i" "\<not> p_done (n_pending n (request_slot i))"
    "p_op (n_pending n (request_slot i)) = b_op (m_body (ms ! i))"
    using pend i by (auto simp: pend_inv_def)
  have "i < k" using i by (simp add: waiting_def)
  then have "reads_done p k ms ?n = (if b_op (m_body (ms ! i)) = CHR ''G'' then insert i (reads_done p k ms n) else reads_done p k ms n)"
    using i \<open>i < k\<close> by (auto simp: reads_done_def left)
  moreover have "i \<notin> reads_done p k ms n" using i by (simp add: reads_done_def)
  ultimately have rd: "card (reads_done p k ms ?n)
      = (if b_op (m_body (ms ! i)) = CHR ''G'' then Suc (card (reads_done p k ms n)) else card (reads_done p k ms n))" by simp
  have comp: "completes_request e n"
    using e node tab request_id_nonzero [OF i56] by (simp add: completes_request_def slot Let_def)
  define c where "c = card (waiting p k n) - 1"
  have c: "card (waiting p k n) = Suc c" "card (waiting p k n - {i}) = c"
    using i card_gt_0_iff [of "waiting p k n"] by (auto simp: c_def)
  have le: "Suc c \<le> k" using card_waiting [of p k n] by (simp add: c)
  have "unat (of_nat (Suc c) :: u64) = Suc c" using le small by (intro unat_of_nat_u64) simp
  then have pos: "0 < n_pending_count n" using pend by (simp add: pend_inv_def c word_less_nat_alt)
  have diff: "(of_nat (k - c) :: u64) = of_nat k - of_nat c" using le by (simp add: of_nat_diff)
  show ?thesis
    using pend cfg exec_one_pending [of hash n w] finish_request_pending [OF pos] other [unfolded left] le comp
    by (simp add: pend_inv_def entry [symmetric] e(3) slot c left diff of_nat_diff tab(3) rd)
qed

lemma pend_inv_exec_one:
  assumes inv: "replica_inv hash K0 hist d n" and short: "short hist" and ready: "entry_ready n (n_execute_next n)"
    and good: "\<forall>q\<in>set node_ids. \<forall>i<length (hist q). good_msg q i (hist q ! i)" and p: "p \<in> set node_ids"
    and node: "n_node_id n = of_nat p" and pend: "pend_inv p k (hist p) n" and small: "Suc k < 2 ^ 56"
    and win: "\<forall>i<length (hist p). seq_of p i < exec_next n + 65536"
  shows "pend_inv p k (hist p) (fst (exec_one hash n w))"
proof -
  let ?x = "exec_next n" and ?n = "fst (exec_one hash n w)"
  let ?q = "proposer_of ?x" and ?i = "index_of ?x" and ?e = "n_log n (log_slot (n_execute_next n))"
  note e = next_entry_message [OF inv short ready good]
  have nxt: "exec_next ?n = Suc ?x" by (rule exec_next_exec_one [OF inv short])
  have wait: "waiting p k ?n = waiting p k n - {i. seq_of p i = ?x}" unfolding waiting_def nxt by auto
  show ?thesis
  proof (cases "?q = p \<and> ?i < k")
    case True
    then have seq: "seq_of p ?i = ?x" using seq_of_split [of ?x] inv by (simp add: replica_inv_def)
    have mem: "?i \<in> waiting p k n" using True seq by (simp add: waiting_def)
    have "seq_of p j = ?x \<longleftrightarrow> j = ?i" for j using seq_of_inj [OF p p, of j ?i] seq by simp
    then have wait1: "waiting p k ?n = waiting p k n - {?i}" using wait by simp
    have "request_slot j \<noteq> request_slot ?i" if "j \<in> waiting p k ?n" for j
      using that seq by (intro waiting_slots_distinct [OF _ _ pend win]) (auto simp: waiting_def nxt)
    then show ?thesis
      using e True pend by (intro pend_inv_complete [OF pend small mem node e(2) _ _ refl wait1]) (simp_all add: pend_inv_def)
  next
    case False
    have "\<not> completes_request ?e n"
    proof (cases "?q = p")
      case True
      with False e(1,4) pend have "e_client_req_id ?e = 0" by (simp add: pend_inv_def)
      then show ?thesis by (simp add: completes_request_def)
    next
      case other: False
      have "?q < 2 ^ 64" "p < 2 ^ 64" using proposer_of_id [of ?x] p by (auto simp: node_ids_def)
      then have "(of_nat ?q :: u64) \<noteq> of_nat p" using other unat_of_nat_u64 by metis
      then show ?thesis using e(3) node by (simp add: completes_request_def)
    qed
    moreover have "seq_of p j \<noteq> ?x" if "j < k" for j using False that split_seq_of [OF p, of j] by metis
    then have "waiting p k ?n = waiting p k n" using wait by (auto simp: waiting_def)
    ultimately show ?thesis
      using pend exec_one_pending [of hash n w] exec_one_frame(5) [of n hash w]
      by (simp add: pend_inv_def same_config_def reads_done_def)
  qed
qed

lemma pend_inv_advance:
  assumes inv: "replica_inv hash K0 hist d n" and short: "short hist"
    and good: "\<forall>q\<in>set node_ids. \<forall>i<length (hist q). good_msg q i (hist q ! i)" and p: "p \<in> set node_ids"
    and node: "n_node_id n = of_nat p" and pend: "pend_inv p k (hist p) n" and small: "Suc k < 2 ^ 56"
    and win: "\<forall>i<length (hist p). seq_of p i < exec_next n + 65536"
  shows "pend_inv p k (hist p) (fst (advance_execute_locked hash n))"
proof -
  let ?P = "\<lambda>m. replica_inv hash K0 hist d m \<and> n_node_id m = of_nat p \<and> pend_inv p k (hist p) m \<and>
    (\<forall>i<length (hist p). seq_of p i < exec_next m + 65536)"
  have "?P (fst (advance_execute_locked hash n))"
  proof (rule advance_induct [where P = ?P])
    show "?P n" using inv node pend win by simp
    fix m v assume P: "?P m" and ready: "entry_ready m (n_execute_next m)"
    then have inv: "replica_inv hash K0 hist d m" by blast
    have "n_node_id (fst (exec_one hash m v)) = n_node_id m" using exec_one_frame(5) [of m hash v] by (simp add: same_config_def)
    then show "?P (fst (exec_one hash m v))"
      using P replica_inv_exec_one [OF inv short ready, of v] exec_next_exec_one [OF inv short, of v]
        pend_inv_exec_one [OF inv short ready good p _ _ small] by auto
  qed
  then show ?thesis by blast
qed

lemma handle_proposal_counters:
  fixes n m hash
  defines "n' \<equiv> fst (handle_proposal_locked hash m False n)"
  shows "n_ok_ops n' = n_ok_ops n" "n_error_ops n' = n_error_ops n" "n_total_ops n' = n_total_ops n"
    "n_read_ops n' = n_read_ops n"
  unfolding n'_def by (simp_all add: handle_proposal_locked_def Let_def set_log_def split: prod.split)

lemma pend_inv_deliver_loop: "pend_inv p k h (deliver_loop hash ms n) = pend_inv p k h n"
proof (induction ms arbitrary: n)
  case (Cons m ms)
  have "pend_inv p k h (fst (handle_proposal_locked hash m False n)) = pend_inv p k h n"
    using handle_proposal_frame(1) [of n hash m]
    by (intro pend_inv_cong [where b = 0]) (simp_all add: handle_proposal_frame handle_proposal_counters same_config_def)
  with Cons show ?case by simp
qed simp

lemma pend_at_delivery:
  assumes inv: "full_inv hash K0 c" "short (c_hist c)" and pq: "p \<in> set node_ids" "q \<in> set node_ids"
    and ms: "c_done c q p + length ms \<le> length (c_hist c p)"
      "map wire ms = take (length ms) (drop (c_done c q p) (c_hist c p))" "list_all wf_msg ms"
    and pend: "pend_inv q k (c_hist c q) (c_node c q)" and small: "Suc k < 2 ^ 56"
  shows "pend_inv q k (c_hist c q) (fst (advance_execute_locked hash (deliver_loop hash ms (c_node c q))))"
proof -
  note Dp = full_invD [OF inv(1) pq(1)] and Dq = full_invD [OF inv(1) pq(2)]
  have good: "\<forall>x\<in>set node_ids. \<forall>i<length (c_hist c x). good_msg x i (c_hist c x ! i)"
    using full_invD(2) [OF inv(1)] issue_inv_good by blast
  then have goodp: "\<forall>i<length (c_hist c p). good_msg p i (c_hist c p ! i)" using pq(1) by blast
  have wf: "\<forall>m\<in>set ms. wf_msg m" using ms(3) by (simp add: list_all_iff)
  note rep = replica_inv_deliver [OF inv(2) pq(1) goodp Dq(3) ms(1,2) wf in_flight_window [OF inv(1) pq]]
  have "n_node_id (deliver_loop hash ms (c_node c q)) = of_nat q"
    using Dq(1) deliver_loop_frame(1) [of "c_node c q" hash ms] by (simp add: node_ok_def same_config_def)
  moreover have "\<forall>i<length (c_hist c q). seq_of q i < exec_next (deliver_loop hash ms (c_node c q)) + 65536"
    using in_flight_window [OF inv(1) pq(2,2)] by (simp add: exec_next_def deliver_loop_frame)
  ultimately show ?thesis
    using pend by (intro pend_inv_advance [OF rep inv(2) good pq(2) _ _ small]) (simp_all add: pend_inv_deliver_loop)
qed

section \<open>Admission\<close>

lemma assign_one_counters:
  assumes "assign_one m n = (m1, n1)"
  shows "n_ok_ops n1 = n_ok_ops n" "n_error_ops n1 = n_error_ops n" "n_total_ops n1 = n_total_ops n"
    "n_read_ops n1 = n_read_ops n" "b_op (m_body (wire m1)) = b_op (m_body m)"
  using assms by (auto simp: assign_one_def wire_def rdtsc_ordered_def Let_def)

lemma pend_inv_assign_one:
  assumes pend: "pend_inv p (length h) h n" and a: "assign_one m n = (m1, n1)" and node: "n_node_id n = of_nat p"
    and new: "exec_next n \<le> seq_of p (length h)" "seq_of p (length h) < exec_next n + 65536"
  shows "pend_inv p (Suc (length h)) (h @ [wire m1]) n1"
proof -
  let ?k = "length h"
  note f = assign_one_fields [OF a] assign_one_counters [OF a] and log = assign_one_same_log [OF a]
  have x: "exec_next n1 = exec_next n" using log by (simp add: same_log_def exec_next_def)
  have wait: "waiting p (Suc ?k) n1 = insert ?k (waiting p ?k n)" using new(1) by (auto simp: waiting_def x)
  have k: "?k \<notin> waiting p ?k n" by (simp add: waiting_def)
  have id: "n_next_client_req_id n = of_nat (Suc ?k)" using pend by (simp add: pend_inv_def)
  have cid: "b_client_req_id (m_body m1) = request_id p ?k"
    unfolding f(1) assigned_def request_id_def id node by simp
  have slot: "n_next_client_req_id n AND (kCompletionSlots - 1) = request_slot ?k"
    by (simp add: request_slot_def log_slot_def id)
  have other: "request_slot i \<noteq> request_slot ?k" if "i \<in> waiting p ?k n" for i
  proof
    assume "request_slot i = request_slot ?k"
    moreover have "i < ?k" "?k < i + 65536" using that new(2) by (auto simp: waiting_def seq_of_def)
    ultimately show False using request_slot_window [of i ?k] by simp
  qed
  have tab: "n_pending n1 = (n_pending n)(request_slot ?k :=
      \<lparr> p_id = request_id p ?k, p_op = b_op (m_body m), p_start_tsc = n_tsc n 0, p_done = False \<rparr>)"
    using f(7) by (simp only: slot cid)
  have "p_id (n_pending n1 (request_slot i)) = request_id p i \<and> \<not> p_done (n_pending n1 (request_slot i)) \<and>
      p_op (n_pending n1 (request_slot i)) = b_op (m_body ((h @ [wire m1]) ! i))"
    if "i \<in> insert ?k (waiting p ?k n)" for i
    using that other pend f(12) by (cases "i = ?k") (auto simp: tab pend_inv_def nth_append waiting_def)
  moreover have "reads_done p (Suc ?k) (h @ [wire m1]) n1 = reads_done p ?k h n"
    by (auto simp: reads_done_def wait nth_append)
  then have "n_read_ops n1 = of_nat (card (reads_done p (Suc ?k) (h @ [wire m1]) n1))"
    using pend f(11) by (simp add: pend_inv_def)
  moreover have "b_client_req_id (m_body ((h @ [wire m1]) ! i)) = (if i < Suc ?k then request_id p i else 0)"
    if "i < length (h @ [wire m1])" for i
    using that pend cid by (cases "i = ?k") (auto simp: nth_append pend_inv_def)
  moreover have "n_ok_ops n1 = of_nat (Suc ?k - card (insert ?k (waiting p ?k n)))"
    using pend k f(8) by (simp add: pend_inv_def)
  moreover have "n_pending_count n1 = of_nat (card (insert ?k (waiting p ?k n)))"
    using pend k f(4) by (simp add: pend_inv_def)
  moreover have "n_total_ops n1 = n_ok_ops n1 + n_error_ops n1" using pend f(8-10) by (simp add: pend_inv_def)
  moreover have "n_next_client_req_id n1 = of_nat (Suc (Suc ?k))" using f(3) by (simp add: id)
  ultimately show ?thesis unfolding pend_inv_def wait by simp
qed

lemma pend_inv_assign_chunk:
  assumes "pend_inv p (length h) h n" "assign_chunk ms n = (ms', n')" "n_node_id n = of_nat p"
    and "exec_next n \<le> seq_of p (length h)" "seq_of p (length h + length ms - 1) < exec_next n + 65536"
  shows "pend_inv p (length h + length ms) (h @ map wire ms') n'"
  using assms
proof (induction ms arbitrary: h n ms')
  case (Cons m ms)
  obtain m1 n1 where a: "assign_one m n = (m1, n1)" by fastforce
  obtain ms1 where rest: "assign_chunk ms n1 = (ms1, n')" "ms' = m1 # ms1"
    using Cons.prems(2) a by (auto split: prod.splits)
  have log: "n_node_id n1 = of_nat p" "exec_next n1 = exec_next n"
    using assign_one_same_log [OF a] Cons.prems(3) by (simp_all add: same_log_def exec_next_def)
  have "seq_of p (length h) \<le> seq_of p (length h + length (m # ms) - 1)" by (simp add: seq_of_def)
  then have one: "pend_inv p (Suc (length h)) (h @ [wire m1]) n1"
    using Cons.prems by (intro pend_inv_assign_one [OF _ a]) auto
  have "pend_inv p (length (h @ [wire m1]) + length ms) ((h @ [wire m1]) @ map wire ms1) n'"
    using one Cons.prems(4,5) log by (intro Cons.IH [OF _ rest(1)]) (auto simp: seq_of_def)
  with rest(2) show ?case by simp
qed simp

section \<open>Every step keeps the pending table\<close>

definition brief :: "history \<Rightarrow> bool" where
  "brief hist \<longleftrightarrow> (\<forall>p\<in>set node_ids. Suc (length (hist p)) < 2 ^ 56)"

definition pend_at :: "nat \<Rightarrow> BandleMessage list \<Rightarrow> Bandle \<Rightarrow> noop_pc \<Rightarrow> bool" where
  "pend_at p h n np \<longleftrightarrow> (\<exists>k. pend_inv p k h n) \<and> (\<forall>msg. np = Np_Reserve msg \<longrightarrow> b_client_req_id (m_body msg) = 0)"

definition pend_all :: "Cluster \<Rightarrow> bool" where
  "pend_all c \<longleftrightarrow> (\<forall>p\<in>set node_ids. pend_at p (c_hist c p) (c_node c p) (c_noop c p))"

lemma brief_short: "brief hist \<Longrightarrow> short hist"
  by (fastforce simp: brief_def short_def)

lemma brief_prefix: "brief (hist(p := hist p @ ws)) \<Longrightarrow> brief hist"
  unfolding brief_def by (metis fun_upd_other fun_upd_same le_add1 length_append Suc_le_mono order.strict_trans1)

lemma pend_all_update:
  assumes "pend_all c" "\<And>x. x \<noteq> p \<Longrightarrow> c_node c' x = c_node c x \<and> c_hist c' x = c_hist c x \<and> c_noop c' x = c_noop c x"
    and "pend_at p (c_hist c' p) (c_node c' p) (c_noop c' p)"
  shows "pend_all c'"
  unfolding pend_all_def
proof
  fix x assume "x \<in> set node_ids"
  with assms show "pend_at x (c_hist c' x) (c_node c' x) (c_noop c' x)" by (cases "x = p") (auto simp: pend_all_def)
qed

lemma next_not_executed:
  assumes "replica_inv hash K0 hist d n" "p \<in> set node_ids"
  shows "exec_next n \<le> seq_of p (length (hist p))"
proof (rule ccontr)
  assume "\<not> exec_next n \<le> seq_of p (length (hist p))"
  then have "handled d (seq_of p (length (hist p)))"
    using assms split_seq_of(3) [OF assms(2)] by (simp add: replica_inv_def)
  then have "length (hist p) < d p" using split_seq_of [OF assms(2)] by (simp add: handled_def)
  with assms show False by (auto simp: replica_inv_def)
qed

lemma pend_admit:
  assumes inv: "full_inv hash K0 c" and p: "p \<in> set node_ids" and sub: "c_sub c p = Sub_Admit (ch # chs)"
    and adm: "try_assign ch (c_node c p) = Some (ms, n)" and short: "short ((c_hist c)(p := c_hist c p @ map wire ms))"
    and pend: "pend_at p (c_hist c p) (c_node c p) np"
  shows "pend_at p (c_hist c p @ map wire ms) n np"
proof -
  note D = full_invD [OF inv p]
  let ?n = "c_node c p" and ?h = "c_hist c p"
  have node: "n_node_id ?n = of_nat p" "n_cluster_size ?n = 3" "window_ok ?n" "chunk_ok p ch" "\<not> n_input_done ?n"
    using D(1) by (auto simp: node_ok_def sub)
  have short0: "short (c_hist c)" using short by (rule short_prefix)
  then have len: "length ?h < 2 ^ 60" using p by (simp add: short_def)
  have a: "assign_chunk ch ?n = (ms, n)" using adm by (auto simp: try_assign_def Let_def split: if_splits)
  then have lms: "length ms = length ch" using assign_chunk_spec [OF a] by simp
  note iss = assign_issues [OF node(2-4) D(2) replica_inv_next_bound [OF short0 D(3)] len p adm]
  have ne: "ch \<noteq> []" using node(4) by (simp add: chunk_ok_def)
  have win: "seq_of p (length ?h + length ch - 1) < exec_next ?n + 65536"
    using issue_inv_bound [OF iss(3), of "length ?h + length ch - 1"] ne lms
    by (cases ch) (simp_all add: exec_next_same_log [OF iss(1)])
  obtain k where k: "pend_inv p k ?h ?n" using pend by (auto simp: pend_at_def)
  with node(5) have "k = length ?h" by (simp add: pend_inv_def)
  with k have "pend_inv p (length ?h) ?h ?n" by simp
  from pend_inv_assign_chunk [OF this a node(1) next_not_executed [OF D(3) p] win] pend show ?thesis
    by (auto simp: pend_at_def)
qed

lemma pend_reserve:
  assumes "pend_inv p k h n" "n_input_done n" "b_client_req_id (m_body msg) = 0"
  shows "pend_inv p k (h @ [wire msg]) (noop_reserve now n)"
proof -
  have "pend_inv p k (h @ [wire msg]) n" using assms by (auto simp: pend_inv_def nth_append reads_done_append waiting_def)
  then show ?thesis by (subst pend_inv_cong [where b = 0 and n = n]) (simp_all add: noop_reserve_def)
qed

lemma pend_delivery:
  assumes "full_inv hash K0 c" "brief (c_hist c)" "p \<in> set node_ids" "q \<in> set node_ids"
    and "c_done c q p + length ms \<le> length (c_hist c p)"
      "map wire ms = take (length ms) (drop (c_done c q p) (c_hist c p))" "list_all wf_msg ms"
    and "pend_at q (c_hist c q) (c_node c q) np"
  shows "pend_at q (c_hist c q) (fst (advance_execute_locked hash (deliver_loop hash ms (c_node c q)))) np"
proof -
  obtain k where k: "pend_inv q k (c_hist c q) (c_node c q)" using assms(8) by (auto simp: pend_at_def)
  then have "k \<le> length (c_hist c q)" by (simp add: pend_inv_def)
  then have "Suc k < 2 ^ 56" using assms(2,4) by (fastforce simp: brief_def)
  from pend_at_delivery [OF assms(1) brief_short [OF assms(2)] assms(3-7) k this] assms(8) show ?thesis
    by (auto simp: pend_at_def)
qed

lemma pend_own_delivery:
  assumes inv: "full_inv hash K0 c" "brief (c_hist c)" and p: "p \<in> set node_ids"
    and own: "self_pending (c_sub c p) (c_noop c p) = map wire ms" "list_all wf_msg ms"
    and pend: "pend_at p (c_hist c p) (c_node c p) np"
  shows "pend_at p (c_hist c p) (fst (advance_execute_locked hash (deliver_loop hash ms (c_node c p)))) np"
proof -
  note D = full_invD [OF inv(1) p]
  have dr: "drop (c_done c p p) (c_hist c p) = map wire ms" using D(5) own(1) by simp
  then have "c_done c p p + length ms = length (c_hist c p)"
    using D(4) by (metis length_drop length_map le_add_diff_inverse)
  with dr own(2) pend show ?thesis by (intro pend_delivery [OF inv p p]) simp_all
qed

lemma pend_at_same_noop: "pend_at p h n np \<Longrightarrow> (\<And>msg. np' \<noteq> Np_Reserve msg) \<Longrightarrow> pend_at p h n np'"
  by (simp add: pend_at_def)

lemma sub_issues_same [simp]: "sub_issues pc pc = []"
  by (cases pc) simp_all

lemma pend_submit:
  assumes inv: "full_inv hash K0 c" and p: "p \<in> set node_ids" and pend: "pend_all c"
    and step: "submit_step hash p (c_sub c p) (c_node c p) (c_ring c p) = (pc, n, rs)"
    and brief: "brief ((c_hist c)(p := c_hist c p @ sub_issues (c_sub c p) pc))"
  shows "pend_at p (c_hist c p @ sub_issues (c_sub c p) pc) n (c_noop c p)"
proof -
  have at: "pend_at p (c_hist c p) (c_node c p) (c_noop c p)" using pend p by (simp add: pend_all_def)
  note D = full_invD [OF inv p] and brief0 = brief_prefix [OF brief]
  show ?thesis
  proof (cases "c_sub c p")
    case Sub_Idle
    with step at show ?thesis by simp
  next
    case (Sub_Admit chunks)
    show ?thesis
    proof (cases chunks)
      case Nil
      with Sub_Admit step at show ?thesis by simp
    next
      case (Cons ch chs)
      show ?thesis
      proof (cases "try_assign ch (c_node c p)")
        case None
        with Sub_Admit Cons step at show ?thesis by auto
      next
        case (Some r)
        obtain ms n' where r: "r = (ms, n')" by fastforce
        from Sub_Admit Cons Some step r have "pc = Sub_Bcast ms (bcast_start ms) chs" "n = n'" by simp_all
        with pend_admit [OF inv p Sub_Admit [unfolded Cons] Some [unfolded r] _ at] brief_short [OF brief] Sub_Admit
        show ?thesis by simp
      qed
    qed
  next
    case (Sub_Bcast ms bpc chs)
    then have "n = c_node c p" using step by (auto split: bcast_pc.splits prod.splits)
    with at Sub_Bcast show ?thesis by simp
  next
    case (Sub_Deliver ms chs)
    have "c_noop c p = Np_Idle" "chunk_ok p ms" using D(1) sub_active_noop [OF D(1)] by (auto simp: node_ok_def Sub_Deliver)
    then have "self_pending (c_sub c p) (c_noop c p) = map wire ms" "list_all wf_msg ms"
      using chunk_ok_msgs [of p ms] by (simp_all add: Sub_Deliver list_all_iff)
    from pend_own_delivery [OF inv brief0 p this at] Sub_Deliver step show ?thesis by (auto simp: deliver_chunk_def)
  qed
qed

lemma pend_noop:
  assumes inv: "full_inv hash K0 c" and p: "p \<in> set node_ids" and pend: "pend_all c"
    and step: "noop_step hash p now fin (c_noop c p) (c_node c p) (c_ring c p) = (pc, n, rs)"
    and brief: "brief ((c_hist c)(p := c_hist c p @ noop_issues (c_noop c p)))"
  shows "pend_at p (c_hist c p @ noop_issues (c_noop c p)) n pc"
proof -
  have at: "pend_at p (c_hist c p) (c_node c p) (c_noop c p)" using pend p by (simp add: pend_all_def)
  note D = full_invD [OF inv p] and brief0 = brief_prefix [OF brief]
  show ?thesis
  proof (cases "c_noop c p")
    case Np_Idle
    with step at show ?thesis by (auto simp: pend_at_def split: if_splits)
  next
    case Np_Read
    with step at show ?thesis by (auto simp: pend_at_def noop_message_def default_message_def default_payload_def)
  next
    case (Np_Reserve msg)
    then have "n_input_done (c_node c p)" using noop_active_sub [OF D(1)] by simp
    with at step Np_Reserve pend_reserve [of p _ "c_hist c p" "c_node c p" msg now] show ?thesis
      by (auto simp: pend_at_def)
  next
    case (Np_Send msg qs)
    with step at show ?thesis by (cases qs) (auto simp: pend_at_def split: if_splits prod.splits)
  next
    case (Np_Deliver msg)
    have "c_sub c p = Sub_Idle" "wf_msg msg" using noop_active_sub [OF D(1)] D(1) by (auto simp: node_ok_def Np_Deliver prop_ok_def)
    then have "self_pending (c_sub c p) (c_noop c p) = map wire [msg]" "list_all wf_msg [msg]" by (simp_all add: Np_Deliver)
    from pend_own_delivery [OF inv brief0 p this at] Np_Deliver step show ?thesis
      by (auto simp: handle_proposal_advance pend_at_def)
  qed
qed

lemma pend_recv:
  assumes inv: "full_inv hash K0 c" "brief (c_hist c)" and pq: "p \<in> set node_ids" "q \<in> set node_ids" "p \<noteq> q"
    and buf: "buffer_ok (c_recv c q p) buf" and pend: "pend_all c"
    and step: "recv_step hash buf (c_recv c q p) (c_node c q) (c_ring c p q) = (pc, n, r)"
  shows "pend_at q (c_hist c q) n (c_noop c q)"
proof -
  have at: "pend_at q (c_hist c q) (c_node c q) (c_noop c q)" using pend pq by (simp add: pend_all_def)
  have "q \<in> set (peers p)" using pq by (simp add: set_peers)
  note link = full_invD(7) [OF inv(1) pq(1) this]
  show ?thesis
  proof (cases "c_recv c q p")
    case (Rv_Handle msgs)
    let ?ms = "take kHandleChunk msgs"
    note hd = link_recv_handle [OF link [unfolded Rv_Handle] step [unfolded Rv_Handle]]
    then have ms: "c_done c q p + length ?ms \<le> length (c_hist c p)"
      "map wire ?ms = take (length ?ms) (drop (c_done c q p) (c_hist c p))" "list_all wf_msg ?ms" by blast+
    show ?thesis
    proof (cases "msgs = []")
      case False
      then have "?ms \<noteq> []" by (simp add: kHandleChunk_def)
      then have "n = fst (advance_execute_locked hash (deliver_loop hash ?ms (c_node c q)))"
        using hd False handle_chunk_proposals [OF handled_types [OF full_invD(2) [OF inv(1) pq(1)] ms(2)]] by simp
      with pend_delivery [OF inv pq(1,2) ms at] show ?thesis by simp
    qed (use hd at in simp)
  qed (use step at in \<open>auto simp: Let_def split: if_splits prod.splits\<close>)
qed

lemma pend_all_step:
  assumes inv: "full_inv hash K0 c" and pend: "pend_all c" and step: "cluster_step hash c c'" and brief: "brief (c_hist c')"
  shows "pend_all c'"
  using step
proof (cases rule: cluster_step.cases)
  case (begin_submit p reqs scratch pc n)
  obtain b where "n = (c_node c p)\<lparr>n_error_ops := n_error_ops (c_node c p) + b,
      n_total_ops := n_total_ops (c_node c p) + b\<rparr> \<or> n = c_node c p"
    using begin_submit(7) by (auto simp: submit_begin_def build_proposals_spec split: if_splits)
  then have "pend_inv p k h n = pend_inv p k h (c_node c p)" for k h
    by (elim disjE) (rule pend_inv_cong [where b = b], simp_all)
  with pend begin_submit(2) have "pend_at p (c_hist c p) n (c_noop c p)" by (simp add: pend_all_def pend_at_def)
  then show ?thesis unfolding begin_submit(1) by (intro pend_all_update [OF pend, of p]) simp_all
next
  case (submit p pc n rs)
  have "pend_at p (c_hist c p @ sub_issues (c_sub c p) pc) n (c_noop c p)"
    by (rule pend_submit [OF inv submit(2) pend submit(3)]) (use brief submit(1) in simp)
  then show ?thesis unfolding submit(1) by (intro pend_all_update [OF pend, of p]) simp_all
next
  case (input_done p)
  have "pend_inv p k h (c_node c p) \<Longrightarrow> pend_inv p k h (mark_input_done (c_node c p))" for k h
    by (simp add: pend_inv_def mark_input_done_def reads_done_def waiting_def exec_next_def)
  with pend input_done(2) have "pend_at p (c_hist c p) (mark_input_done (c_node c p)) (c_noop c p)"
    unfolding pend_all_def pend_at_def by metis
  then show ?thesis unfolding input_done(1) by (intro pend_all_update [OF pend, of p]) simp_all
next
  case (noop p now fin pc n rs)
  have "pend_at p (c_hist c p @ noop_issues (c_noop c p)) n pc"
    by (rule pend_noop [OF inv noop(2) pend noop(3)]) (use brief noop(1) in simp)
  then show ?thesis unfolding noop(1) by (intro pend_all_update [OF pend, of p]) simp_all
next
  case (recv p q buf pc n r)
  have "pend_at q (c_hist c q) n (c_noop c q)"
    by (rule pend_recv [OF inv _ recv(2-5) pend recv(6)]) (use brief recv(1) in simp)
  then show ?thesis unfolding recv(1) by (intro pend_all_update [OF pend, of q]) simp_all
qed

definition completion_inv :: "(string \<Rightarrow> u64) \<Rightarrow> (string \<rightharpoonup> string) \<Rightarrow> Cluster \<Rightarrow> bool" where
  "completion_inv hash K0 c \<longleftrightarrow> cluster_inv hash K0 c \<and> (brief (c_hist c) \<longrightarrow> pend_all c)"

lemma completion_inv_step:
  assumes inv: "completion_inv hash K0 c" and step: "cluster_step hash c c'"
  shows "completion_inv hash K0 c'"
proof -
  have "pend_all c'" if brief: "brief (c_hist c')"
  proof -
    obtain p ws where "c_hist c' = (c_hist c)(p := c_hist c p @ ws)" using step_history [OF step] by blast
    with brief have b: "brief (c_hist c)" using brief_prefix [of "c_hist c" p ws] by simp
    have "cluster_inv hash K0 c" using inv by (simp only: completion_inv_def)
    then have "full_inv hash K0 c" using brief_short [OF b] by (simp only: cluster_inv_def simp_thms)
    moreover have "pend_all c" using inv b by (simp only: completion_inv_def simp_thms)
    ultimately show ?thesis using step brief by (rule pend_all_step)
  qed
  with inv cluster_inv_step [OF _ step] show ?thesis by (simp add: completion_inv_def)
qed

lemma new_counters:
  assumes new: "bandle_new node_id cs poll us batch workers window adm tsc = Some m"
  shows "n_next_client_req_id m = 1" "n_pending_count m = 0" "n_ok_ops m = 0" "n_error_ops m = 0" "n_total_ops m = 0" "n_read_ops m = 0"
proof -
  have "bandle_new node_id cs poll us batch workers window adm tsc = None" if "cs \<noteq> 3 \<or> node_id < 1 \<or> cs < node_id"
    unfolding bandle_new_def if_P [OF that] ..
  with new have ok: "\<not> (cs \<noteq> 3 \<or> node_id < 1 \<or> cs < node_id)" by force
  note new [unfolded bandle_new_def if_not_P [OF ok] option.inject, symmetric]
  then show "n_next_client_req_id m = 1" "n_pending_count m = 0" "n_ok_ops m = 0" "n_error_ops m = 0" "n_total_ops m = 0" "n_read_ops m = 0"
    by simp_all
qed

lemma initial_counters:
  assumes "initial_node hash K0 p n"
  shows "n_next_client_req_id n = 1" "n_pending_count n = 0" "n_ok_ops n = 0" "n_error_ops n = 0" "n_total_ops n = 0" "n_read_ops n = 0"
proof -
  obtain poll us batch workers window adm tsc kv now m where
    m: "bandle_new (of_nat p) 3 poll us batch workers window adm tsc = Some m"
    and n: "n = bandle_start now (m\<lparr>n_kv := kv\<rparr>)"
    using assms unfolding initial_node_def by (elim exE conjE)
  show "n_next_client_req_id n = 1" "n_pending_count n = 0" "n_ok_ops n = 0" "n_error_ops n = 0" "n_total_ops n = 0" "n_read_ops n = 0"
    using new_counters [OF m] n by (simp_all add: bandle_start_def)
qed

lemma completion_inv_init:
  assumes init: "cluster_init hash K0 c"
  shows "completion_inv hash K0 c"
proof -
  have "pend_at p (c_hist c p) (c_node c p) (c_noop c p)" if "p \<in> set node_ids" for p
  proof -
    have "initial_node hash K0 p (c_node c p)" using init that by (simp add: cluster_init_def)
    from initial_counters [OF this] initial_node_fields(5) [OF this] init have "pend_inv p 0 (c_hist c p) (c_node c p)"
      by (simp add: pend_inv_def cluster_init_def waiting_def reads_done_def)
    with init show ?thesis by (auto simp: pend_at_def cluster_init_def)
  qed
  with cluster_inv_init [OF init] show ?thesis by (simp add: completion_inv_def pend_all_def)
qed

interpretation completion: step_invariant "cluster_init hash K0" "cluster_step hash" "completion_inv hash K0" for hash K0
  by unfold_locales (auto intro: completion_inv_init completion_inv_step)

section \<open>Completion\<close>

definition is_request :: "BandleMessage \<Rightarrow> bool" where
  "is_request w \<longleftrightarrow> b_client_req_id (m_body w) \<noteq> 0"

definition is_read_request :: "BandleMessage \<Rightarrow> bool" where
  "is_read_request w \<longleftrightarrow> is_request w \<and> b_op (m_body w) = CHR ''G''"

lemma reachable_pending:
  assumes "reachable hash K0 c" "brief (c_hist c)" "p \<in> set node_ids"
  obtains k where "pend_inv p k (c_hist c p) (c_node c p)" "Suc k < 2 ^ 56"
    "\<forall>i<length (c_hist c p). is_request (c_hist c p ! i) \<longleftrightarrow> i < k" "n_running (c_node c p)"
proof -
  have inv: "completion_inv hash K0 c" by (rule completion.inv_reach [OF assms(1)])
  then have "cluster_inv hash K0 c" by (simp only: completion_inv_def)
  then have "full_inv hash K0 c" using brief_short [OF assms(2)] by (simp only: cluster_inv_def simp_thms)
  from full_invD(1) [OF this assms(3)] have run: "n_running (c_node c p)" by (simp add: node_ok_def)
  have "pend_all c" using inv assms(2) by (simp only: completion_inv_def simp_thms)
  with assms(3) obtain k where k: "pend_inv p k (c_hist c p) (c_node c p)" by (auto simp: pend_all_def pend_at_def)
  then have "k \<le> length (c_hist c p)" by (simp add: pend_inv_def)
  with assms(2,3) have small: "Suc k < 2 ^ 56" by (fastforce simp: brief_def)
  have "is_request (c_hist c p ! i) \<longleftrightarrow> i < k" if "i < length (c_hist c p)" for i
    using k that small request_id_nonzero [of i p] by (auto simp: pend_inv_def is_request_def)
  with k small run show ?thesis by (intro that) blast+
qed

lemma pend_inv_sets:
  assumes k: "pend_inv p k h n" and reqs: "\<forall>i<length h. is_request (h ! i) \<longleftrightarrow> i < k"
  shows "{i. i < length h \<and> is_request (h ! i) \<and> exec_next n \<le> seq_of p i} = waiting p k n"
    and "card {i. i < length h \<and> is_request (h ! i) \<and> seq_of p i < exec_next n} = k - card (waiting p k n)"
proof -
  have le: "k \<le> length h" using k by (simp add: pend_inv_def)
  show "{i. i < length h \<and> is_request (h ! i) \<and> exec_next n \<le> seq_of p i} = waiting p k n"
    using reqs le by (auto simp: waiting_def)
  have "{i. i < length h \<and> is_request (h ! i) \<and> seq_of p i < exec_next n} = {..<k} - waiting p k n"
    using reqs le by (auto simp: waiting_def)
  moreover have "waiting p k n \<subseteq> {..<k}" by (auto simp: waiting_def)
  ultimately show "card {i. i < length h \<and> is_request (h ! i) \<and> seq_of p i < exec_next n} = k - card (waiting p k n)"
    by (simp add: card_Diff_subset)
qed

text \<open>
  In every reachable state the pending count of a node is the number of client requests it has admitted and not yet
  executed, \<open>ok_ops_\<close> is the number it has executed and \<open>read_ops_\<close> the number of reads among these.
\<close>

lemma request_counts:
  assumes "reachable hash K0 c" "brief (c_hist c)" "p \<in> set node_ids"
  defines "n \<equiv> c_node c p" and "h \<equiv> c_hist c p"
  shows "unat (n_pending_count n) = card {i. i < length h \<and> is_request (h ! i) \<and> exec_next n \<le> seq_of p i} \<and>
    unat (n_ok_ops n) = card {i. i < length h \<and> is_request (h ! i) \<and> seq_of p i < exec_next n} \<and>
    unat (n_read_ops n) = card {i. i < length h \<and> is_read_request (h ! i) \<and> seq_of p i < exec_next n} \<and>
    n_total_ops n = n_ok_ops n + n_error_ops n"
proof -
  obtain k where k: "pend_inv p k h n" "Suc k < 2 ^ 56" "\<forall>i<length h. is_request (h ! i) \<longleftrightarrow> i < k"
    using reachable_pending [OF assms(1-3)] unfolding n_def h_def by metis
  have "card (waiting p k n) < 2 ^ 64" "k - card (waiting p k n) < 2 ^ 64"
    using card_waiting [of p k n] k(2) by simp_all
  then have "unat (n_pending_count n) = card (waiting p k n)" "unat (n_ok_ops n) = k - card (waiting p k n)"
    using k(1) by (simp_all only: pend_inv_def unat_of_nat_u64)
  moreover have "{i. i < length h \<and> is_read_request (h ! i) \<and> seq_of p i < exec_next n} = reads_done p k h n"
    using k(1,3) by (auto simp: is_read_request_def reads_done_def waiting_def pend_inv_def)
  moreover have "card (reads_done p k h n) \<le> card {..<k}" by (intro card_mono) (auto simp: reads_done_def)
  then have "unat (n_read_ops n) = card (reads_done p k h n)"
    using k(1,2) unat_of_nat_u64 [of "card (reads_done p k h n)"] by (simp add: pend_inv_def)
  ultimately show ?thesis using pend_inv_sets [OF k(1,3)] k(1) by (simp add: pend_inv_def)
qed

lemma wait_iff_executed:
  assumes "reachable hash K0 c" "brief (c_hist c)" "p \<in> set node_ids"
  shows "pending_wait_over (c_node c p) \<longleftrightarrow>
    (\<forall>i<length (c_hist c p). is_request (c_hist c p ! i) \<longrightarrow> seq_of p i < exec_next (c_node c p))"
proof -
  obtain k where k: "pend_inv p k (c_hist c p) (c_node c p)" "Suc k < 2 ^ 56"
    "\<forall>i<length (c_hist c p). is_request (c_hist c p ! i) \<longleftrightarrow> i < k" "n_running (c_node c p)"
    using assms by (rule reachable_pending)
  let ?w = "waiting p k (c_node c p)"
  have "card ?w < 2 ^ 64" using card_waiting [of p k "c_node c p"] k(2) by simp
  then have "unat (n_pending_count (c_node c p)) = card ?w" using k(1) by (simp only: pend_inv_def unat_of_nat_u64)
  then have "pending_wait_over (c_node c p) \<longleftrightarrow> ?w = {}" using k(4) by (simp add: pending_wait_over_def unat_eq_0_iff)
  also have "\<dots> \<longleftrightarrow> (\<forall>i<length (c_hist c p). is_request (c_hist c p ! i) \<longrightarrow> seq_of p i < exec_next (c_node c p))"
    unfolding pend_inv_sets(1) [OF k(1,3), symmetric] by (auto simp: not_le)
  finally show ?thesis .
qed

text \<open>waiting for all pending requests. \<open>wait_for_all_pending\<close> returns exactly when the node has
  executed every client request that it has admitted; so a node that reports that it has finished has
  applied all its own requests.\<close>

theorem wait_returns_when_executed:
  assumes "reachable hash K0 c" "brief (c_hist c)" "p \<in> set node_ids"
  shows "pending_wait_over (c_node c p) \<longleftrightarrow>
    (\<forall>i<length (c_hist c p). is_request (c_hist c p ! i) \<longrightarrow> seq_of p i < exec_next (c_node c p))"
  using assms by (rule wait_iff_executed)

theorem wait_returns_when_executed_witness: "pending_wait_over (c_node demo_cluster 1)"
proof -
  have "c_hist demo_cluster = (\<lambda>_. [])" by (simp add: demo_cluster_def)
  with wait_returns_when_executed [OF demo_replica(1), of 1] show ?thesis by (simp add: brief_def node_ids_def)
qed

end
