(* ===== verification/Cluster_Progress.thy ===== *)
theory Cluster_Progress
  imports Request_Completion
begin

text \<open>
  The threads never block each other for good: from every reachable state they can go on, once the drivers
  that have nothing to submit declare their input done, until every submission has returned and every
  request has completed. A run first drains the rings, then the owner of the next sequence number issues it,
  as a waiting chunk or as a no-op, and so on.
\<close>

section \<open>Work in hand\<close>

fun bc_rank :: "bcast_pc \<Rightarrow> nat" where
  "bc_rank (Bc_Loop heads) = 10"
| "bc_rank (Bc_Check qs heads) = 7 + length qs"
| "bc_rank (Bc_Write qs heads) = 4 + length qs"
| "bc_rank (Bc_Publish qs heads) = 1 + length qs"
| "bc_rank Bc_Done = 0"

fun sub_rank :: "submit_pc \<Rightarrow> nat" where
  "sub_rank Sub_Idle = 0"
| "sub_rank (Sub_Admit chs) = 1"
| "sub_rank (Sub_Bcast msgs pc chs) = 2 + bc_rank pc"
| "sub_rank (Sub_Deliver msgs chs) = 1"

fun noop_rank :: "noop_pc \<Rightarrow> nat" where
  "noop_rank (Np_Send msg qs) = 2 + length qs"
| "noop_rank (Np_Deliver msg) = 1"
| "noop_rank _ = 0"

fun recv_rank :: "recv_pc \<Rightarrow> nat" where
  "recv_rank (Rv_Handle msgs) = (if msgs = [] then 4 else 0)"
| "recv_rank Rv_Idle = 3"
| "recv_rank (Rv_First t count) = 2"
| "recv_rank (Rv_More t count got) = 1"

text \<open>For every pair of nodes, how many proposals of one the other has not handled, and where the threads are.\<close>

definition load :: "Cluster \<Rightarrow> nat \<times> nat \<Rightarrow> nat" where
  "load c = (\<lambda>(p, q). if p = q then sub_rank (c_sub c p) + noop_rank (c_noop c p) else recv_rank (c_recv c q p))"

definition unhandled :: "Cluster \<Rightarrow> nat" where
  "unhandled c = (\<Sum>(p, q)\<in>set node_ids \<times> set node_ids. length (c_hist c p) - c_done c q p)"

definition ranks :: "Cluster \<Rightarrow> nat" where
  "ranks c = (\<Sum>pq\<in>set node_ids \<times> set node_ids. load c pq)"

definition closer :: "(Cluster \<times> Cluster) set" where
  "closer = measures [unhandled, ranks]"

lemma closer_handled:
  assumes pq: "p \<in> set node_ids" "q \<in> set node_ids" and hist: "c_hist c' = c_hist c"
    and le: "\<And>x y. c_done c y x \<le> c_done c' y x"
    and less: "c_done c q p < c_done c' q p" "c_done c' q p \<le> length (c_hist c p)"
  shows "(c', c) \<in> closer"
proof -
  have "unhandled c' < unhandled c"
    unfolding unhandled_def
  proof (rule sum_strict_mono_ex1)
    show "\<forall>x\<in>set node_ids \<times> set node_ids. (case x of (p, q) \<Rightarrow> length (c_hist c' p) - c_done c' q p)
        \<le> (case x of (p, q) \<Rightarrow> length (c_hist c p) - c_done c q p)"
      using le by (auto simp: hist intro: diff_le_mono2)
    show "\<exists>x\<in>set node_ids \<times> set node_ids. (case x of (p, q) \<Rightarrow> length (c_hist c' p) - c_done c' q p)
        < (case x of (p, q) \<Rightarrow> length (c_hist c p) - c_done c q p)"
      using pq less by (intro bexI [of _ "(p, q)"]) (auto simp: hist)
  qed simp
  then show ?thesis by (simp add: closer_def)
qed

lemma closer_rank:
  assumes pq: "p \<in> set node_ids" "q \<in> set node_ids" and same: "c_hist c' = c_hist c" "c_done c' = c_done c"
    and le: "\<And>x. x \<noteq> (p, q) \<Longrightarrow> load c' x = load c x" and less: "load c' (p, q) < load c (p, q)"
  shows "(c', c) \<in> closer"
proof -
  have "ranks c' < ranks c"
    unfolding ranks_def
  proof (rule sum_strict_mono_ex1)
    show "\<forall>x\<in>set node_ids \<times> set node_ids. load c' x \<le> load c x"
      using le less by (metis order_refl less_imp_le)
    show "\<exists>x\<in>set node_ids \<times> set node_ids. load c' x < load c x" using pq less by blast
  qed simp
  moreover have "unhandled c' = unhandled c" by (simp add: unhandled_def same)
  ultimately show ?thesis by (simp add: closer_def)
qed

lemma wf_closer: "wf closer"
  by (simp add: closer_def)

section \<open>What a run owes\<close>

text \<open>Proposals that a submission in progress has still to issue, and the number a node will have issued.\<close>

fun queued :: "submit_pc \<Rightarrow> nat" where
  "queued (Sub_Admit chs) = sum_list (map length chs)"
| "queued (Sub_Bcast msgs pc chs) = sum_list (map length chs)"
| "queued (Sub_Deliver msgs chs) = sum_list (map length chs)"
| "queued Sub_Idle = 0"

definition demand :: "Cluster \<Rightarrow> nat \<Rightarrow> nat" where
  "demand c p = length (c_hist c p) + queued (c_sub c p)"

text \<open>
  The run starts no submission: one that is in progress was so at its start and owes the same. What the
  run issues beyond that are no-ops.
\<close>

definition carries :: "Cluster \<Rightarrow> Cluster \<Rightarrow> bool" where
  "carries c c' \<longleftrightarrow> (\<forall>p\<in>set node_ids.
     (c_sub c' p \<noteq> Sub_Idle \<longrightarrow> c_sub c p \<noteq> Sub_Idle \<and> demand c' p = demand c p) \<and>
     (\<exists>ws. c_hist c' p = c_hist c p @ ws \<and>
        (\<forall>i<length ws. is_request (ws ! i) \<longrightarrow> length (c_hist c p) + i < demand c p)))"

lemma carries_same: "c_sub c' = c_sub c \<Longrightarrow> c_hist c' = c_hist c \<Longrightarrow> carries c c'"
  by (simp add: carries_def demand_def)

lemma carries_refl: "carries c c"
  by (rule carries_same) simp_all

lemma demand_idle: "c_sub c p = Sub_Idle \<Longrightarrow> demand c p = length (c_hist c p)"
  by (simp add: demand_def)

lemma carries_trans:
  assumes ab: "carries a b" and bc: "carries b c"
  shows "carries a c"
  unfolding carries_def
proof (intro ballI conjI impI)
  fix p assume p: "p \<in> set node_ids"
  show "c_sub a p \<noteq> Sub_Idle" "demand c p = demand a p" if "c_sub c p \<noteq> Sub_Idle"
    using ab bc p that by (metis carries_def)+
  obtain ws where ws: "c_hist b p = c_hist a p @ ws" "\<forall>i<length ws. is_request (ws ! i) \<longrightarrow> length (c_hist a p) + i < demand a p"
    using ab p by (auto simp: carries_def)
  obtain vs where vs: "c_hist c p = c_hist b p @ vs" "\<forall>i<length vs. is_request (vs ! i) \<longrightarrow> length (c_hist b p) + i < demand b p"
    using bc p by (auto simp: carries_def)
  have "length (c_hist a p) + i < demand a p" if "i < length (ws @ vs)" "is_request ((ws @ vs) ! i)" for i
  proof (cases "i < length ws")
    case True
    with ws(2) that show ?thesis by (simp add: nth_append)
  next
    case False
    then have "i - length ws < length vs" "is_request (vs ! (i - length ws))" using that by (simp_all add: nth_append)
    with vs(2) have "length (c_hist b p) + (i - length ws) < demand b p" by blast
    moreover from this have "c_sub b p \<noteq> Sub_Idle" using demand_idle by fastforce
    then have "demand b p = demand a p" using ab p by (simp add: carries_def)
    ultimately show ?thesis using False ws(1) by simp
  qed
  with ws(1) vs(1) show "\<exists>ws. c_hist c p = c_hist a p @ ws \<and> (\<forall>i<length ws. is_request (ws ! i) \<longrightarrow> length (c_hist a p) + i < demand a p)"
    by (intro exI [of _ "ws @ vs"]) simp
qed

lemma submit_step_queued:
  assumes "submit_step hash p pc n rs = (pc', n', rs')" "pc' \<noteq> Sub_Idle"
  shows "pc \<noteq> Sub_Idle \<and> length (sub_issues pc pc') + queued pc' = queued pc"
proof (cases pc)
  case (Sub_Admit chs)
  show ?thesis
  proof (cases chs)
    case (Cons ch chs')
    show ?thesis
    proof (cases "try_assign ch n")
      case None
      with assms Sub_Admit Cons show ?thesis by auto
    next
      case (Some a)
      then obtain ms n1 where a: "try_assign ch n = Some (ms, n1)" by (cases a) auto
      then have "assign_chunk ch n = (ms, n1)" by (auto simp: try_assign_def Let_def split: if_splits)
      then have "length ms = length ch" by (auto dest: assign_chunk_spec)
      with a assms Sub_Admit Cons show ?thesis by auto
    qed
  qed (use assms Sub_Admit in auto)
next
  case (Sub_Bcast msgs bc chs)
  with assms show ?thesis by (cases bc) (auto split: prod.splits)
qed (use assms in auto)


section \<open>Draining the rings\<close>

text \<open>The steps of the threads: all but the calls of the driver, which begin a submission or end the input.\<close>

inductive thread_step :: "(string \<Rightarrow> u64) \<Rightarrow> Cluster \<Rightarrow> Cluster \<Rightarrow> bool" for hash where
  submit: "\<lbrakk>p \<in> set node_ids; submit_step hash p (c_sub c p) (c_node c p) (c_ring c p) = (pc, n, rs)\<rbrakk>
    \<Longrightarrow> thread_step hash c (after_submit c p pc n rs)"
| noop: "\<lbrakk>p \<in> set node_ids; noop_step hash p now fin (c_noop c p) (c_node c p) (c_ring c p) = (pc, n, rs)\<rbrakk>
    \<Longrightarrow> thread_step hash c (after_noop c p pc n rs)"
| recv: "\<lbrakk>p \<in> set node_ids; q \<in> set node_ids; p \<noteq> q; buffer_ok (c_recv c q p) buf;
      recv_step hash buf (c_recv c q p) (c_node c q) (c_ring c p q) = (pc, n, r)\<rbrakk>
    \<Longrightarrow> thread_step hash c
          (c\<lparr>c_recv := (c_recv c)(q := (c_recv c q)(p := pc)), c_node := (c_node c)(q := n),
             c_ring := (c_ring c)(p := (c_ring c p)(q := r)),
             c_done := (c_done c)(q := (c_done c q)(p := c_done c q p + length (recv_handles (c_recv c q p))))\<rparr>)"

lemma thread_step_cluster: "thread_step hash c c' \<Longrightarrow> cluster_step hash c c'"
  by (induction rule: thread_step.induct) (auto intro: cluster_step.intros)

lemma thread_run_cluster: "(thread_step hash)\<^sup>*\<^sup>* c c' \<Longrightarrow> (cluster_step hash)\<^sup>*\<^sup>* c c'"
  by (rule rtranclp_mono [THEN predicate2D, rotated]) (auto intro: thread_step_cluster)

text \<open>A step of the run: no submission begins, nothing is issued and the work in hand decreases.\<close>

definition drains :: "(string \<Rightarrow> u64) \<Rightarrow> Cluster \<Rightarrow> Cluster \<Rightarrow> bool" where
  "drains hash c c' \<longleftrightarrow> thread_step hash c c' \<and> carries c c' \<and> c_hist c' = c_hist c \<and> (c', c) \<in> closer"

definition idle_link :: "Cluster \<Rightarrow> nat \<Rightarrow> nat \<Rightarrow> bool" where
  "idle_link c p q \<longleftrightarrow> c_recv c q p = Rv_Idle \<and> r_head (c_ring c p q) = r_tail (c_ring c p q)"

lemma drain_recv_step:
  assumes pq: "p \<in> set node_ids" "q \<in> set node_ids" "p \<noteq> q" and buf: "buffer_ok (c_recv c q p) buf"
    and step: "recv_step hash buf (c_recv c q p) (c_node c q) (c_ring c p q) = (pc, n, r)"
    and less: "(recv_handles (c_recv c q p) = [] \<and> recv_rank pc < recv_rank (c_recv c q p)) \<or>
      (recv_handles (c_recv c q p) \<noteq> [] \<and> c_done c q p + length (recv_handles (c_recv c q p)) \<le> length (c_hist c p))"
  shows "\<exists>c'. drains hash c c'"
proof -
  let ?c = "c\<lparr>c_recv := (c_recv c)(q := (c_recv c q)(p := pc)), c_node := (c_node c)(q := n),
      c_ring := (c_ring c)(p := (c_ring c p)(q := r)),
      c_done := (c_done c)(q := (c_done c q)(p := c_done c q p + length (recv_handles (c_recv c q p))))\<rparr>"
  have "thread_step hash c ?c" using pq buf step by (rule thread_step.recv)
  moreover have "carries c ?c" by (rule carries_same) simp_all
  moreover have "(?c, c) \<in> closer"
    using less
  proof
    assume r: "recv_handles (c_recv c q p) = [] \<and> recv_rank pc < recv_rank (c_recv c q p)"
    show ?thesis using pq r by (intro closer_rank [OF pq(1,2)]) (auto simp: load_def fun_eq_iff split: if_splits)
  next
    assume "recv_handles (c_recv c q p) \<noteq> [] \<and> c_done c q p + length (recv_handles (c_recv c q p)) \<le> length (c_hist c p)"
    then show ?thesis by (intro closer_handled [OF pq(1,2)]) auto
  qed
  ultimately show ?thesis unfolding drains_def by (intro exI [of _ ?c]) simp
qed

lemma drain_recv:
  assumes inv: "full_inv hash K0 c" and pq: "p \<in> set node_ids" "q \<in> set node_ids" "p \<noteq> q"
    and busy: "\<not> idle_link c p q"
  shows "\<exists>c'. drains hash c c'"
proof -
  have "q \<in> set (peers p)" using pq by (simp add: set_peers)
  note link = full_invD(7) [OF inv pq(1) this]
  note step = drain_recv_step [OF pq]
  show ?thesis
  proof (cases "c_recv c q p")
    case Rv_Idle
    with busy have "r_head (c_ring c p q) - r_tail (c_ring c p q) \<noteq> 0" by (simp add: idle_link_def)
    then show ?thesis by (intro step) (auto simp: Rv_Idle recv_handles_def Let_def)
  next
    case (Rv_First t count)
    let ?buf = "replicate count default_message"
    obtain k out1 where "read_batch_at_abs ring_cap t ?buf count (c_ring c p q) = (k, out1)" by fastforce
    then show ?thesis
      using wf_default_message by (intro step [of c ?buf]) (auto simp: Rv_First recv_handles_def list_all_iff)
  next
    case (Rv_More t count got)
    with link have "length got = count" "0 < count" by (auto simp: link_inv_def)
    then show ?thesis by (intro step [of c "[]"]) (auto simp: Rv_More recv_handles_def)
  next
    case (Rv_Handle msgs)
    with link have l: "link_inv (c_hist c p) (c_done c q p) (c_ring c p q) (Rv_Handle msgs)
      (out_of (c_sub c p) (c_noop c p) q) (staged_of (c_sub c p) q) (need_of (c_sub c p) q)" by simp
    obtain pc n r where s: "recv_step hash [] (Rv_Handle msgs) (c_node c q) (c_ring c p q) = (pc, n, r)"
      using prod_cases3 by blast
    from link_recv_handle [OF l s] s show ?thesis
      by (cases "msgs = []") (intro step [of c "[]"], auto simp: Rv_Handle recv_handles_def kHandleChunk_def)+
  qed
qed

text \<open>A submission and a no-op in progress, over empty rings.\<close>

lemma carries_submit:
  assumes p: "p \<in> set node_ids" and step: "submit_step hash p (c_sub c p) n rs = (pc, n', rs')"
    and "\<And>x. x \<noteq> p \<Longrightarrow> c_sub c' x = c_sub c x \<and> c_hist c' x = c_hist c x"
    and own: "c_sub c' p = pc" "c_hist c' p = c_hist c p @ sub_issues (c_sub c p) pc"
  shows "carries c c'"
proof -
  have "length (sub_issues (c_sub c p) pc) \<le> queued (c_sub c p)"
  proof (cases "pc = Sub_Idle")
    case False
    with submit_step_queued [OF step] show ?thesis by simp
  qed simp
  moreover have "demand c' p = demand c p" "c_sub c p \<noteq> Sub_Idle" if "pc \<noteq> Sub_Idle"
    using submit_step_queued [OF step that] own by (simp_all add: demand_def)
  ultimately have "(pc \<noteq> Sub_Idle \<longrightarrow> c_sub c p \<noteq> Sub_Idle \<and> demand c' p = demand c p) \<and>
     (\<exists>ws. c_hist c' p = c_hist c p @ ws \<and> (\<forall>i<length ws. is_request (ws ! i) \<longrightarrow> length (c_hist c p) + i < demand c p))"
    using own(2) by (auto simp: demand_def)
  note at_p = this
  show ?thesis
    unfolding carries_def
  proof (intro ballI)
    fix x assume "x \<in> set node_ids"
    show "(c_sub c' x \<noteq> Sub_Idle \<longrightarrow> c_sub c x \<noteq> Sub_Idle \<and> demand c' x = demand c x) \<and>
      (\<exists>ws. c_hist c' x = c_hist c x @ ws \<and> (\<forall>i<length ws. is_request (ws ! i) \<longrightarrow> length (c_hist c x) + i < demand c x))"
      using at_p own(1) assms(3) [of x] by (cases "x = p") (simp_all add: demand_def)
  qed
qed

lemma drain_submit_step:
  assumes p: "p \<in> set node_ids"
    and step: "submit_step hash p (c_sub c p) (c_node c p) (c_ring c p) = (pc, n, rs)"
    and quiet: "sub_issues (c_sub c p) pc = []"
    and less: "(sub_delivers (c_sub c p) = 0 \<and> sub_rank pc < sub_rank (c_sub c p)) \<or>
      (sub_delivers (c_sub c p) \<noteq> 0 \<and> c_done c p p + sub_delivers (c_sub c p) \<le> length (c_hist c p))"
  shows "\<exists>c'. drains hash c c'"
proof -
  let ?c = "c\<lparr>c_sub := (c_sub c)(p := pc), c_node := (c_node c)(p := n), c_ring := (c_ring c)(p := rs),
      c_hist := (c_hist c)(p := c_hist c p @ sub_issues (c_sub c p) pc),
      c_done := (c_done c)(p := (c_done c p)(p := c_done c p p + sub_delivers (c_sub c p)))\<rparr>"
  have "thread_step hash c ?c" using p step by (rule thread_step.submit)
  moreover have "carries c ?c" using p step by (rule carries_submit) simp_all
  moreover have "(?c, c) \<in> closer"
    using less
  proof
    assume "sub_delivers (c_sub c p) = 0 \<and> sub_rank pc < sub_rank (c_sub c p)"
    with quiet show ?thesis by (intro closer_rank [OF p p]) (auto simp: load_def fun_eq_iff split: if_splits)
  next
    assume "sub_delivers (c_sub c p) \<noteq> 0 \<and> c_done c p p + sub_delivers (c_sub c p) \<le> length (c_hist c p)"
    with quiet show ?thesis by (intro closer_handled [OF p p]) auto
  qed
  ultimately show ?thesis unfolding drains_def using quiet by (intro exI [of _ ?c]) simp
qed

lemma drain_noop_step:
  assumes p: "p \<in> set node_ids"
    and step: "noop_step hash p 0 False (c_noop c p) (c_node c p) (c_ring c p) = (pc, n, rs)"
    and quiet: "noop_issues (c_noop c p) = []"
    and less: "(noop_delivers (c_noop c p) = 0 \<and> noop_rank pc < noop_rank (c_noop c p)) \<or>
      (noop_delivers (c_noop c p) \<noteq> 0 \<and> c_done c p p + noop_delivers (c_noop c p) \<le> length (c_hist c p))"
  shows "\<exists>c'. drains hash c c'"
proof -
  let ?c = "c\<lparr>c_noop := (c_noop c)(p := pc), c_node := (c_node c)(p := n), c_ring := (c_ring c)(p := rs),
      c_hist := (c_hist c)(p := c_hist c p @ noop_issues (c_noop c p)),
      c_done := (c_done c)(p := (c_done c p)(p := c_done c p p + noop_delivers (c_noop c p)))\<rparr>"
  have "thread_step hash c ?c" using p step by (rule thread_step.noop)
  moreover have "carries c ?c" using quiet by (intro carries_same) auto
  moreover have "(?c, c) \<in> closer"
    using less
  proof
    assume "noop_delivers (c_noop c p) = 0 \<and> noop_rank pc < noop_rank (c_noop c p)"
    with quiet show ?thesis by (intro closer_rank [OF p p]) (auto simp: load_def fun_eq_iff split: if_splits)
  next
    assume "noop_delivers (c_noop c p) \<noteq> 0 \<and> c_done c p p + noop_delivers (c_noop c p) \<le> length (c_hist c p)"
    with quiet show ?thesis by (intro closer_handled [OF p p]) auto
  qed
  ultimately show ?thesis unfolding drains_def using quiet by (intro exI [of _ ?c]) simp
qed

lemma empty_ring_queue:
  assumes "link_inv hist d r rv out staged need" "r_head r = r_tail r"
  shows "ring_rep ring_cap r []"
proof -
  from assms(1) obtain q where q: "ring_rep ring_cap r q" by (auto simp: link_inv_def ring_inv_def)
  then have "length q = unat (r_head r - r_tail r)" by (simp add: ring_rep_def)
  with assms(2) have "q = []" by simp
  with q show ?thesis by simp
qed

lemma drain_bcast:
  assumes inv: "full_inv hash K0 c" and p: "p \<in> set node_ids" and sub: "c_sub c p = Sub_Bcast msgs bc chs"
    and quiet: "\<And>q. q \<in> set (peers p) \<Longrightarrow> idle_link c p q"
  shows "\<exists>c'. drains hash c c'"
proof -
  note D = full_invD [OF inv p]
  have ok: "chunk_ok p msgs" "bc_ok p bc" "n_running (c_node c p)" using D(1) by (simp_all add: node_ok_def sub)
  then have msgs: "msgs \<noteq> []" "length msgs \<le> 10921" "\<forall>m\<in>set msgs. wf_msg m \<and> fits m"
    by (auto simp: chunk_ok_def prop_ok_def list_all_iff)
  note step = drain_submit_step [OF p, of hash c]
  have two: "length (peers p) = 2" using p by (auto simp: peers_def node_ids_def)
  show ?thesis
  proof (cases bc)
    case (Bc_Loop heads)
    with ok(3) two show ?thesis by (intro step) (auto simp: sub)
  next
    case (Bc_Check qs heads)
    show ?thesis
    proof (cases qs)
      case Nil
      with Bc_Check two show ?thesis by (intro step) (auto simp: sub)
    next
      case (Cons q qs')
      then have q: "q \<in> set (peers p)" using ok(2) Bc_Check by simp
      have "ring_rep ring_cap (c_ring c p q) []" using D(7) [OF q] quiet [OF q] by (auto intro: empty_ring_queue simp: idle_link_def)
      from can_push_batch_rep [OF kBandleRingCapacity_pow2 this, of "length msgs"] msgs(2)
      obtain h where "can_push_batch ring_cap (of_nat (length msgs)) (c_ring c p q) = Some h"
        by (simp add: kBandleRingCapacity_def)
      with Bc_Check Cons show ?thesis by (intro step) (auto simp: sub)
    qed
  next
    case (Bc_Write qs heads)
    show ?thesis
    proof (cases qs)
      case Nil
      with Bc_Write two show ?thesis by (intro step) (auto simp: sub)
    next
      case (Cons q qs')
      then have q: "q \<in> set (peers p)" using ok(2) Bc_Write by simp
      have "link_inv (c_hist c p) (c_done c q p) (c_ring c p q) (c_recv c q p) (map wire msgs) [] (Some (heads q, length msgs))"
        using D(7) [OF q] Bc_Write Cons by (simp add: sub)
      then obtain w r where "write_batch_at ring_cap (heads q) msgs (c_ring c p q) = (True, w, r)"
        using msgs(3) by (rule link_write)
      with Bc_Write Cons show ?thesis by (intro step) (auto simp: sub)
    qed
  next
    case (Bc_Publish qs heads)
    then show ?thesis by (cases qs; intro step) (auto simp: sub)
  next
    case Bc_Done
    then show ?thesis by (intro step) (auto simp: sub)
  qed
qed

text \<open>A state in which the only thing left to do is to issue the next sequence number.\<close>

fun waits_admission :: "submit_pc \<Rightarrow> bool" where
  "waits_admission (Sub_Admit (ch # chs)) \<longleftrightarrow> True"
| "waits_admission _ \<longleftrightarrow> False"

definition settled :: "Cluster \<Rightarrow> bool" where
  "settled c \<longleftrightarrow>
     (\<forall>p\<in>set node_ids. (c_sub c p = Sub_Idle \<or> waits_admission (c_sub c p)) \<and> noop_rank (c_noop c p) = 0 \<and>
        (\<forall>q\<in>set (peers p). idle_link c p q))"

lemma drain_submit:
  assumes inv: "full_inv hash K0 c" and p: "p \<in> set node_ids" and busy: "c_sub c p \<noteq> Sub_Idle" "\<not> waits_admission (c_sub c p)"
    and quiet: "\<And>q. q \<in> set (peers p) \<Longrightarrow> idle_link c p q"
  shows "\<exists>c'. drains hash c c'"
proof (cases "c_sub c p")
  case Sub_Idle
  with busy show ?thesis by simp
next
  case (Sub_Admit chs)
  with busy have "chs = []" by (cases chs) auto
  with Sub_Admit show ?thesis by (intro drain_submit_step [OF p]) auto
next
  case (Sub_Bcast msgs bc chs)
  with inv p quiet show ?thesis by (intro drain_bcast)
next
  case (Sub_Deliver msgs chs)
  note D = full_invD [OF inv p]
  have "msgs \<noteq> []" using D(1) by (simp add: node_ok_def Sub_Deliver chunk_ok_def)
  moreover have "drop (c_done c p p) (c_hist c p) = map wire msgs" using D(5) by (simp add: Sub_Deliver)
  then have "c_done c p p + length msgs = length (c_hist c p)"
    using D(4) by (metis le_add_diff_inverse length_drop length_map)
  ultimately show ?thesis by (intro drain_submit_step [OF p]) (auto simp: Sub_Deliver)
qed

lemma drain_noop:
  assumes inv: "full_inv hash K0 c" and p: "p \<in> set node_ids" and busy: "noop_rank (c_noop c p) \<noteq> 0"
    and quiet: "\<And>q. q \<in> set (peers p) \<Longrightarrow> idle_link c p q"
  shows "\<exists>c'. drains hash c c'"
proof -
  note D = full_invD [OF inv p]
  have run: "n_running (c_node c p)" and ok: "noop_ok p (c_node c p) (c_noop c p)" using D(1) by (simp_all add: node_ok_def)
  have idle: "c_sub c p = Sub_Idle" using D(1) busy by (auto simp: node_ok_def)
  show ?thesis
  proof (cases "c_noop c p")
    case (Np_Send msg qs)
    show ?thesis
    proof (cases qs)
      case Nil
      with Np_Send show ?thesis by (intro drain_noop_step [OF p]) auto
    next
      case (Cons q qs')
      then have q: "q \<in> set (peers p)" and m: "wf_msg msg" "fits msg" using ok Np_Send by (simp_all add: prop_ok_def)
      have rep: "ring_rep ring_cap (c_ring c p q) []" using D(7) [OF q] quiet [OF q] by (auto intro: empty_ring_queue simp: idle_link_def)
      from push_rep [OF kBandleRingCapacity_pow2 rep _ m] obtain r where "push ring_cap msg (c_ring c p q) = (True, r)"
        by (auto simp: kBandleRingCapacity_def)
      with Np_Send Cons run show ?thesis by (intro drain_noop_step [OF p]) (auto simp: send_to_peer_def)
    qed
  next
    case (Np_Deliver msg)
    then have "drop (c_done c p p) (c_hist c p) = [wire msg]" using D(5) by (simp add: idle)
    then have "c_done c p p + 1 \<le> length (c_hist c p)" by (metis Suc_eq_plus1 drop_all list.distinct(1) not_less_eq_eq)
    with Np_Deliver show ?thesis by (intro drain_noop_step [OF p]) auto
  qed (use busy in auto)
qed

lemma drains_step:
  assumes inv: "full_inv hash K0 c" and busy: "\<not> settled c"
  shows "\<exists>c'. drains hash c c'"
proof (cases "\<exists>p\<in>set node_ids. \<exists>q\<in>set (peers p). \<not> idle_link c p q")
  case True
  then show ?thesis using drain_recv [OF inv] by (auto simp: set_peers)
next
  case False
  with busy obtain p where p: "p \<in> set node_ids"
    "c_sub c p \<noteq> Sub_Idle \<and> \<not> waits_admission (c_sub c p) \<or> noop_rank (c_noop c p) \<noteq> 0"
    by (auto simp: settled_def)
  with False show ?thesis using drain_submit [OF inv p(1)] drain_noop [OF inv p(1)] by blast
qed

lemma drain_to_settled:
  assumes "full_inv hash K0 c" "short (c_hist c)"
  shows "\<exists>c'. (thread_step hash)\<^sup>*\<^sup>* c c' \<and> full_inv hash K0 c' \<and> settled c' \<and> c_hist c' = c_hist c \<and> carries c c'"
  using wf_closer assms
proof (induction c rule: wf_induct_rule)
  case (less c)
  show ?case
  proof (cases "settled c")
    case True
    with less.prems show ?thesis by (intro exI [of _ c]) (simp add: carries_refl)
  next
    case False
    from drains_step [OF less.prems(1) this] obtain c1 where
      c1: "thread_step hash c c1" "carries c c1" "c_hist c1 = c_hist c" "(c1, c) \<in> closer" by (auto simp: drains_def)
    have "full_inv hash K0 c1" using full_inv_step [OF thread_step_cluster [OF c1(1)] less.prems(1)] less.prems(2) c1(3) by simp
    with less.IH [OF c1(4)] less.prems(2) c1(3) obtain c2 where
      "(thread_step hash)\<^sup>*\<^sup>* c1 c2" "full_inv hash K0 c2" "settled c2" "c_hist c2 = c_hist c" "carries c1 c2" by auto
    with c1 show ?thesis by (meson carries_trans converse_rtranclp_into_rtranclp)
  qed
qed

section \<open>The next sequence number\<close>

lemma settled_pending:
  assumes "settled c" "p \<in> set node_ids"
  shows "self_pending (c_sub c p) (c_noop c p) = []" "q \<in> set (peers p) \<Longrightarrow> out_of (c_sub c p) (c_noop c p) q = []"
proof -
  have "c_sub c p = Sub_Idle \<or> waits_admission (c_sub c p)" "noop_rank (c_noop c p) = 0"
    using assms by (simp_all add: settled_def)
  then show "self_pending (c_sub c p) (c_noop c p) = []" "out_of (c_sub c p) (c_noop c p) q = []" for q
    by (cases "c_sub c p"; cases "c_noop c p"; auto)+
qed

lemma settled_done:
  assumes inv: "full_inv hash K0 c" and set: "settled c" and pq: "p \<in> set node_ids" "q \<in> set node_ids"
  shows "c_done c q p = length (c_hist c p)"
proof (cases "p = q")
  case True
  with full_invD(4,5) [OF inv pq(1)] settled_pending(1) [OF set pq(1)] show ?thesis by simp
next
  case False
  then have q: "q \<in> set (peers p)" using pq by (simp add: set_peers)
  then have idle: "idle_link c p q" using set pq by (simp add: settled_def)
  from full_invD(7) [OF inv pq(1) q] settled_pending(2) [OF set pq(1) q] idle obtain queue where
    "ring_rep ring_cap (c_ring c p q) queue" "drop (c_done c q p) (c_hist c p) = queue" "c_done c q p \<le> length (c_hist c p)"
    by (auto simp: link_inv_def ring_inv_def idle_link_def)
  with idle show ?thesis by (simp add: ring_rep_def idle_link_def)
qed

text \<open>In a settled state all replicas stand at the first number that has not been issued.\<close>

lemma settled_front:
  assumes inv: "full_inv hash K0 c" and set: "settled c"
  obtains e where "1 \<le> e" "\<And>p. p \<in> set node_ids \<Longrightarrow> exec_next (c_node c p) = e" "\<not> was_issued (c_hist c) e"
    "\<And>s. 1 \<le> s \<Longrightarrow> s < e \<Longrightarrow> was_issued (c_hist c) s" "index_of e = length (c_hist c (proposer_of e))"
proof -
  let ?e = "exec_next (c_node c 1)"
  have h: "handled (c_done c x) s \<longleftrightarrow> was_issued (c_hist c) s" if "x \<in> set node_ids" for x s
    using settled_done [OF inv set _ that] by (simp add: handled_def was_issued_def)
  have below: "was_issued (c_hist c) s" if "x \<in> set node_ids" "1 \<le> s" "s < exec_next (c_node c x)" for x s
    using full_invD(3) [OF inv that(1)] that h [OF that(1)] by (simp add: replica_inv_def)
  have at: "\<not> was_issued (c_hist c) (exec_next (c_node c x))" "1 \<le> exec_next (c_node c x)" if "x \<in> set node_ids" for x
    using full_invD(3,6) [OF inv that] h [OF that] by (simp_all add: replica_inv_def)
  have one: "1 \<in> set node_ids" by (simp add: node_ids_def)
  have eq: "exec_next (c_node c p) = ?e" if "p \<in> set node_ids" for p
    using below at that one by (metis linorder_neqE_nat)
  have "index_of ?e \<le> length (c_hist c (proposer_of ?e))"
  proof (cases "4 \<le> ?e")
    case True
    then have "was_issued (c_hist c) (?e - 3)" using one by (intro below [of 1]) auto
    moreover have "proposer_of (?e - 3) = proposer_of ?e" "Suc (index_of (?e - 3)) = index_of ?e"
      using True by (auto simp: proposer_of_def index_of_def le_Suc_ex mod_if dest!: le_Suc_ex)
    ultimately show ?thesis by (simp add: was_issued_def)
  next
    case False
    then have "index_of ?e = 0" by (auto simp: index_of_def)
    then show ?thesis by simp
  qed
  then have "index_of ?e = length (c_hist c (proposer_of ?e))" using at(1) [OF one] by (simp add: was_issued_def)
  with eq at [OF one] below [OF one] show ?thesis by (intro that) auto
qed

lemma full_inv_run:
  assumes run: "(cluster_step hash)\<^sup>*\<^sup>* c c'" and "full_inv hash K0 c" "short (c_hist c')"
  shows "full_inv hash K0 c'"
proof -
  have "cluster_inv hash K0 c'"
    using run assms(2) by induction (auto simp: cluster_inv_def intro: cluster_inv_step [unfolded cluster_inv_def, rule_format])
  with assms(3) show ?thesis by (simp add: cluster_inv_def)
qed

text \<open>The run issues a batch of one node, and starts no submission.\<close>

definition issues :: "(Cluster \<Rightarrow> Cluster \<Rightarrow> bool) \<Rightarrow> Cluster \<Rightarrow> nat \<Rightarrow> BandleMessage list \<Rightarrow> Cluster \<Rightarrow> bool" where
  "issues step c p ws c' \<longleftrightarrow> step\<^sup>*\<^sup>* c c' \<and> carries c c' \<and>
     c_hist c' = (c_hist c)(p := c_hist c p @ ws) \<and> ws \<noteq> [] \<and> length ws \<le> 10921"

lemma noop_one:
  assumes "p \<in> set node_ids" "noop_step hash p now fin (c_noop c p) (c_node c p) (c_ring c p) = (pc, n, rs)"
  shows "\<exists>c'. thread_step hash c c' \<and> c_sub c' = c_sub c \<and> c_noop c' p = pc \<and> c_node c' p = n \<and>
    c_hist c' = (c_hist c)(p := c_hist c p @ noop_issues (c_noop c p))"
  by (intro exI conjI, rule thread_step.noop [OF assms]) simp_all

lemma carries_idle:
  assumes "c_sub c' = c_sub c" "c_hist c' = (c_hist c)(p := c_hist c p @ ws)" "c_sub c p = Sub_Idle"
    and "\<forall>w\<in>set ws. \<not> is_request w"
  shows "carries c c'"
  using assms by (auto simp: carries_def demand_def)

lemma issue_reserved:
  assumes p: "p \<in> set node_ids" and sub: "c_sub c p = Sub_Idle" and np: "c_noop c p = Np_Reserve msg"
    and id: "b_client_req_id (m_body msg) = 0"
  shows "\<exists>ws c'. issues (thread_step hash) c p ws c'"
proof -
  obtain pc n rs where s: "noop_step hash p 0 False (c_noop c p) (c_node c p) (c_ring c p) = (pc, n, rs)" using prod_cases3 by blast
  from noop_one [OF p s] np obtain c' where c': "thread_step hash c c'" "c_sub c' = c_sub c"
    "c_hist c' = (c_hist c)(p := c_hist c p @ [wire msg])" by auto
  from carries_idle [OF c'(2,3) sub] id have "carries c c'" by (simp add: is_request_def)
  with c' have "issues (thread_step hash) c p [wire msg] c'" by (auto simp: issues_def)
  then show ?thesis by blast
qed

lemma issues_after:
  assumes "step c c1" "c_sub c1 = c_sub c" "c_hist c1 = c_hist c" "issues step c1 p ws c'"
  shows "issues step c p ws c'"
  using assms carries_trans [OF carries_same [OF assms(2,3)]]
  by (auto simp: issues_def intro: converse_rtranclp_into_rtranclp)

lemma issue_read:
  assumes p: "p \<in> set node_ids" and sub: "c_sub c p = Sub_Idle" and np: "c_noop c p = Np_Read"
  shows "\<exists>ws c'. issues (thread_step hash) c p ws c'"
proof -
  have s: "noop_step hash p 0 False (c_noop c p) (c_node c p) (c_ring c p) = (Np_Reserve (noop_message (c_node c p)), c_node c p, c_ring c p)"
    by (simp add: np)
  from noop_one [OF p s] np obtain c1 where c1: "thread_step hash c c1" "c_sub c1 = c_sub c"
    "c_noop c1 p = Np_Reserve (noop_message (c_node c p))" "c_hist c1 = c_hist c" by auto
  moreover have "b_client_req_id (m_body (noop_message (c_node c p))) = 0" by (simp add: noop_message_def default_payload_def)
  ultimately obtain ws c' where "issues (thread_step hash) c1 p ws c'" using issue_reserved [OF p _ c1(3)] sub by metis
  then show ?thesis using issues_after [where step = "thread_step hash", OF c1(1,2,4)] by blast
qed

lemma issue_noop:
  assumes p: "p \<in> set node_ids" and sub: "c_sub c p = Sub_Idle" and np: "c_noop c p = Np_Idle"
    and n: "n_running (c_node c p)" "n_input_done (c_node c p)" "n_cluster_size (c_node c p) = 3"
    and next_bound: "exec_next (c_node c p) \<le> 2 ^ 62" "unat (n_highest_proposed_seq (c_node c p)) < exec_next (c_node c p)"
  shows "\<exists>ws c'. issues (thread_step hash) c p ws c'"
proof -
  let ?n = "c_node c p" and ?now = "n_last_noop_ns (c_node c p) + n_noop_interval_us (c_node c p) * 1000"
  have "unat (n_execute_next ?n + 1536) = exec_next ?n + 1536"
    using next_bound(1) by (simp add: exec_next_def unat_word_ariths)
  then have "should_propose_noop_locked ?now False ?n"
    using n next_bound(2) by (simp add: should_propose_noop_locked_def word_less_nat_alt)
  then have s: "noop_step hash p ?now False (c_noop c p) ?n (c_ring c p) = (Np_Read, ?n, c_ring c p)" using n by (simp add: np)
  from noop_one [OF p s] np obtain c1 where c1: "thread_step hash c c1" "c_sub c1 = c_sub c" "c_noop c1 p = Np_Read"
    "c_hist c1 = c_hist c" by auto
  then obtain ws c' where "issues (thread_step hash) c1 p ws c'" using issue_read [OF p _ c1(3)] sub by metis
  then show ?thesis using issues_after [where step = "thread_step hash", OF c1(1,2,4)] by blast
qed

lemma issues_cluster: "issues (thread_step hash) c p ws c' \<Longrightarrow> issues (cluster_step hash) c p ws c'"
  by (auto simp: issues_def dest: thread_run_cluster)

lemma issue_admit:
  assumes inv: "full_inv hash K0 c" and p: "p \<in> set node_ids" and short: "short (c_hist c)"
    and wait: "waits_admission (c_sub c p)" and e: "seq_of p (length (c_hist c p)) = exec_next (c_node c p)"
  shows "\<exists>ws c'. issues (thread_step hash) c p ws c'"
proof -
  note D = full_invD [OF inv p]
  from wait obtain ch chs where sub: "c_sub c p = Sub_Admit (ch # chs)" by (cases "c_sub c p" rule: waits_admission.cases) auto
  let ?n = "c_node c p"
  have node: "n_cluster_size ?n = 3" "window_ok ?n" "ch \<noteq> []" "length ch \<le> 10921"
    using D(1) by (auto simp: node_ok_def sub chunk_ok_def)
  have nxt: "unat (n_next_seq ?n) = exec_next ?n" using D(2) e by (simp add: issue_inv_def)
  have bound: "exec_next ?n \<le> 2 ^ 62" by (rule replica_inv_next_bound [OF short D(3)])
  have len: "1 \<le> length ch" using node(3) by (cases ch) auto
  have "try_assign ch ?n = Some (assign_chunk ch ?n)"
    using node bound nxt len by (subst try_assign_nat) (auto simp: window_ok_def)
  moreover obtain ms n where a: "assign_chunk ch ?n = (ms, n)" by fastforce
  ultimately have adm: "try_assign ch ?n = Some (ms, n)" by simp
  have lms: "length ms = length ch" using a by (auto dest: assign_chunk_spec)
  have step: "submit_step hash p (c_sub c p) ?n (c_ring c p) = (Sub_Bcast ms (bcast_start ms) chs, n, c_ring c p)"
    by (simp add: sub adm)
  let ?c = "c\<lparr>c_sub := (c_sub c)(p := Sub_Bcast ms (bcast_start ms) chs), c_node := (c_node c)(p := n), c_ring := (c_ring c)(p := c_ring c p),
      c_hist := (c_hist c)(p := c_hist c p @ sub_issues (c_sub c p) (Sub_Bcast ms (bcast_start ms) chs)),
      c_done := (c_done c)(p := (c_done c p)(p := c_done c p p + sub_delivers (c_sub c p)))\<rparr>"
  have "thread_step hash c ?c" using p step by (rule thread_step.submit)
  moreover have "carries c ?c" using p step by (rule carries_submit) simp_all
  ultimately have "issues (thread_step hash) c p (map wire ms) ?c" using lms node(3,4) by (auto simp: issues_def sub)
  then show ?thesis by blast
qed

lemma settled_issue_thread:
  assumes inv: "full_inv hash K0 c" and pend: "pend_all c" and set: "settled c" and short: "short (c_hist c)"
    and e: "index_of e = length (c_hist c (proposer_of e))" "1 \<le> e" "exec_next (c_node c (proposer_of e)) = e"
    and over: "c_sub c (proposer_of e) = Sub_Idle \<Longrightarrow> n_input_done (c_node c (proposer_of e))"
  shows "\<exists>ws c'. issues (thread_step hash) c (proposer_of e) ws c'"
proof -
  let ?p = "proposer_of e" and ?n = "c_node c (proposer_of e)"
  have p: "?p \<in> set node_ids" by simp
  note D = full_invD [OF inv p]
  have seq: "seq_of ?p (length (c_hist c ?p)) = exec_next ?n" using seq_of_split [OF e(2)] e(1,3) by simp
  show ?thesis
  proof (cases "waits_admission (c_sub c ?p)")
    case True
    with inv p short seq show ?thesis by (intro issue_admit)
  next
    case False
    then have sub: "c_sub c ?p = Sub_Idle" and rank: "noop_rank (c_noop c ?p) = 0" using set p unfolding settled_def by blast+
    have n: "n_running ?n" "n_input_done ?n" "n_cluster_size ?n = 3" using D(1) over [OF sub] by (simp_all add: node_ok_def)
    have bound: "exec_next ?n \<le> 2 ^ 62" by (rule replica_inv_next_bound [OF short D(3)])
    have "unat (n_highest_proposed_seq ?n) < exec_next ?n"
      using D(2) seq e(2,3) by (cases "c_hist c ?p") (auto simp: issue_inv_def seq_of_def)
    moreover have "b_client_req_id (m_body msg) = 0" if "c_noop c ?p = Np_Reserve msg" for msg
      using pend p that unfolding pend_all_def pend_at_def by blast
    ultimately show ?thesis
      using rank issue_noop [OF p sub _ n bound] issue_read [OF p sub] issue_reserved [OF p sub] by (cases "c_noop c ?p") auto
  qed
qed

text \<open>An owner of the next number that has nothing to submit may declare its input done first.\<close>

lemma settled_issue:
  assumes inv: "full_inv hash K0 c" and pend: "pend_all c" and set: "settled c" and brief: "brief (c_hist c)"
    and e: "index_of e = length (c_hist c (proposer_of e))" "1 \<le> e" "exec_next (c_node c (proposer_of e)) = e"
  shows "\<exists>ws c'. issues (cluster_step hash) c (proposer_of e) ws c'"
proof (cases "c_sub c (proposer_of e) = Sub_Idle")
  case False
  then show ?thesis using settled_issue_thread [OF inv pend set brief_short [OF brief] e] issues_cluster by blast
next
  case True
  let ?p = "proposer_of e"
  let ?c = "c\<lparr>c_node := (c_node c)(?p := mark_input_done (c_node c ?p))\<rparr>"
  have step: "cluster_step hash c ?c" using True by (intro cluster_step.input_done) simp_all
  have "full_inv hash K0 ?c" using full_inv_step [OF step inv] brief_short [OF brief] by simp
  moreover have "pend_all ?c" using pend_all_step [OF inv pend step] brief by simp
  moreover have "settled ?c" using set by (simp add: settled_def idle_link_def)
  ultimately have "\<exists>ws c'. issues (thread_step hash) ?c ?p ws c'"
    using e brief_short [OF brief] by (intro settled_issue_thread) (auto simp: mark_input_done_def exec_next_def)
  then obtain ws c' where "issues (cluster_step hash) ?c ?p ws c'" using issues_cluster by blast
  then have "issues (cluster_step hash) c ?p ws c'" by (rule issues_after [where step = "cluster_step hash", OF step, rotated 2]) simp_all
  then show ?thesis by blast
qed

section \<open>Rounds\<close>

lemma reachable_run: "(cluster_step hash)\<^sup>*\<^sup>* c c' \<Longrightarrow> reachable hash K0 c \<Longrightarrow> reachable hash K0 c'"
  by (induction rule: rtranclp_induct) (auto intro: reach_step)

lemma reachable_pend_all: "reachable hash K0 c \<Longrightarrow> brief (c_hist c) \<Longrightarrow> pend_all c"
  using completion.inv_reach [of hash K0 c] by (simp add: completion_inv_def)

text \<open>How far the nodes of a settled state have executed.\<close>

definition front :: "Cluster \<Rightarrow> nat" where
  "front c = exec_next (c_node c 1)"

lemma settled_length:
  assumes inv: "full_inv hash K0 c" and set: "settled c" and p: "p \<in> set node_ids"
  shows "3 * length (c_hist c p) < front c + 32769"
proof -
  obtain e where e: "\<And>p. p \<in> set node_ids \<Longrightarrow> exec_next (c_node c p) = e" using settled_front [OF inv set] by metis
  have "exec_next (c_node c p) = front c" using e [OF p] e [of 1] by (simp add: front_def node_ids_def)
  with full_invD(2) [OF inv p] show ?thesis by (cases "c_hist c p") (auto simp: issue_inv_def seq_of_def)
qed

lemma issues_front:
  assumes inv: "full_inv hash K0 c" "full_inv hash K0 c'" and set: "settled c" "settled c'"
    and e: "index_of (front c) = length (c_hist c (proposer_of (front c)))"
    and hist: "c_hist c' = (c_hist c)(proposer_of (front c) := c_hist c (proposer_of (front c)) @ ws)" "ws \<noteq> []"
  shows "front c < front c'"
proof -
  have one: "1 \<in> set node_ids" by (simp add: node_ids_def)
  obtain e0 where e0: "front c = e0" "\<And>s. 1 \<le> s \<Longrightarrow> s < e0 \<Longrightarrow> was_issued (c_hist c) s"
    using settled_front [OF inv(1) set(1)] one unfolding front_def by metis
  obtain e1 where e1: "front c' = e1" "1 \<le> e1" "\<not> was_issued (c_hist c') e1"
    using settled_front [OF inv(2) set(2)] one unfolding front_def by metis
  have "was_issued (c_hist c') s" if "1 \<le> s" "s \<le> front c" for s
  proof (cases "s = front c")
    case True
    then show ?thesis using e hist by (simp add: was_issued_def)
  next
    case False
    with e0 that have "was_issued (c_hist c) s" by simp
    then show ?thesis by (auto simp: was_issued_def hist(1))
  qed
  with e1 show ?thesis by (meson linorder_not_less)
qed

text \<open>What a run between settled states keeps.\<close>

definition settles :: "(string \<Rightarrow> u64) \<Rightarrow> Cluster \<Rightarrow> Cluster \<Rightarrow> bool" where
  "settles hash c c' \<longleftrightarrow> (cluster_step hash)\<^sup>*\<^sup>* c c' \<and> carries c c' \<and> settled c'"

lemma settles_trans: "settles hash a b \<Longrightarrow> settles hash b c \<Longrightarrow> settles hash a c"
  unfolding settles_def by (meson carries_trans rtranclp_trans)

text \<open>Once the owner of the next number has issued it, draining the rings brings all replicas past it.\<close>

lemma round_after_issue:
  assumes set: "settled c" and full: "full_inv hash K0 c" and bound: "front c \<le> 3 * 2 ^ 55 + 3"
    and e: "index_of (front c) = length (c_hist c (proposer_of (front c)))"
    and iss: "issues step c (proposer_of (front c)) ws c1"
    and step: "\<And>a b. step a b \<Longrightarrow> cluster_step hash a b" "\<And>a b. thread_step hash a b \<Longrightarrow> step a b"
  shows "\<exists>c'. step\<^sup>*\<^sup>* c c' \<and> carries c c' \<and> settled c' \<and> full_inv hash K0 c' \<and> front c < front c' \<and> ws \<noteq> [] \<and>
    c_hist c' = (c_hist c)(proposer_of (front c) := c_hist c (proposer_of (front c)) @ ws) \<and>
    (\<forall>p\<in>set node_ids. 3 * length (c_hist c' p) < front c + 65536)"
proof -
  have mono: "r\<^sup>*\<^sup>* a b \<Longrightarrow> r'\<^sup>*\<^sup>* a b" if "\<And>a b. r a b \<Longrightarrow> r' a b" for r r' :: "Cluster \<Rightarrow> Cluster \<Rightarrow> bool" and a b
    using rtranclp_mono [of r r'] that by blast
  have c1: "step\<^sup>*\<^sup>* c c1" "carries c c1" "ws \<noteq> []" "length ws \<le> 10921"
      "c_hist c1 = (c_hist c)(proposer_of (front c) := c_hist c (proposer_of (front c)) @ ws)"
    using iss by (simp_all add: issues_def)
  have len1: "3 * length (c_hist c1 p) < front c + 65536" if "p \<in> set node_ids" for p
    using settled_length [OF full set that] c1(4) by (cases "p = proposer_of (front c)") (simp_all add: c1(5))
  then have short: "short (c_hist c1)" using bound by (fastforce simp: short_def)
  moreover have "full_inv hash K0 c1" by (rule full_inv_run [OF mono [OF step(1) c1(1)] full short])
  ultimately obtain c2 where c2: "(thread_step hash)\<^sup>*\<^sup>* c1 c2" "full_inv hash K0 c2" "settled c2" "c_hist c2 = c_hist c1" "carries c1 c2"
    using drain_to_settled by blast
  have run: "step\<^sup>*\<^sup>* c1 c2" by (rule mono [OF step(2) c2(1)])
  have "front c < front c2"
    using c1(3,5) c2(4) e by (intro issues_front [OF full c2(2) set c2(3)]) auto
  moreover have "step\<^sup>*\<^sup>* c c2" "carries c c2" using c1(1,2) run c2(5) carries_trans by auto
  ultimately show ?thesis using c1(3,5) c2(2-4) len1 by (intro exI [of _ c2]) simp
qed

lemma settled_owner:
  assumes full: "full_inv hash K0 c" and set: "settled c"
  shows "1 \<le> front c" "index_of (front c) = length (c_hist c (proposer_of (front c)))"
    "p \<in> set node_ids \<Longrightarrow> exec_next (c_node c p) = front c"
proof -
  obtain e where e: "1 \<le> e" "\<And>p. p \<in> set node_ids \<Longrightarrow> exec_next (c_node c p) = e" "index_of e = length (c_hist c (proposer_of e))"
    using settled_front [OF full set] by metis
  moreover from this have "front c = e" by (simp add: front_def node_ids_def)
  ultimately show "1 \<le> front c" "index_of (front c) = length (c_hist c (proposer_of (front c)))"
    "p \<in> set node_ids \<Longrightarrow> exec_next (c_node c p) = front c" by simp_all
qed

lemma settled_brief:
  assumes "full_inv hash K0 c" "settled c" "front c \<le> 3 * 2 ^ 55 + 3"
  shows "brief (c_hist c)"
  using settled_length [OF assms(1,2)] assms(3) by (fastforce simp: brief_def)

lemma round:
  assumes reach: "reachable hash K0 c" and set: "settled c" and full: "full_inv hash K0 c" and bound: "front c \<le> 3 * 2 ^ 55 + 3"
  shows "\<exists>c'. settles hash c c' \<and> full_inv hash K0 c' \<and> front c < front c' \<and>
    (\<forall>p\<in>set node_ids. 3 * length (c_hist c' p) < front c + 65536)"
proof -
  note e = settled_owner [OF full set] and brief = settled_brief [OF full set bound]
  from settled_issue [OF full reachable_pend_all [OF reach brief] set brief e(2,1) e(3) [OF proposer_of_id]] obtain ws c1 where
    "issues (cluster_step hash) c (proposer_of (front c)) ws c1" by blast
  from round_after_issue [OF set full bound e(2) this] thread_step_cluster show ?thesis
    by (auto simp: settles_def)
qed

text \<open>The same by the threads alone, when the owner of the next number is waiting or has no more input.\<close>

lemma thread_round:
  assumes reach: "reachable hash K0 c" and set: "settled c" and full: "full_inv hash K0 c" and bound: "front c \<le> 3 * 2 ^ 55 + 3"
    and over: "c_sub c (proposer_of (front c)) = Sub_Idle \<Longrightarrow> n_input_done (c_node c (proposer_of (front c)))"
  obtains ws c' where "(thread_step hash)\<^sup>*\<^sup>* c c'" "carries c c'" "settled c'" "full_inv hash K0 c'" "front c < front c'" "ws \<noteq> []"
    "c_hist c' = (c_hist c)(proposer_of (front c) := c_hist c (proposer_of (front c)) @ ws)"
    "\<And>p. p \<in> set node_ids \<Longrightarrow> 3 * length (c_hist c' p) < front c + 65536"
proof -
  note e = settled_owner [OF full set] and brief = settled_brief [OF full set bound]
  from settled_issue_thread [OF full reachable_pend_all [OF reach brief] set brief_short [OF brief] e(2,1) e(3) [OF proposer_of_id] over]
  obtain ws c1 where "issues (thread_step hash) c (proposer_of (front c)) ws c1" by blast
  from round_after_issue [OF set full bound e(2) this] thread_step_cluster that show ?thesis by blast
qed

lemma rounds:
  assumes "reachable hash K0 c" "settled c" "full_inv hash K0 c" "N \<le> 3 * 2 ^ 55 + 3" "front c \<le> N"
  shows "\<exists>c'. settles hash c c' \<and> full_inv hash K0 c' \<and> N \<le> front c' \<and>
    (\<forall>p\<in>set node_ids. 3 * length (c_hist c' p) < N + 65536)"
  using assms
proof (induction "N - front c" arbitrary: c rule: less_induct)
  case less
  show ?case
  proof (cases "front c = N")
    case True
    with settled_length [OF less.prems(3,2)] less.prems show ?thesis
      by (intro exI [of _ c]) (fastforce simp: settles_def carries_refl)
  next
    case False
    with round [OF less.prems(1-3)] less.prems(4,5) obtain c1 where
      c1: "settles hash c c1" "full_inv hash K0 c1" "front c < front c1"
        "\<forall>p\<in>set node_ids. 3 * length (c_hist c1 p) < front c + 65536" by auto
    show ?thesis
    proof (cases "front c1 \<le> N")
      case True
      have "reachable hash K0 c1" using c1(1) less.prems(1) reachable_run by (metis settles_def)
      moreover have "N - front c1 < N - front c" "settled c1" using c1(1,3) True by (auto simp: settles_def)
      ultimately obtain c2 where
        "settles hash c1 c2" "full_inv hash K0 c2" "N \<le> front c2" "\<forall>p\<in>set node_ids. 3 * length (c_hist c2 p) < N + 65536"
        using less.hyps [of c1] c1(2) less.prems(4) True by blast
      with c1(1) show ?thesis using settles_trans by blast
    next
      case stop: False
      have "3 * length (c_hist c1 p) < N + 65536" if "p \<in> set node_ids" for p
        using bspec [OF c1(4) that] less.prems(5) by simp
      with c1 stop show ?thesis by (intro exI [of _ c1]) auto
    qed
  qed
qed

section \<open>Every request can complete\<close>

lemma settled_requests_executed:
  assumes reach: "reachable hash K0 c'" and full: "full_inv hash K0 c'" and set: "settled c'" and run: "carries c c'"
    and p: "p \<in> set node_ids" and N: "3 * Suc (demand c p) \<le> front c'"
  shows "c_sub c' p = Sub_Idle"
    and "\<And>i. i < length (c_hist c' p) \<Longrightarrow> is_request (c_hist c' p ! i) \<Longrightarrow> seq_of p i < front c'"
    and "demand c p \<le> length (c_hist c' p)"
proof -
  have one: "1 \<in> set node_ids" by (simp add: node_ids_def)
  obtain e where e: "front c' = e" "\<And>s. 1 \<le> s \<Longrightarrow> s < e \<Longrightarrow> was_issued (c_hist c') s"
    using settled_front [OF full set] one unfolding front_def by metis
  have p3: "p \<le> 3" "1 \<le> p" using p by (auto simp: node_ids_def)
  have below: "seq_of p i < front c'" if "i < demand c p" for i using that N p3 by (simp add: seq_of_def)
  show len: "demand c p \<le> length (c_hist c' p)"
  proof (rule ccontr)
    assume "\<not> ?thesis"
    then have "was_issued (c_hist c') (seq_of p (length (c_hist c' p)))"
      using below [of "length (c_hist c' p)"] e p3 by (intro e(2)) (auto simp: seq_of_def)
    then show False using split_seq_of [OF p] by (simp add: was_issued_def)
  qed
  show "c_sub c' p = Sub_Idle"
  proof (rule ccontr)
    assume busy: "c_sub c' p \<noteq> Sub_Idle"
    then have d: "demand c' p = demand c p" using run p by (simp add: carries_def)
    from busy have "waits_admission (c_sub c' p)" using set p by (auto simp: settled_def)
    then obtain ch chs where sub: "c_sub c' p = Sub_Admit (ch # chs)" by (cases "c_sub c' p" rule: waits_admission.cases) auto
    have "ch \<noteq> []" using full_invD(1) [OF full p] by (simp add: node_ok_def sub chunk_ok_def)
    then show False using d len by (cases ch) (auto simp: demand_def sub)
  qed
  fix i assume i: "i < length (c_hist c' p)" "is_request (c_hist c' p ! i)"
  obtain ws where ws: "c_hist c' p = c_hist c p @ ws" "\<forall>i<length ws. is_request (ws ! i) \<longrightarrow> length (c_hist c p) + i < demand c p"
    using run p by (auto simp: carries_def)
  have "i < demand c p"
  proof (cases "i < length (c_hist c p)")
    case False
    then have "i - length (c_hist c p) < length ws" "is_request (ws ! (i - length (c_hist c p)))"
      using i ws(1) by (simp_all add: nth_append)
    with ws(2) have "length (c_hist c p) + (i - length (c_hist c p)) < demand c p" by blast
    with False show ?thesis by simp
  qed (simp add: demand_def)
  then show "seq_of p i < front c'" by (rule below)
qed

lemma settled_front_bound:
  assumes "full_inv hash K0 c" "settled c" and bound: "\<And>p. p \<in> set node_ids \<Longrightarrow> length (c_hist c p) \<le> D"
  shows "front c \<le> 3 * D + 3"
proof (rule ccontr)
  assume "\<not> ?thesis"
  moreover have "1 \<in> set node_ids" by (simp add: node_ids_def)
  ultimately have "was_issued (c_hist c) (3 * D + 3)"
    using settled_front [OF assms(1,2)] unfolding front_def by (metis le_add2 le_trans linorder_not_less one_le_numeral)
  moreover have "index_of (3 * D + 3) = D" by (simp add: index_of_def)
  ultimately show False using bound [OF proposer_of_id [of "3 * D + 3"]] by (simp add: was_issued_def)
qed

text \<open>Property C5: no deadlock. From every reachable state, whatever the interleaving so far, the threads can go
  on until every submission has returned and every client request, of those issued and of those still
  waiting for admission, has been executed by all replicas, so that \<open>wait_for_all_pending\<close> returns at every
  node. The run needs no new request: it drains the rings, admits waiting chunks and fills the numbers of
  nodes that have no more input with no-ops.\<close>

theorem every_request_can_complete:
  assumes "reachable hash K0 c" and "\<forall>p\<in>set node_ids. length (c_hist c p) + queued (c_sub c p) \<le> 2 ^ 55"
  shows "\<exists>c'. (cluster_step hash)\<^sup>*\<^sup>* c c' \<and>
    (\<forall>p\<in>set node_ids. c_sub c' p = Sub_Idle \<and> pending_wait_over (c_node c' p) \<and>
       length (c_hist c p) + queued (c_sub c p) \<le> length (c_hist c' p) \<and>
       (\<forall>q\<in>set node_ids. \<forall>i<length (c_hist c' p). is_request (c_hist c' p ! i) \<longrightarrow> seq_of p i < exec_next (c_node c' q)))"
proof -
  define D where "D = Max (demand c ` set node_ids)"
  have D: "demand c p \<le> D" if "p \<in> set node_ids" for p using that by (simp add: D_def)
  have "D \<in> demand c ` set node_ids" unfolding D_def by (rule Max_in) (auto simp: node_ids_def)
  then have D55: "D \<le> 2 ^ 55" using assms(2) by (auto simp: demand_def)
  have "length (c_hist c p) \<le> 2 ^ 55" if "p \<in> set node_ids" for p using assms(2) that by fastforce
  then have short: "short (c_hist c)" by (fastforce simp: short_def)
  from drain_to_settled [OF reachable_inv [OF assms(1) short] short] obtain c1 where
    c1: "(cluster_step hash)\<^sup>*\<^sup>* c c1" "full_inv hash K0 c1" "settled c1" "c_hist c1 = c_hist c" "carries c c1"
    using thread_run_cluster by blast
  have reach1: "reachable hash K0 c1" using c1(1) assms(1) by (rule reachable_run)
  have "front c1 \<le> 3 * D + 3" using D by (intro settled_front_bound [OF c1(2,3)]) (fastforce simp: c1(4) demand_def)
  with rounds [OF reach1 c1(3,2), of "3 * D + 3"] D55 obtain c2 where
    c2: "settles hash c1 c2" "full_inv hash K0 c2" "3 * D + 3 \<le> front c2" "\<forall>p\<in>set node_ids. 3 * length (c_hist c2 p) < 3 * D + 3 + 65536"
    by auto
  have run: "(cluster_step hash)\<^sup>*\<^sup>* c c2" "carries c c2" "settled c2"
    using c1(1,5) c2(1) carries_trans by (auto simp: settles_def)
  have reach2: "reachable hash K0 c2" using run(1) assms(1) by (rule reachable_run)
  have brief: "brief (c_hist c2)" using c2(4) D55 by (fastforce simp: brief_def)
  have at: "exec_next (c_node c2 q) = front c2" if "q \<in> set node_ids" for q
    using settled_front [OF c2(2) run(3)] that by (metis front_def list.set_intros(1) node_ids_def)
  have N: "3 * Suc (demand c p) \<le> front c2" if "p \<in> set node_ids" for p using D [OF that] c2(3) by simp
  note all = settled_requests_executed [OF reach2 c2(2) run(3,2) _ N]
  show ?thesis
  proof (intro exI [of _ c2] conjI ballI allI impI)
    fix p assume p: "p \<in> set node_ids"
    show "c_sub c2 p = Sub_Idle" using p by (intro all)
    show "pending_wait_over (c_node c2 p)"
      using wait_iff_executed [OF reach2 brief p] all(2) [OF p p] at [OF p] by simp
    show "length (c_hist c p) + queued (c_sub c p) \<le> length (c_hist c2 p)"
      using all(3) [OF p p] by (simp add: demand_def)
    show "seq_of p i < exec_next (c_node c2 q)" if "q \<in> set node_ids" "i < length (c_hist c2 p)" "is_request (c_hist c2 p ! i)" for q i
      using all(2) [OF p p] that at by simp
  qed (rule run(1))
qed

text \<open>A cluster in which node 1 has begun to submit one read.\<close>

definition read_request :: BorrowedRequest where
  "read_request = \<lparr> q_op = CHR ''G'', q_key_ptr = None, q_key_len = 0, q_value_ptr = None, q_value_len = 0 \<rparr>"

lemma demo_submit: "\<exists>c. reachable hash Map.empty c \<and> c_hist c = (\<lambda>_. []) \<and> queued (c_sub c 1) = 1 \<and> queued (c_sub c 2) = 0 \<and> queued (c_sub c 3) = 0"
proof -
  let ?scratch = "\<lambda>_ :: nat. replicate kMaxValueBytes CHR 0x00"
  let ?m = "make_proposal 1 read_request (?scratch 0)"
  have sub: "submit_begin ?scratch [read_request] (c_node demo_cluster 1) = (Sub_Admit (admission_chunks (demo_node 1) [?m]), demo_node 1)"
    by (simp add: submit_begin_def read_request_def demo_cluster_def demo_node_fields [simplified])
  have "sum_list (map length (split_chunks k [x])) = 1" if "0 < k" for k and x :: BandleMessage
    using that by (subst split_chunks.simps) (simp add: split_chunks.simps)
  then have len: "sum_list (map length (admission_chunks (demo_node 1) [?m])) = 1"
    by (simp add: admission_chunks_def admission_batch_capacity_def)
  let ?c = "demo_cluster\<lparr>c_sub := (c_sub demo_cluster)(1 := Sub_Admit (admission_chunks (demo_node 1) [?m])),
      c_node := (c_node demo_cluster)(1 := demo_node 1)\<rparr>"
  have "reachable hash Map.empty ?c"
    by (rule reach_step [OF demo_replica(1)], rule cluster_step.begin_submit [OF _ _ _ _ _ sub])
      (auto simp: demo_cluster_def demo_node_fields [simplified] node_ids_def req_ok_def read_request_def)
  then show ?thesis by (intro exI [of _ ?c]) (simp add: demo_cluster_def len [simplified])
qed

theorem every_request_can_complete_witness:
  "\<exists>c c'. reachable (\<lambda>_. 0) Map.empty c \<and> c_hist c 1 = [] \<and> queued (c_sub c 1) = 1 \<and> (cluster_step (\<lambda>_. 0))\<^sup>*\<^sup>* c c' \<and>
     c_sub c' 1 = Sub_Idle \<and> pending_wait_over (c_node c' 1) \<and> 1 \<le> length (c_hist c' 1)"
proof -
  obtain c where c: "reachable (\<lambda>_. 0) Map.empty c" "c_hist c = (\<lambda>_. [])" "queued (c_sub c 1) = 1"
    "queued (c_sub c 2) = 0" "queued (c_sub c 3) = 0" using demo_submit by blast
  then have "\<forall>p\<in>set node_ids. length (c_hist c p) + queued (c_sub c p) \<le> 2 ^ 55" by (simp add: node_ids_def)
  from every_request_can_complete [OF c(1) this] obtain c' where c': "(cluster_step (\<lambda>_. 0))\<^sup>*\<^sup>* c c'"
    "\<forall>p\<in>set node_ids. c_sub c' p = Sub_Idle \<and> pending_wait_over (c_node c' p) \<and>
       length (c_hist c p) + queued (c_sub c p) \<le> length (c_hist c' p)" by blast
  have "1 \<in> set node_ids" by (simp add: node_ids_def)
  from bspec [OF c'(2) this] c(2,3) have "c_sub c' 1 = Sub_Idle" "pending_wait_over (c_node c' 1)" "1 \<le> length (c_hist c' 1)" by simp_all
  with c c'(1) show ?thesis by (intro exI [of _ c] exI [of _ c']) simp
qed

end
