(* ===== verification/Run_Protocol.thy ===== *)
theory Run_Protocol
  imports Cluster_Progress
begin

text \<open>
  How a run begins and ends (\<open>src/main.cpp\<close>). Node 1 clears the shared memory and publishes the run id, the
  others wait for it; then all touch the pages of the payload area. At the end every driver waits for its
  own requests, reports in \<open>node_finished\<close> and leaves when all have reported.
\<close>

section \<open>Start\<close>

text \<open>\<open>BandleSharedState\<close> and \<open>BandleNonHwccState\<close>; \<open>completion\<close> is never used by the program.\<close>

record Shared =
  sh_run_id :: u64
  sh_finished :: "nat \<Rightarrow> u64"
  sh_rings :: "nat \<Rightarrow> nat \<Rightarrow> SpscRing"

text \<open>Cleared memory. A zero byte is no enumerator of \<open>BandleMsgType\<close>, so that field stays arbitrary.\<close>

definition clear_descriptor :: "BandleDescriptor \<Rightarrow> BandleDescriptor" where
  "clear_descriptor d = \<lparr> d_slot_seq = 0, d_type = d_type d, d_seq = 0, d_round = 0, d_sender = 0, d_proposer = 0,
     d_client_req_id = 0, d_start_tsc = 0, d_value = 0, d_promise = 0, d_op = CHR 0x00, d_key_len = 0, d_value_len = 0 \<rparr>"

definition clear_shared :: "Shared \<Rightarrow> Shared" where
  "clear_shared sh = \<lparr> sh_run_id = 0, sh_finished = (\<lambda>_. 0),
     sh_rings = (\<lambda>p q. (sh_rings sh p q)\<lparr>r_head := 0, r_tail := 0,
       r_descs := clear_descriptor \<circ> r_descs (sh_rings sh p q)\<rparr>) \<rparr>"

definition clear_payloads :: "Shared \<Rightarrow> Shared" where
  "clear_payloads sh = sh\<lparr>sh_rings :=
     (\<lambda>p q. (sh_rings sh p q)\<lparr>r_payloads := (\<lambda>_. replicate kMaxValueBytes CHR 0x00)\<rparr>)\<rparr>"

text \<open>\<open>sizeof(BandleNonHwccState)\<close>, and a store of zero at an offset of \<open>payloads[4][4][32768][1088]\<close>.\<close>

definition warmup_bytes :: nat where
  "warmup_bytes = (kMaxBandleNodes + 1) * (kMaxBandleNodes + 1) * unat kBandleRingCapacity * kMaxValueBytes"

definition zero_byte :: "nat \<Rightarrow> Shared \<Rightarrow> Shared" where
  "zero_byte off sh =
     (let slot = off div kMaxValueBytes; pair = slot div unat kBandleRingCapacity;
          p = pair div (kMaxBandleNodes + 1); q = pair mod (kMaxBandleNodes + 1);
          idx = of_nat (slot mod unat kBandleRingCapacity); r = sh_rings sh p q
      in sh\<lparr>sh_rings := (sh_rings sh)(p := (sh_rings sh p)(q := r\<lparr>r_payloads :=
           (r_payloads r)(idx := (r_payloads r idx)[off mod kMaxValueBytes := CHR 0x00])\<rparr>))\<rparr>)"

text \<open>The control points of \<open>main\<close> up to the construction of the node.\<close>

datatype boot_pc = Bo_Start | Bo_Payloads | Bo_Publish | Bo_Wait | Bo_Warm nat | Bo_Ready

fun boot_step :: "u64 \<Rightarrow> nat \<Rightarrow> boot_pc \<Rightarrow> Shared \<Rightarrow> boot_pc \<times> Shared" where
  "boot_step run_id p Bo_Start sh =
     (if p = 1 then (Bo_Payloads, clear_shared sh)
      else (if run_id \<noteq> 0 then Bo_Wait else Bo_Warm 0, sh))"
| "boot_step run_id p Bo_Payloads sh = (Bo_Publish, clear_payloads sh)"
| "boot_step run_id p Bo_Publish sh = (Bo_Warm 0, if run_id \<noteq> 0 then sh\<lparr>sh_run_id := run_id\<rparr> else sh)"
| "boot_step run_id p Bo_Wait sh = (if sh_run_id sh \<noteq> run_id then Bo_Wait else Bo_Warm 0, sh)"
| "boot_step run_id p (Bo_Warm off) sh =
     (if off < warmup_bytes then (Bo_Warm (off + 4096), if p = 1 then zero_byte off sh else sh) else (Bo_Ready, sh))"
| "boot_step run_id p Bo_Ready sh = (Bo_Ready, sh)"

record Boot =
  bo_shared :: Shared
  bo_pc :: "nat \<Rightarrow> boot_pc"

inductive boot_trans :: "u64 \<Rightarrow> Boot \<Rightarrow> Boot \<Rightarrow> bool" for run_id where
  boot: "\<lbrakk>p \<in> set node_ids; boot_step run_id p (bo_pc b p) (bo_shared b) = (pc, sh)\<rbrakk>
    \<Longrightarrow> boot_trans run_id b (b\<lparr>bo_shared := sh, bo_pc := (bo_pc b)(p := pc)\<rparr>)"

text \<open>The memory holds whatever an earlier run with another id left there.\<close>

definition boot_init :: "u64 \<Rightarrow> Boot \<Rightarrow> bool" where
  "boot_init run_id b \<longleftrightarrow> run_id \<noteq> 0 \<and> sh_run_id (bo_shared b) \<noteq> run_id \<and> (\<forall>p. bo_pc b p = Bo_Start)"

fun past_handshake :: "boot_pc \<Rightarrow> bool" where
  "past_handshake (Bo_Warm off) \<longleftrightarrow> True"
| "past_handshake Bo_Ready \<longleftrightarrow> True"
| "past_handshake _ \<longleftrightarrow> False"

definition meta_cleared :: "Shared \<Rightarrow> bool" where
  "meta_cleared sh \<longleftrightarrow> (\<forall>i. sh_finished sh i = 0) \<and>
     (\<forall>p q. r_head (sh_rings sh p q) = 0 \<and> r_tail (sh_rings sh p q) = 0)"

definition payloads_cleared :: "Shared \<Rightarrow> bool" where
  "payloads_cleared sh \<longleftrightarrow> (\<forall>p q idx. r_payloads (sh_rings sh p q) idx = replicate kMaxValueBytes CHR 0x00)"

fun boot_phase :: "u64 \<Rightarrow> boot_pc \<Rightarrow> Shared \<Rightarrow> bool" where
  "boot_phase run_id Bo_Start sh \<longleftrightarrow> sh_run_id sh \<noteq> run_id"
| "boot_phase run_id Bo_Payloads sh \<longleftrightarrow> sh_run_id sh = 0 \<and> meta_cleared sh"
| "boot_phase run_id Bo_Publish sh \<longleftrightarrow> sh_run_id sh = 0 \<and> meta_cleared sh \<and> payloads_cleared sh"
| "boot_phase run_id Bo_Wait sh \<longleftrightarrow> False"
| "boot_phase run_id _ sh \<longleftrightarrow> sh_run_id sh = run_id \<and> meta_cleared sh \<and> payloads_cleared sh"

definition boot_inv :: "u64 \<Rightarrow> Boot \<Rightarrow> bool" where
  "boot_inv run_id b \<longleftrightarrow> run_id \<noteq> 0 \<and> boot_phase run_id (bo_pc b 1) (bo_shared b) \<and>
     (\<forall>q\<in>{2, 3}. bo_pc b q \<noteq> Bo_Payloads \<and> bo_pc b q \<noteq> Bo_Publish \<and>
        (past_handshake (bo_pc b q) \<longrightarrow> past_handshake (bo_pc b 1)))"

lemma cleared_steps:
  "meta_cleared (clear_shared sh)" "sh_run_id (clear_shared sh) = 0"
  "meta_cleared (clear_payloads sh) = meta_cleared sh" "payloads_cleared (clear_payloads sh)"
  "sh_run_id (clear_payloads sh) = sh_run_id sh"
  "meta_cleared (zero_byte off sh) = meta_cleared sh" "sh_run_id (zero_byte off sh) = sh_run_id sh"
  by (simp_all add: meta_cleared_def payloads_cleared_def clear_shared_def clear_payloads_def zero_byte_def Let_def)
    auto

lemma replicate_update: "(replicate n x)[i := x] = replicate n x"
  by (induction n arbitrary: i) (auto split: nat.splits)

lemma zero_byte_cleared: "payloads_cleared sh \<Longrightarrow> payloads_cleared (zero_byte off sh)"
  by (simp add: payloads_cleared_def zero_byte_def Let_def replicate_update)

lemma cleared_run_id [simp]:
  "meta_cleared (sh\<lparr>sh_run_id := x\<rparr>) = meta_cleared sh" "payloads_cleared (sh\<lparr>sh_run_id := x\<rparr>) = payloads_cleared sh"
  by (simp_all add: meta_cleared_def payloads_cleared_def)

lemma boot_phase_step:
  assumes "boot_phase run_id pc sh" "run_id \<noteq> 0" "boot_step run_id 1 pc sh = (pc', sh')"
  shows "boot_phase run_id pc' sh'" "past_handshake pc \<Longrightarrow> past_handshake pc'"
  using assms by (cases pc; auto simp: cleared_steps zero_byte_cleared split: if_splits)+

lemma boot_inv_step:
  assumes inv: "boot_inv run_id b" and step: "boot_trans run_id b b'"
  shows "boot_inv run_id b'"
  using step
proof cases
  case (boot p pc sh)
  show ?thesis
  proof (cases "p = 1")
    case True
    with boot inv boot_phase_step [of run_id "bo_pc b 1" "bo_shared b" pc sh] show ?thesis by (auto simp: boot_inv_def)
  next
    case False
    then have p: "p \<in> {2, 3}" using boot(2) by (auto simp: node_ids_def)
    have same: "sh = bo_shared b" using boot(3) False inv p by (cases "bo_pc b p") (auto simp: boot_inv_def split: if_splits)
    have "past_handshake (bo_pc b 1)" if "past_handshake pc"
      using that boot(3) False inv p
      by (cases "bo_pc b p"; cases "bo_pc b 1") (auto simp: boot_inv_def split: if_splits)
    moreover have "pc \<noteq> Bo_Payloads" "pc \<noteq> Bo_Publish" using boot(3) False inv p by (cases "bo_pc b p"; auto simp: boot_inv_def split: if_splits)+
    ultimately show ?thesis using inv False boot(1) same by (auto simp: boot_inv_def)
  qed
qed

lemma boot_inv_init: "boot_init run_id b \<Longrightarrow> boot_inv run_id b"
  by (simp add: boot_init_def boot_inv_def)

interpretation startup: step_invariant "boot_init run_id" "boot_trans run_id" "boot_inv run_id" for run_id
  by unfold_locales (rule boot_inv_init, assumption, rule boot_inv_step)

lemma cleared_ring_rep:
  assumes "meta_cleared sh" "payloads_cleared sh"
  shows "ring_rep ring_cap (sh_rings sh p q) []"
  using assms by (simp add: ring_rep_def region_rep_def meta_cleared_def payloads_cleared_def)

lemma started_over_empty_rings:
  assumes reach: "reach (boot_init run_id) (boot_trans run_id) b" and q: "q \<in> set node_ids" "past_handshake (bo_pc b q)"
  shows "past_handshake (bo_pc b 1) \<and> sh_run_id (bo_shared b) = run_id \<and> (\<forall>i. sh_finished (bo_shared b) i = 0) \<and>
    (\<forall>x y. ring_rep ring_cap (sh_rings (bo_shared b) x y) [])"
proof -
  have inv: "boot_inv run_id b" using reach by (rule startup.inv_reach)
  then have one: "past_handshake (bo_pc b 1)" using q by (auto simp: boot_inv_def node_ids_def)
  with inv have "sh_run_id (bo_shared b) = run_id" "meta_cleared (bo_shared b)" "payloads_cleared (bo_shared b)"
    by (cases "bo_pc b 1"; simp add: boot_inv_def)+
  with one cleared_ring_rep show ?thesis by (simp add: meta_cleared_def)
qed

text \<open>Property C21: start handshake. With a run id that is not 0 and not the one left in the memory, no node gets past
  the handshake before node 1 has cleared the shared state and the payloads; so whatever an earlier run
  left behind, every node starts with no node reported as finished and with all rings empty. This is the start-up
  phase, in which no node sends yet: the scripts give all drivers a start signal that they wait for when they are ready.\<close>

theorem start_handshake:
  assumes "reach (boot_init run_id) (boot_trans run_id) b" "q \<in> set node_ids" "past_handshake (bo_pc b q)"
  shows "past_handshake (bo_pc b 1) \<and> sh_run_id (bo_shared b) = run_id \<and> (\<forall>i. sh_finished (bo_shared b) i = 0) \<and>
    (\<forall>x y. ring_rep kBandleRingCapacity (sh_rings (bo_shared b) x y) [])"
  using assms by (rule started_over_empty_rings)

text \<open>A run of the start-up in which the other nodes are ready while node 1 is at its first page.\<close>

lemma boot_one:
  assumes "reach (boot_init run_id) (boot_trans run_id) b" "p \<in> set node_ids"
    and "boot_step run_id p (bo_pc b p) (bo_shared b) = (pc, sh)"
  shows "reach (boot_init run_id) (boot_trans run_id) (b\<lparr>bo_shared := sh, bo_pc := (bo_pc b)(p := pc)\<rparr>)"
  using assms by (blast intro: reach_step boot_trans.boot)

lemma warm_up_ends:
  assumes "reach (boot_init run_id) (boot_trans run_id) b" "p \<in> set node_ids" "bo_pc b p = Bo_Warm off"
  shows "\<exists>b'. reach (boot_init run_id) (boot_trans run_id) b' \<and> bo_pc b' = (bo_pc b)(p := Bo_Ready)"
  using assms
proof (induction "warmup_bytes - off" arbitrary: b off rule: less_induct)
  case less
  obtain pc sh where step: "boot_step run_id p (bo_pc b p) (bo_shared b) = (pc, sh)" by fastforce
  let ?b = "b\<lparr>bo_shared := sh, bo_pc := (bo_pc b)(p := pc)\<rparr>"
  note one = boot_one [OF less.prems(1,2) step]
  show ?case
  proof (cases "off < warmup_bytes")
    case True
    with less.prems step have "pc = Bo_Warm (off + 4096)" by simp
    moreover have "warmup_bytes - (off + 4096) < warmup_bytes - off" using True by simp
    ultimately show ?thesis using less.hyps [of "off + 4096" ?b] one less.prems(2) by auto
  next
    case False
    with less.prems step have "pc = Bo_Ready" by simp
    with one show ?thesis by (intro exI [of _ ?b]) simp
  qed
qed

definition stale_boot :: Boot where
  "stale_boot = \<lparr> bo_shared = \<lparr> sh_run_id = 0, sh_finished = (\<lambda>_. 1), sh_rings = (\<lambda>_ _. fresh_ring 5) \<rparr>, bo_pc = (\<lambda>_. Bo_Start) \<rparr>"

lemma others_ready_early:
  assumes "run_id \<noteq> 0"
  shows "\<exists>b. reach (boot_init run_id) (boot_trans run_id) b \<and> bo_pc b 1 = Bo_Warm 0 \<and> bo_pc b 2 = Bo_Ready \<and> bo_pc b 3 = Bo_Start"
proof -
  let ?R = "reach (boot_init run_id) (boot_trans run_id)"
  define b1 where "b1 = stale_boot\<lparr>bo_shared := clear_shared (bo_shared stale_boot), bo_pc := (bo_pc stale_boot)(1 := Bo_Payloads)\<rparr>"
  define b2 where "b2 = b1\<lparr>bo_shared := clear_payloads (bo_shared b1), bo_pc := (bo_pc b1)(1 := Bo_Publish)\<rparr>"
  define b3 where "b3 = b2\<lparr>bo_shared := (bo_shared b2)\<lparr>sh_run_id := run_id\<rparr>, bo_pc := (bo_pc b2)(1 := Bo_Warm 0)\<rparr>"
  define b4 where "b4 = b3\<lparr>bo_shared := bo_shared b3, bo_pc := (bo_pc b3)(2 := Bo_Wait)\<rparr>"
  define b5 where "b5 = b4\<lparr>bo_shared := bo_shared b4, bo_pc := (bo_pc b4)(2 := Bo_Warm 0)\<rparr>"
  note d = b1_def b2_def b3_def b4_def b5_def stale_boot_def
  have ids: "1 \<in> set node_ids" "2 \<in> set node_ids" by (simp_all add: node_ids_def)
  have "?R stale_boot" using assms by (intro reach_init) (simp add: boot_init_def stale_boot_def)
  then have "?R b1" unfolding b1_def by (rule boot_one [OF _ ids(1)]) (simp add: d)
  then have "?R b2" unfolding b2_def by (rule boot_one [OF _ ids(1)]) (simp add: d)
  then have "?R b3" unfolding b3_def by (rule boot_one [OF _ ids(1)]) (simp add: d assms)
  then have "?R b4" unfolding b4_def by (rule boot_one [OF _ ids(2)]) (simp add: d assms)
  then have "?R b5" unfolding b5_def by (rule boot_one [OF _ ids(2)]) (simp add: d)
  from warm_up_ends [OF this ids(2), of 0] obtain b6 where "?R b6" "bo_pc b6 = (bo_pc b5)(2 := Bo_Ready)" by (auto simp: d)
  then show ?thesis by (intro exI [of _ b6]) (simp add: d)
qed

lemma all_ready:
  assumes "run_id \<noteq> 0"
  shows "\<exists>b. reach (boot_init run_id) (boot_trans run_id) b \<and> (\<forall>p\<in>set node_ids. bo_pc b p = Bo_Ready)"
proof -
  let ?R = "reach (boot_init run_id) (boot_trans run_id)"
  have ids: "1 \<in> set node_ids" "2 \<in> set node_ids" "3 \<in> set node_ids" by (simp_all add: node_ids_def)
  obtain b where b: "?R b" "bo_pc b 1 = Bo_Warm 0" "bo_pc b 2 = Bo_Ready" "bo_pc b 3 = Bo_Start"
    using others_ready_early [OF assms] by blast
  define b1 where "b1 = b\<lparr>bo_shared := bo_shared b, bo_pc := (bo_pc b)(3 := Bo_Wait)\<rparr>"
  define b2 where "b2 = b1\<lparr>bo_shared := bo_shared b1, bo_pc := (bo_pc b1)(3 := Bo_Warm 0)\<rparr>"
  have r1: "?R b1" unfolding b1_def by (rule boot_one [OF b(1) ids(3)]) (simp add: b assms)
  then have "sh_run_id (bo_shared b1) = run_id" using started_over_empty_rings [OF r1 ids(2)] b by (simp add: b1_def)
  then have r2: "?R b2" unfolding b2_def by (intro boot_one [OF r1 ids(3)]) (simp add: b1_def)
  from warm_up_ends [OF r2 ids(3), of 0] obtain b3 where b3: "?R b3" "bo_pc b3 = (bo_pc b2)(3 := Bo_Ready)" by (auto simp: b2_def)
  from warm_up_ends [OF b3(1) ids(1), of 0] b obtain b4 where "?R b4" "bo_pc b4 = (bo_pc b3)(1 := Bo_Ready)"
    by (auto simp: b3(2) b2_def b1_def)
  then show ?thesis using b b3(2) by (intro exI [of _ b4]) (auto simp: node_ids_def b2_def b1_def)
qed

text \<open>
  A driver that was given no start signal goes on as soon as it is ready: its threads may send while other nodes
  are still starting. With such sends the steps are those of \<open>early_trans\<close>.
\<close>

inductive early_trans :: "u64 \<Rightarrow> Boot \<Rightarrow> Boot \<Rightarrow> bool" for run_id where
  starting: "boot_trans run_id b b' \<Longrightarrow> early_trans run_id b b'"
| sends: "\<lbrakk>p \<in> set node_ids; q \<in> set (peers p); bo_pc b p = Bo_Ready; wf_msg m;
      send_to_peer m (sh_rings (bo_shared b) p q) = (True, r)\<rbrakk>
    \<Longrightarrow> early_trans run_id b (b\<lparr>bo_shared := (bo_shared b)\<lparr>sh_rings :=
          (sh_rings (bo_shared b))(p := (sh_rings (bo_shared b) p)(q := r))\<rparr>\<rparr>)"

lemma boot_reach_early: "reach (boot_init run_id) (boot_trans run_id) b \<Longrightarrow> reach (boot_init run_id) (early_trans run_id) b"
proof (induction rule: reach.induct)
  case (reach_step s t)
  show ?case by (rule reach.reach_step [OF reach_step.IH early_trans.starting [OF reach_step.hyps(2)]])
qed (rule reach.reach_init)

lemma warm_up_to:
  assumes "reach (boot_init run_id) (boot_trans run_id) b" "p \<in> set node_ids" "bo_pc b p = Bo_Warm 0" "4096 * k < warmup_bytes + 4096"
  shows "\<exists>b'. reach (boot_init run_id) (boot_trans run_id) b' \<and> bo_pc b' = (bo_pc b)(p := Bo_Warm (4096 * k))"
  using assms(4)
proof (induction k)
  case 0
  then show ?case using assms by (intro exI [of _ b]) (simp add: fun_upd_idem)
next
  case (Suc k)
  then have "4096 * k < warmup_bytes + 4096" by simp
  from Suc.IH [OF this] obtain b' where
    b': "reach (boot_init run_id) (boot_trans run_id) b'" "bo_pc b' = (bo_pc b)(p := Bo_Warm (4096 * k))" by blast
  obtain pc sh where step: "boot_step run_id p (bo_pc b' p) (bo_shared b') = (pc, sh)" by fastforce
  then have "pc = Bo_Warm (4096 * Suc k)" using b'(2) Suc.prems by auto
  with boot_one [OF b'(1) assms(2) step] b'(2) show ?case by (intro exI) auto
qed

text \<open>A message whose first data byte has been cleared, in a ring.\<close>

definition first_byte_cleared :: "BandleMessage \<Rightarrow> BandleMessage" where
  "first_byte_cleared m = m\<lparr>m_body := (m_body m)\<lparr>b_data := (b_data (m_body m))[0 := CHR 0x00]\<rparr>\<rparr>"

lemma zeroed_slot_rep:
  assumes rep: "ring_rep cap r [w]" and idx: "ring_slot cap (r_tail r) = i"
  shows "ring_rep cap (r\<lparr>r_payloads := (r_payloads r)(i := (r_payloads r i)[0 := CHR 0x00])\<rparr>) [first_byte_cleared w]"
proof -
  let ?d = "r_descs r i" and ?p = "r_payloads r i"
  have slot: "slot_holds cap r (r_tail r) w" using rep by (simp add: ring_rep_def region_rep_def)
  have "wire_of_slot ?d (?p[0 := CHR 0x00]) = first_byte_cleared (wire_of_slot ?d ?p)"
    by (simp add: wire_of_slot_def wire_def first_byte_cleared_def fill_from_descriptor_def msg_bytes_def take_update_swap)
  with slot show ?thesis using rep by (auto simp: ring_rep_def region_rep_def slot_holds_def Let_def idx)
qed

lemma first_byte_matters:
  assumes "wf_msg m" "msg_bytes m \<noteq> 0" "b_data (m_body m) ! 0 \<noteq> CHR 0x00"
  shows "first_byte_cleared (wire m) \<noteq> wire m"
proof
  assume "first_byte_cleared (wire m) = wire m"
  from arg_cong [OF this, of "\<lambda>m. b_data (m_body m) ! 0"]
  have "(take (unat (msg_bytes m)) (b_data (m_body m)))[0 := CHR 0x00] ! 0 = take (unat (msg_bytes m)) (b_data (m_body m)) ! 0"
    by (simp add: first_byte_cleared_def wire_def)
  moreover have "0 < unat (msg_bytes m)" "0 < length (b_data (m_body m))"
    using assms(1,2) by (simp_all add: wf_msg_def kMaxValueBytes_def unat_gt_0)
  ultimately show False using assms(3) by simp
qed

text \<open>Property C31: the warm-up of node 1 writes after the handshake. There is a run of the start-up in which node 2,
  without a start signal, is ready and sends a message to node 1 while node 1 is still warming up its pages:
  the ring holds the message. The next store of node 1's warm-up then clears the first byte of its data, and
  what node 1 takes from the ring is another message, whose key is damaged. This is so for every message
  that carries data and does not begin with a zero byte.\<close>

theorem warmup_damages_payload:
  assumes "run_id \<noteq> 0" "wf_msg m" "fits m" "msg_bytes m \<noteq> 0" "b_data (m_body m) ! 0 \<noteq> CHR 0x00"
  shows "\<exists>b b' out r. reach (boot_init run_id) (early_trans run_id) b \<and> ring_rep kBandleRingCapacity (sh_rings (bo_shared b) 2 1) [wire m] \<and>
    bo_pc b 1 = Bo_Warm 320864256 \<and> early_trans run_id b b' \<and> bo_pc b' 1 = Bo_Warm 320868352 \<and>
    pop kBandleRingCapacity default_message (sh_rings (bo_shared b') 2 1) = Some (out, r) \<and>
    wire out = first_byte_cleared (wire m) \<and> wire out \<noteq> wire m"
proof -
  obtain b0 where b0: "reach (boot_init run_id) (boot_trans run_id) b0" "bo_pc b0 1 = Bo_Warm 0" "bo_pc b0 2 = Bo_Ready"
    using others_ready_early [OF assms(1)] by blast
  have ids: "1 \<in> set node_ids" "2 \<in> set node_ids" "1 \<in> set (peers 2)" by (simp_all add: node_ids_def peers_def)
  have bytes: "warmup_bytes = 570425344" by (simp add: warmup_bytes_def kMaxBandleNodes_def kBandleRingCapacity_def kMaxValueBytes_def)
  from warm_up_to [OF b0(1) ids(1) b0(2), of 78336] obtain b1 where
    b1: "reach (boot_init run_id) (boot_trans run_id) b1" "bo_pc b1 = (bo_pc b0)(1 := Bo_Warm 320864256)" by (auto simp: bytes)
  have "boot_inv run_id b1" by (rule startup.inv_reach [OF b1(1)])
  then have clear: "meta_cleared (bo_shared b1)" "payloads_cleared (bo_shared b1)" by (simp_all add: boot_inv_def b1(2))
  let ?r1 = "sh_rings (bo_shared b1) 2 1"
  obtain r where r: "push ring_cap m ?r1 = (True, r)" "ring_rep ring_cap r [wire m]"
    using push_rep [OF kBandleRingCapacity_pow2 cleared_ring_rep [OF clear], of m 2 1] assms(2,3) by (auto simp: kBandleRingCapacity_def)
  have tail: "r_tail r = 0"
    using r(1) clear(1) push_room [of ring_cap ?r1 m] assms(3) by (auto simp: meta_cleared_def kBandleRingCapacity_def)
  define b where "b = b1\<lparr>bo_shared := (bo_shared b1)\<lparr>sh_rings := (sh_rings (bo_shared b1))(2 := (sh_rings (bo_shared b1) 2)(1 := r))\<rparr>\<rparr>"
  have "early_trans run_id b1 b" unfolding b_def
    using r(1) b1(2) b0(3) assms(2) by (intro early_trans.sends [OF ids(2,3)]) (simp_all add: send_to_peer_def)
  then have reach: "reach (boot_init run_id) (early_trans run_id) b" by (rule reach_step [OF boot_reach_early [OF b1(1)]])
  define sh where "sh = zero_byte 320864256 (bo_shared b)"
  define b' where "b' = b\<lparr>bo_shared := sh, bo_pc := (bo_pc b)(1 := Bo_Warm 320868352)\<rparr>"
  have pc: "bo_pc b 1 = Bo_Warm 320864256" by (simp add: b_def b1(2))
  have "boot_step run_id 1 (bo_pc b 1) (bo_shared b) = (Bo_Warm 320868352, sh)" unfolding pc by (simp add: bytes sh_def)
  then have step: "early_trans run_id b b'" unfolding b'_def by (intro early_trans.starting boot_trans.boot [OF ids(1)])
  have ring: "sh_rings (bo_shared b) 2 1 = r" by (simp add: b_def)
  have "sh_rings sh 2 1 = r\<lparr>r_payloads := (r_payloads r)(0 := (r_payloads r 0)[0 := CHR 0x00])\<rparr>"
    by (simp add: sh_def b_def zero_byte_def kMaxBandleNodes_def kBandleRingCapacity_def kMaxValueBytes_def Let_def)
  then have "ring_rep ring_cap (sh_rings (bo_shared b') 2 1) [first_byte_cleared (wire m)]"
    using zeroed_slot_rep [OF r(2), of 0] tail by (simp add: b'_def ring_slot_def)
  from pop_rep [OF this, of default_message] obtain out r' where
    out: "pop ring_cap default_message (sh_rings (bo_shared b') 2 1) = Some (out, r')" "wire out = first_byte_cleared (wire m)"
    by (auto simp: wf_msg_def default_message_def default_payload_def)
  have "first_byte_cleared (wire m) \<noteq> wire m" using first_byte_matters assms(2,4,5) by simp
  with reach r(2) ring pc step out show ?thesis by (intro exI [of _ b] exI [of _ b'] exI [of _ out] exI [of _ r']) (simp add: b'_def)
qed

theorem start_handshake_witness:
  "\<exists>b :: Boot. bo_pc b 2 = Bo_Ready \<and> sh_run_id (bo_shared b) = 42 \<and> ring_rep kBandleRingCapacity (sh_rings (bo_shared b) 1 2) []"
proof -
  obtain b where b: "reach (boot_init 42) (boot_trans 42) b" "bo_pc b 2 = Bo_Ready" using others_ready_early [of 42] by auto
  with start_handshake [OF b(1), of 2] show ?thesis by (auto simp: node_ids_def intro!: exI [of _ b])
qed

definition key_message :: BandleMessage where
  "key_message = default_message\<lparr>m_type := PROPOSAL,
     m_body := default_payload\<lparr>b_op := CHR ''D'', b_key_len := 3, b_data := ''key'' @ replicate 1085 CHR 0x00\<rparr>\<rparr>"

theorem warmup_damages_payload_witness:
  "\<exists>b b' out r. ring_rep kBandleRingCapacity (sh_rings (bo_shared b) 2 1) [wire key_message] \<and> early_trans 42 b b' \<and>
     pop kBandleRingCapacity default_message (sh_rings (bo_shared b') 2 1) = Some (out, r) \<and>
     b_data (m_body (wire key_message)) = ''key'' \<and> b_data (m_body (wire out)) = [CHR 0x00, CHR ''e'', CHR ''y'']"
proof -
  have m: "wf_msg key_message" "fits key_message" "msg_bytes key_message = 3" "b_data (m_body key_message) ! 0 \<noteq> CHR 0x00"
    by (simp_all add: key_message_def wf_msg_def fits_def msg_bytes_def payload_bytes_def kMaxValueBytes_def default_payload_def)
  then have data: "b_data (m_body (wire key_message)) = ''key''" by (simp add: wire_def) (simp add: key_message_def)
  from warmup_damages_payload [of 42 key_message] m obtain b b' out r where
    "ring_rep kBandleRingCapacity (sh_rings (bo_shared b) 2 1) [wire key_message]" "early_trans 42 b b'"
    "pop kBandleRingCapacity default_message (sh_rings (bo_shared b') 2 1) = Some (out, r)"
    "wire out = first_byte_cleared (wire key_message)" by auto
  with data show ?thesis by (intro exI [of _ b] exI [of _ b'] exI [of _ out] exI [of _ r]) (simp add: first_byte_cleared_def)
qed

section \<open>End\<close>

text \<open>
  The end of \<open>main\<close>: \<open>mark_input_done\<close>, \<open>wait_for_all_pending\<close>, the report, and the loop over
  \<open>node_finished\<close>, which starts over when it meets a node that has not reported. Other steps are those of
  the cluster. A driver that has left stops its node; the model ends there.
\<close>

datatype driver_pc = Dr_Replay | Dr_Wait | Dr_Barrier nat | Dr_Left

record Run =
  ru_cluster :: Cluster
  ru_finished :: "nat \<Rightarrow> u64"
  ru_pc :: "nat \<Rightarrow> driver_pc"

definition barrier_step :: "(nat \<Rightarrow> u64) \<Rightarrow> nat \<Rightarrow> driver_pc" where
  "barrier_step finished i =
     (if 3 < i then Dr_Left else if finished i = 0 then Dr_Barrier 1 else Dr_Barrier (Suc i))"

inductive run_step :: "(string \<Rightarrow> u64) \<Rightarrow> Run \<Rightarrow> Run \<Rightarrow> bool" for hash where
  threads: "cluster_step hash (ru_cluster r) c \<Longrightarrow> run_step hash r (r\<lparr>ru_cluster := c\<rparr>)"
| input_over: "\<lbrakk>p \<in> set node_ids; ru_pc r p = Dr_Replay; c_sub (ru_cluster r) p = Sub_Idle\<rbrakk>
    \<Longrightarrow> run_step hash r (r\<lparr>ru_pc := (ru_pc r)(p := Dr_Wait),
          ru_cluster := (ru_cluster r)\<lparr>c_node := (c_node (ru_cluster r))(p := mark_input_done (c_node (ru_cluster r) p))\<rparr>\<rparr>)"
| report: "\<lbrakk>p \<in> set node_ids; ru_pc r p = Dr_Wait; pending_wait_over (c_node (ru_cluster r) p)\<rbrakk>
    \<Longrightarrow> run_step hash r (r\<lparr>ru_pc := (ru_pc r)(p := Dr_Barrier 1), ru_finished := (ru_finished r)(p := 1)\<rparr>)"
| barrier: "\<lbrakk>p \<in> set node_ids; ru_pc r p = Dr_Barrier i\<rbrakk>
    \<Longrightarrow> run_step hash r (r\<lparr>ru_pc := (ru_pc r)(p := barrier_step (ru_finished r) i)\<rparr>)"

definition run_init :: "(string \<Rightarrow> u64) \<Rightarrow> (string \<rightharpoonup> string) \<Rightarrow> Run \<Rightarrow> bool" where
  "run_init hash K0 r \<longleftrightarrow> cluster_init hash K0 (ru_cluster r) \<and> (\<forall>p. ru_finished r p = 0) \<and> (\<forall>p. ru_pc r p = Dr_Replay)"

text \<open>The cluster of a run is a reachable cluster.\<close>

lemma run_cluster:
  assumes "reach (run_init hash K0) (run_step hash) r"
  shows "reachable hash K0 (ru_cluster r)"
  using assms
proof induction
  case (reach_init r)
  then show ?case by (auto simp: run_init_def intro: reach.reach_init)
next
  case (reach_step r r')
  from reach_step(2) show ?case
  proof cases
    case (input_over p)
    with reach_step(3) show ?thesis by (auto intro: reach.reach_step cluster_step.input_done)
  qed (use reach_step(3) in \<open>auto intro: reach.reach_step\<close>)
qed

section \<open>Executed requests stay executed\<close>

lemma step_done_mono:
  assumes "cluster_step hash c c'"
  shows "c_done c q p \<le> c_done c' q p"
  using assms by cases auto

lemma exec_next_mono:
  assumes step: "cluster_step hash c c'" and inv: "full_inv hash K0 c" "full_inv hash K0 c'" and p: "p \<in> set node_ids"
  shows "exec_next (c_node c p) \<le> exec_next (c_node c' p)"
proof (rule ccontr)
  let ?s = "exec_next (c_node c' p)"
  assume "\<not> ?thesis"
  moreover have "1 \<le> ?s" "\<not> handled (c_done c' p) ?s" using full_invD(3,6) [OF inv(2) p] by (simp_all add: replica_inv_def)
  ultimately have "handled (c_done c p) ?s" using full_invD(3) [OF inv(1) p] by (simp add: replica_inv_def)
  then have "handled (c_done c' p) ?s"
    using step_done_mono [OF step, of p "proposer_of ?s"] by (simp add: handled_def)
  with \<open>\<not> handled (c_done c' p) ?s\<close> show False ..
qed

lemma noop_step_input_done:
  assumes "noop_step hash p now fin np n rs = (pc, n', rs')" "n_input_done n"
  shows "n_input_done n'"
proof (cases np)
  case (Np_Deliver msg)
  let ?m = "fst (handle_proposal_locked hash msg False n)"
  have "fst (handle_proposal_locked hash msg True n) = fst (advance_execute_locked hash ?m)"
    by (simp add: handle_proposal_locked_def Let_def split: prod.split)
  moreover have "same_config n ?m" using handle_proposal_frame(1) [of n hash msg] by simp
  ultimately show ?thesis
    using assms Np_Deliver same_config_trans [OF _ advance_same_config, of n ?m hash] by (auto simp: same_config_def)
next
  case (Np_Send msg qs)
  then show ?thesis using assms by (cases qs) (auto split: if_splits prod.splits)
qed (use assms in \<open>auto simp: noop_reserve_def split: if_splits\<close>)

lemma input_done_step:
  assumes step: "cluster_step hash c c'" and inv: "full_inv hash K0 c" "short (c_hist c)" "pend_all c"
    and p: "p \<in> set node_ids" "n_input_done (c_node c p)"
  shows "n_input_done (c_node c' p) \<and> (\<exists>ws. c_hist c' p = c_hist c p @ ws \<and> (\<forall>w\<in>set ws. \<not> is_request w))"
proof -
  have idle: "c_sub c p = Sub_Idle" using full_invD(1) [OF inv(1) p(1)] p(2) by (simp add: node_ok_def)
  from step show ?thesis
  proof cases
    case (begin_submit x reqs scratch pc n)
    with p show ?thesis by (cases "x = p") auto
  next
    case (submit x pc n rs)
    with p idle show ?thesis by (cases "x = p") auto
  next
    case (input_done x)
    with p show ?thesis by (cases "x = p") (auto simp: mark_input_done_def)
  next
    case (noop x now fin pc n rs)
    have "\<not> is_request w" if "c_noop c p = Np_Reserve msg" "w = wire msg" for w msg
      using that inv(3) p(1) unfolding pend_all_def pend_at_def by (auto simp: is_request_def)
    moreover from this have "\<forall>w\<in>set (noop_issues (c_noop c p)). \<not> is_request w" by (cases "c_noop c p") auto
    ultimately show ?thesis using noop p noop_step_input_done [of hash p now fin] by (cases "x = p") auto
  next
    case (recv x q buf pc n r)
    have "same_config (c_node c q) n" using recv_step_at(3) [OF inv(1,2) recv(2-6)] .
    with recv p show ?thesis by (cases "q = p") (auto simp: same_config_def)
  qed
qed

text \<open>All client requests that a node has issued are executed there.\<close>

definition own_executed :: "Cluster \<Rightarrow> nat \<Rightarrow> bool" where
  "own_executed c p \<longleftrightarrow>
     (\<forall>i<length (c_hist c p). is_request (c_hist c p ! i) \<longrightarrow> seq_of p i < exec_next (c_node c p))"

lemma own_executed_step:
  assumes step: "cluster_step hash c c'" and reach: "reachable hash K0 c" and brief: "brief (c_hist c')"
    and p: "p \<in> set node_ids" "n_input_done (c_node c p)" "own_executed c p"
  shows "n_input_done (c_node c' p) \<and> own_executed c' p"
proof -
  obtain x ws0 where h: "c_hist c' = (c_hist c)(x := c_hist c x @ ws0)" using step_history [OF step] by blast
  then have b: "brief (c_hist c)" using brief brief_prefix by metis
  have reach': "reachable hash K0 c'" using reach step by (rule reach_step)
  note inv = reachable_inv [OF reach brief_short [OF b]] reachable_inv [OF reach' brief_short [OF brief]]
  from input_done_step [OF step inv(1) brief_short [OF b] reachable_pend_all [OF reach b] p(1,2)] obtain ws where
    ws: "n_input_done (c_node c' p)" "c_hist c' p = c_hist c p @ ws" "\<forall>w\<in>set ws. \<not> is_request w" by blast
  have "seq_of p i < exec_next (c_node c' p)" if i: "i < length (c_hist c' p)" "is_request (c_hist c' p ! i)" for i
  proof (cases "i < length (c_hist c p)")
    case True
    with i ws(2) p(3) have "seq_of p i < exec_next (c_node c p)" by (simp add: own_executed_def nth_append)
    also have "\<dots> \<le> exec_next (c_node c' p)" by (rule exec_next_mono [OF step inv p(1)])
    finally show ?thesis .
  next
    case False
    then have "c_hist c' p ! i \<in> set ws" using i(1) ws(2) by (simp add: nth_append)
    with ws(3) i(2) show ?thesis by blast
  qed
  with ws(1) show ?thesis by (simp add: own_executed_def)
qed

fun barrier_ok :: "(nat \<Rightarrow> u64) \<Rightarrow> driver_pc \<Rightarrow> bool" where
  "barrier_ok finished (Dr_Barrier i) \<longleftrightarrow> (\<forall>j\<in>set node_ids. j < i \<longrightarrow> finished j \<noteq> 0)"
| "barrier_ok finished Dr_Left \<longleftrightarrow> (\<forall>j\<in>set node_ids. finished j \<noteq> 0)"
| "barrier_ok finished _ \<longleftrightarrow> True"

definition run_inv :: "(string \<Rightarrow> u64) \<Rightarrow> (string \<rightharpoonup> string) \<Rightarrow> Run \<Rightarrow> bool" where
  "run_inv hash K0 r \<longleftrightarrow> reachable hash K0 (ru_cluster r) \<and>
     (\<forall>p\<in>set node_ids. barrier_ok (ru_finished r) (ru_pc r p)) \<and>
     (brief (c_hist (ru_cluster r)) \<longrightarrow> (\<forall>p\<in>set node_ids.
        (ru_pc r p \<noteq> Dr_Replay \<longrightarrow> n_input_done (c_node (ru_cluster r) p)) \<and>
        (ru_finished r p \<noteq> 0 \<longrightarrow> n_input_done (c_node (ru_cluster r) p) \<and> own_executed (ru_cluster r) p)))"

lemma barrier_ok_report: "barrier_ok finished pc \<Longrightarrow> barrier_ok (finished(p := 1)) pc"
  by (cases pc) auto

lemma barrier_ok_step: "barrier_ok finished (Dr_Barrier i) \<Longrightarrow> barrier_ok finished (barrier_step finished i)"
  by (auto simp: barrier_step_def node_ids_def less_Suc_eq)

lemma run_inv_threads:
  assumes inv: "run_inv hash K0 r" and step: "cluster_step hash (ru_cluster r) c"
  shows "run_inv hash K0 (r\<lparr>ru_cluster := c\<rparr>)"
proof -
  let ?c = "ru_cluster r"
  have reach: "reachable hash K0 ?c" using inv by (simp add: run_inv_def)
  have "(ru_pc r p \<noteq> Dr_Replay \<longrightarrow> n_input_done (c_node c p)) \<and> (ru_finished r p \<noteq> 0 \<longrightarrow> n_input_done (c_node c p) \<and> own_executed c p)"
    if b: "brief (c_hist c)" and p: "p \<in> set node_ids" for p
  proof -
    obtain x ws where "c_hist c = (c_hist ?c)(x := c_hist ?c x @ ws)" using step_history [OF step] by blast
    then have b0: "brief (c_hist ?c)" using b brief_prefix by metis
    then have old: "ru_pc r p \<noteq> Dr_Replay \<longrightarrow> n_input_done (c_node ?c p)"
      "ru_finished r p \<noteq> 0 \<longrightarrow> n_input_done (c_node ?c p) \<and> own_executed ?c p" using inv p by (simp_all add: run_inv_def)
    have "n_input_done (c_node c p)" if "n_input_done (c_node ?c p)"
      using input_done_step [OF step reachable_inv [OF reach brief_short [OF b0]] brief_short [OF b0] reachable_pend_all [OF reach b0] p that] by simp
    with old own_executed_step [OF step reach b p] show ?thesis by blast
  qed
  with inv reach_step [OF reach step] show ?thesis by (simp add: run_inv_def)
qed

lemma run_inv_step:
  assumes inv: "run_inv hash K0 r" and step: "run_step hash r r'"
  shows "run_inv hash K0 r'"
  using step
proof cases
  case (threads c)
  with inv run_inv_threads show ?thesis by simp
next
  case (input_over p)
  let ?c = "(ru_cluster r)\<lparr>c_node := (c_node (ru_cluster r))(p := mark_input_done (c_node (ru_cluster r) p))\<rparr>"
  have "cluster_step hash (ru_cluster r) ?c" using input_over(2,4) by (rule cluster_step.input_done)
  from run_inv_threads [OF inv this] show ?thesis unfolding input_over(1) by (auto simp: run_inv_def mark_input_done_def)
next
  case (report p)
  have reach: "reachable hash K0 (ru_cluster r)" using inv by (simp add: run_inv_def)
  have "own_executed (ru_cluster r) p" if "brief (c_hist (ru_cluster r))"
    using wait_iff_executed [OF reach that report(2)] report(4) by (simp add: own_executed_def)
  with inv report show ?thesis by (auto simp: run_inv_def node_ids_def barrier_ok_report)
next
  case (barrier p i)
  then have "barrier_ok (ru_finished r) (Dr_Barrier i)" using inv by (metis run_inv_def)
  then show ?thesis using inv barrier barrier_ok_step by (auto simp: run_inv_def)
qed

interpretation ending: step_invariant "run_init hash K0" "run_step hash" "run_inv hash K0" for hash K0
proof unfold_locales
  show "run_inv hash K0 r" if "run_init hash K0 r" for r
    using that by (auto simp: run_init_def run_inv_def intro: reach_init)
  show "run_inv hash K0 r'" if "run_inv hash K0 r" "run_step hash r r'" for r r'
    using that by (rule run_inv_step)
qed

lemma run_end_done:
  assumes "reach (run_init hash K0) (run_step hash) r" "brief (c_hist (ru_cluster r))"
    and "p \<in> set node_ids" "ru_pc r p = Dr_Left" "q \<in> set node_ids"
  shows "ru_finished r q \<noteq> 0" "n_input_done (c_node (ru_cluster r) q)" "own_executed (ru_cluster r) q"
proof -
  have inv: "run_inv hash K0 r" by (rule ending.inv_reach [OF assms(1)])
  have "barrier_ok (ru_finished r) Dr_Left" using inv assms(3,4) by (metis run_inv_def)
  then show fin: "ru_finished r q \<noteq> 0" using assms(5) by simp
  with inv assms(2,5) show "n_input_done (c_node (ru_cluster r) q)" "own_executed (ru_cluster r) q"
    by (simp_all add: run_inv_def)
qed

lemma run_end_facts:
  assumes "reach (run_init hash K0) (run_step hash) r" "brief (c_hist (ru_cluster r))"
    and "p \<in> set node_ids" "ru_pc r p = Dr_Left" "q \<in> set node_ids"
  defines "n \<equiv> c_node (ru_cluster r) q" and "h \<equiv> c_hist (ru_cluster r) q"
  shows "ru_finished r q \<noteq> 0 \<and> c_sub (ru_cluster r) q = Sub_Idle \<and>
    (\<forall>i<length h. is_request (h ! i) \<longrightarrow> seq_of q i < exec_next n) \<and>
    unat (n_ok_ops n) = length (filter is_request h) \<and> unat (n_read_ops n) = length (filter is_read_request h) \<and>
    n_pending_count n = 0"
proof -
  have reach: "reachable hash K0 (ru_cluster r)" by (rule run_cluster [OF assms(1)])
  note over = run_end_done [OF assms(1-5)]
  from over have fin: "ru_finished r q \<noteq> 0" and own: "n_input_done n" "own_executed (ru_cluster r) q" unfolding n_def by blast+
  have idle: "c_sub (ru_cluster r) q = Sub_Idle"
    using full_invD(1) [OF reachable_inv [OF reach brief_short [OF assms(2)]] assms(5)] own(1) by (simp add: node_ok_def n_def)
  have none: "{i. i < length h \<and> is_request (h ! i) \<and> exec_next n \<le> seq_of q i} = {}"
    using own(2) by (auto simp: own_executed_def n_def h_def)
  have all: "{i. i < length h \<and> is_request (h ! i) \<and> seq_of q i < exec_next n} = {i. i < length h \<and> is_request (h ! i)}"
    using own(2) by (auto simp: own_executed_def n_def h_def)
  have rd: "{i. i < length h \<and> is_read_request (h ! i) \<and> seq_of q i < exec_next n} = {i. i < length h \<and> is_read_request (h ! i)}"
    using own(2) by (auto simp: own_executed_def n_def h_def is_read_request_def)
  have "unat (n_pending_count n) = 0 \<and> unat (n_ok_ops n) = length (filter is_request h) \<and>
      unat (n_read_ops n) = length (filter is_read_request h)"
    using request_counts [OF reach assms(2,5)] none all rd unfolding n_def h_def by (simp add: length_filter_conv_card)
  with fin idle own(2) show ?thesis by (simp add: own_executed_def n_def h_def unat_eq_zero)
qed

text \<open>Property C19: end of a run. When any driver leaves the final loop and goes on to stop its node, every node has
  reported; each of them has no submission in progress, and has executed, and counted as completed, all
  client requests that it has ever issued, and counted the reads among them as reads. So the statistics that are then written cover every request.\<close>

theorem run_ends_complete:
  assumes "reach (run_init hash K0) (run_step hash) r" "brief (c_hist (ru_cluster r))"
    and "p \<in> set node_ids" "ru_pc r p = Dr_Left" "q \<in> set node_ids"
  defines "n \<equiv> c_node (ru_cluster r) q" and "h \<equiv> c_hist (ru_cluster r) q"
  shows "ru_finished r q \<noteq> 0 \<and> c_sub (ru_cluster r) q = Sub_Idle \<and>
    (\<forall>i<length h. is_request (h ! i) \<longrightarrow> seq_of q i < exec_next n) \<and>
    unat (n_ok_ops n) = length (filter is_request h) \<and> unat (n_read_ops n) = length (filter is_read_request h) \<and>
    n_pending_count n = 0"
  using run_end_facts [OF assms(1-5)] unfolding n_def h_def .

definition demo_start :: Run where
  "demo_start = \<lparr> ru_cluster = demo_cluster, ru_finished = (\<lambda>_. 0), ru_pc = (\<lambda>_. Dr_Replay) \<rparr>"

lemma run_over:
  "\<lbrakk>reach I (run_step hash) r; p \<in> set node_ids; ru_pc r p = Dr_Replay; c_sub (ru_cluster r) p = Sub_Idle\<rbrakk>
    \<Longrightarrow> reach I (run_step hash) (r\<lparr>ru_pc := (ru_pc r)(p := Dr_Wait),
          ru_cluster := (ru_cluster r)\<lparr>c_node := (c_node (ru_cluster r))(p := mark_input_done (c_node (ru_cluster r) p))\<rparr>\<rparr>)"
  by (rule reach_step, assumption, rule run_step.input_over)

lemma run_report:
  "\<lbrakk>reach I (run_step hash) r; p \<in> set node_ids; ru_pc r p = Dr_Wait; pending_wait_over (c_node (ru_cluster r) p)\<rbrakk>
    \<Longrightarrow> reach I (run_step hash) (r\<lparr>ru_pc := (ru_pc r)(p := Dr_Barrier 1), ru_finished := (ru_finished r)(p := 1)\<rparr>)"
  by (rule reach_step, assumption, rule run_step.report)

lemma run_barrier:
  "\<lbrakk>reach I (run_step hash) r; p \<in> set node_ids; ru_pc r p = Dr_Barrier i\<rbrakk>
    \<Longrightarrow> reach I (run_step hash) (r\<lparr>ru_pc := (ru_pc r)(p := barrier_step (ru_finished r) i)\<rparr>)"
  by (rule reach_step, assumption, rule run_step.barrier)

lemma demo_end:
  assumes p: "p \<in> set node_ids"
  shows "\<exists>r. reach (run_init hash Map.empty) (run_step hash) r \<and> ru_pc r p = Dr_Left \<and> c_hist (ru_cluster r) = (\<lambda>_. [])"
proof -
  let ?R = "reach (run_init hash Map.empty) (run_step hash)"
  let ?done = "\<lambda>p r. r\<lparr>ru_pc := (ru_pc r)(p := Dr_Wait),
      ru_cluster := (ru_cluster r)\<lparr>c_node := (c_node (ru_cluster r))(p := mark_input_done (c_node (ru_cluster r) p))\<rparr>\<rparr>"
  let ?rep = "\<lambda>p r. r\<lparr>ru_pc := (ru_pc r)(p := Dr_Barrier 1), ru_finished := (ru_finished r)(p := 1)\<rparr>"
  let ?bar = "\<lambda>i r. r\<lparr>ru_pc := (ru_pc r)(p := barrier_step (ru_finished r) i)\<rparr>"
  define r3 where "r3 = ?done 3 (?done 2 (?done 1 demo_start))"
  define r6 where "r6 = ?rep 3 (?rep 2 (?rep 1 r3))"
  have ids: "1 \<in> set node_ids" "2 \<in> set node_ids" "3 \<in> set node_ids" by (simp_all add: node_ids_def)
  have over: "pending_wait_over (mark_input_done (demo_node p))" if "p \<in> set node_ids" for p
    using initial_counters(2) [OF demo_node_initial [OF that]] by (simp add: pending_wait_over_def mark_input_done_def)
  have start: "?R demo_start" by (rule reach_init) (simp add: run_init_def demo_start_def demo_initial)
  have "?R r3" unfolding r3_def
    by (intro run_over start)
      (simp_all add: ids [simplified] demo_start_def demo_cluster_def)
  moreover have r3: "c_node (ru_cluster r3) p = mark_input_done (demo_node p)" "ru_pc r3 p = Dr_Wait" if "p \<in> set node_ids" for p
    using that by (auto simp: r3_def demo_start_def demo_cluster_def node_ids_def)
  ultimately have "?R r6" unfolding r6_def
    by (intro run_report)
      (simp_all add: ids [simplified] r3 over)
  moreover have f: "ru_finished r6 p = 1" if "p \<in> set node_ids" for p using that by (auto simp: r6_def node_ids_def)
  moreover have "ru_pc r6 p = Dr_Barrier 1" using p by (auto simp: r6_def node_ids_def)
  ultimately have "?R (?bar 4 (?bar 3 (?bar 2 (?bar 1 r6))))"
    by (intro run_barrier)
      (simp_all add: p ids [simplified] barrier_step_def f)
  moreover have "c_hist (ru_cluster r6) = (\<lambda>_. [])" by (simp add: r6_def r3_def demo_start_def demo_cluster_def)
  ultimately show ?thesis by (intro exI [of _ "?bar 4 (?bar 3 (?bar 2 (?bar 1 r6)))"]) (simp add: barrier_step_def)
qed

theorem run_ends_complete_witness:
  "\<exists>r. reach (run_init (\<lambda>_. 0) Map.empty) (run_step (\<lambda>_. 0)) r \<and> ru_pc r 1 = Dr_Left \<and> ru_finished r 3 \<noteq> 0"
proof -
  obtain r where r: "reach (run_init (\<lambda>_. 0) Map.empty) (run_step (\<lambda>_. 0)) r" "ru_pc r 1 = Dr_Left" "c_hist (ru_cluster r) = (\<lambda>_. [])"
    using demo_end [of 1] by (auto simp: node_ids_def)
  then have "brief (c_hist (ru_cluster r))" by (simp add: brief_def)
  from run_ends_complete [OF r(1) this _ r(2), of 3] r show ?thesis by (intro exI [of _ r]) (simp add: node_ids_def)
qed

end
