(* ===== verification/Pending_Wait.thy ===== *)
theory Pending_Wait
  imports Run_Protocol
begin

text \<open>
  Waiting on \<open>pending_cv_\<close> (\<open>src/bandle.cpp\<close>). A driver in \<open>wait_for_all_pending\<close> tests the condition under
  \<open>mu_\<close> and blocks while it does not hold; \<open>advance_execute_locked\<close> calls \<open>notify_all\<close>, under the same mutex,
  when it has brought the number of pending requests down to zero. The drivers of \<open>Run_Protocol\<close>, which
  pass the wait as soon as the condition holds, are refined to drivers that block and are woken.
\<close>

section \<open>When the handlers notify\<close>

text \<open>A section under \<open>mu_\<close> that never admits requests, with the flag that tells whether it notifies.\<close>

definition notifies_exactly :: "Bandle \<Rightarrow> Bandle \<times> bool \<Rightarrow> bool" where
  "notifies_exactly n r \<longleftrightarrow>
     (snd r \<longleftrightarrow> n_pending_count n \<noteq> 0 \<and> n_pending_count (fst r) = 0) \<and>
     (n_pending_count n = 0 \<longrightarrow> n_pending_count (fst r) = 0)"

lemma notifies_same: "n_pending_count n' = n_pending_count n \<Longrightarrow> notifies_exactly n (n', False)"
  by (simp add: notifies_exactly_def)

lemma notifies_start: "notifies_exactly n' r \<Longrightarrow> n_pending_count n' = n_pending_count n \<Longrightarrow> notifies_exactly n r"
  by (simp add: notifies_exactly_def)

lemma notifies_trans:
  "notifies_exactly n (n1, v) \<Longrightarrow> notifies_exactly n1 (n2, w) \<Longrightarrow> notifies_exactly n (n2, v \<or> w)"
  by (auto simp: notifies_exactly_def)

lemma complete_entry_notifies:
  "snd (complete_entry e n w) \<longleftrightarrow> w \<or> (n_pending_count n \<noteq> 0 \<and> n_pending_count (fst (complete_entry e n w)) = 0)"
  "n_pending_count n = 0 \<Longrightarrow> n_pending_count (fst (complete_entry e n w)) = 0"
  by (auto simp: complete_entry_def finish_defs word_neq_0_conv)

lemma exec_one_notifies:
  "snd (exec_one hash n w) \<longleftrightarrow> w \<or> (n_pending_count n \<noteq> 0 \<and> n_pending_count (fst (exec_one hash n w)) = 0)"
  "n_pending_count n = 0 \<Longrightarrow> n_pending_count (fst (exec_one hash n w)) = 0"
proof -
  let ?e = "n_log n (log_slot (n_execute_next n))"
  have "n_pending_count (fst (exec_one hash n w)) = n_pending_count (fst (complete_entry ?e n w))"
    by (simp add: fst_exec_one complete_entry_kv set_log_def map_prod_def split_beta)
  with complete_entry_notifies [where e = ?e and n = n and w = w]
  show "snd (exec_one hash n w) \<longleftrightarrow> w \<or> (n_pending_count n \<noteq> 0 \<and> n_pending_count (fst (exec_one hash n w)) = 0)"
    "n_pending_count n = 0 \<Longrightarrow> n_pending_count (fst (exec_one hash n w)) = 0" by (simp_all add: snd_exec_one)
qed

lemma exec_iter_notifies:
  "(snd (exec_iter hash k (n, w)) \<longleftrightarrow> w \<or> (n_pending_count n \<noteq> 0 \<and> n_pending_count (fst (exec_iter hash k (n, w))) = 0)) \<and>
   (n_pending_count n = 0 \<longrightarrow> n_pending_count (fst (exec_iter hash k (n, w))) = 0)"
proof (induction k arbitrary: n w)
  case (Suc k)
  obtain m v where m: "exec_one hash n w = (m, v)" by fastforce
  with exec_one_notifies [where hash = hash and n = n and w = w] Suc [of m v] show ?case by auto
qed simp

lemma advance_notifies: "notifies_exactly n (advance_execute_locked hash n)"
proof -
  obtain k where "advance_execute_locked hash n = exec_iter hash k (n, False)"
    using advance_loop_run [of hash n False] unfolding advance_execute_locked_def by blast
  with exec_iter_notifies [of hash k n False] show ?thesis by (simp add: notifies_exactly_def)
qed

lemma pending_count_set_log [simp]: "n_pending_count (set_log s e n) = n_pending_count n"
  by (simp add: set_log_def)

lemma handlers_notify:
  "notifies_exactly n (handle_proposal_locked hash m adv n)"
  "notifies_exactly n (decide_locked hash seq v n)"
  "notifies_exactly n (handle_p1_locked hash m n)"
  "notifies_exactly n (handle_decide_locked hash m n)"
proof -
  show p: "notifies_exactly n (handle_proposal_locked hash m adv n)"
    by (auto simp: handle_proposal_locked_def Let_def split: prod.split intro!: notifies_same notifies_start [OF advance_notifies])
  have d: "notifies_exactly n (decide_locked hash seq v n)" for seq v n
    by (auto simp: decide_locked_def Let_def intro!: notifies_same notifies_start [OF advance_notifies])
  then show "notifies_exactly n (decide_locked hash seq v n)" .
  show "notifies_exactly n (handle_p1_locked hash m n)"
    by (auto simp: handle_p1_locked_def Let_def intro!: notifies_same notifies_start [OF d])
  show "notifies_exactly n (handle_decide_locked hash m n)"
    by (auto simp: handle_decide_locked_def Let_def intro!: notifies_start [OF advance_notifies])
qed

lemma handle_chunk_loop_notifies:
  "notifies_exactly n0 (n, v) \<Longrightarrow> handle_chunk_loop hash ms need v n = (need', v', n') \<Longrightarrow> notifies_exactly n0 (n', v')"
proof (induction ms arbitrary: need v n)
  case (Cons m ms)
  have step: "notifies_exactly n0 (fst r, v \<or> snd r)" if "notifies_exactly n r" for r
    using notifies_trans [OF Cons.prems(1), of "fst r" "snd r"] that by simp
  show ?case
    using Cons.prems Cons.IH step [OF handlers_notify(1)] step [OF handlers_notify(3)] step [OF handlers_notify(4)]
    by (auto split: prod.splits BandleMsgType.splits) (metis fst_conv snd_conv)+
qed simp

lemma handle_chunk_notifies: "notifies_exactly n (handle_chunk hash ms n)"
proof -
  obtain need v n1 where l: "handle_chunk_loop hash ms False False n = (need, v, n1)" by (metis prod_cases3)
  have r: "notifies_exactly n (n1, v)" by (rule handle_chunk_loop_notifies [OF notifies_same l]) simp
  obtain n2 w where "advance_execute_locked hash n1 = (n2, w)" by fastforce
  with l r notifies_trans [OF r, of n2 w] advance_notifies [of n1 hash] show ?thesis by (simp add: handle_chunk_def)
qed

lemma deliver_loop_pending: "n_pending_count (deliver_loop hash ms n) = n_pending_count n"
  by (induction ms arbitrary: n) (simp_all add: handle_proposal_locked_def Let_def split: prod.split)

lemma deliver_chunk_notifies: "notifies_exactly n (deliver_chunk hash ms n)"
  unfolding deliver_chunk_def by (rule notifies_start [OF advance_notifies deliver_loop_pending])

section \<open>Drivers that block\<close>

text \<open>The flags of the sections under \<open>mu_\<close> that the steps of the threads run.\<close>

fun submit_notifies :: "(string \<Rightarrow> u64) \<Rightarrow> submit_pc \<Rightarrow> Bandle \<Rightarrow> bool" where
  "submit_notifies hash (Sub_Deliver msgs chs) n = snd (deliver_chunk hash msgs n)"
| "submit_notifies hash _ n = False"

fun noop_notifies :: "(string \<Rightarrow> u64) \<Rightarrow> noop_pc \<Rightarrow> Bandle \<Rightarrow> bool" where
  "noop_notifies hash (Np_Deliver msg) n = snd (handle_proposal_locked hash msg True n)"
| "noop_notifies hash _ n = False"

fun recv_notifies :: "(string \<Rightarrow> u64) \<Rightarrow> recv_pc \<Rightarrow> Bandle \<Rightarrow> bool" where
  "recv_notifies hash (Rv_Handle msgs) n =
     (if msgs = [] then False else snd (handle_chunk hash (take kHandleChunk msgs) n))"
| "recv_notifies hash _ n = False"

text \<open>
  A run with the set of blocked drivers. \<open>block\<close> is the test of the condition in \<open>pending_cv_.wait\<close>, which
  releases \<open>mu_\<close> and blocks in one step; a woken driver tests again. The other rules are those of
  \<open>run_step\<close>, with the steps of the threads taken apart to show their flags.
\<close>

record Waiting =
  wt_run :: Run
  wt_blocked :: "nat \<Rightarrow> bool"

definition notify_all :: "bool \<Rightarrow> nat \<Rightarrow> (nat \<Rightarrow> bool) \<Rightarrow> nat \<Rightarrow> bool" where
  "notify_all flag p blocked = (if flag then blocked(p := False) else blocked)"

abbreviation run_to :: "Run \<Rightarrow> Cluster \<Rightarrow> Run" where
  "run_to r c \<equiv> r\<lparr>ru_cluster := c\<rparr>"

inductive waiting_step :: "(string \<Rightarrow> u64) \<Rightarrow> Waiting \<Rightarrow> Waiting \<Rightarrow> bool" for hash where
  begin_submit:
    "\<lbrakk>c = ru_cluster (wt_run w); p \<in> set node_ids; ru_pc (wt_run w) p = Dr_Replay; c_sub c p = Sub_Idle;
      \<not> n_input_done (c_node c p); \<forall>req\<in>set reqs. req_ok req; \<forall>j. length (scratch j) = kMaxValueBytes;
      submit_begin scratch reqs (c_node c p) = (pc, n)\<rbrakk>
     \<Longrightarrow> waiting_step hash w
           (w\<lparr>wt_run := run_to (wt_run w) (c\<lparr>c_sub := (c_sub c)(p := pc), c_node := (c_node c)(p := n)\<rparr>)\<rparr>)"
| submit:
    "\<lbrakk>c = ru_cluster (wt_run w); p \<in> set node_ids;
      submit_step hash p (c_sub c p) (c_node c p) (c_ring c p) = (pc, n, rs)\<rbrakk>
     \<Longrightarrow> waiting_step hash w
           (w\<lparr>wt_run := run_to (wt_run w) (after_submit c p pc n rs),
              wt_blocked := notify_all (submit_notifies hash (c_sub c p) (c_node c p)) p (wt_blocked w)\<rparr>)"
| noop:
    "\<lbrakk>c = ru_cluster (wt_run w); p \<in> set node_ids;
      noop_step hash p now fin (c_noop c p) (c_node c p) (c_ring c p) = (pc, n, rs)\<rbrakk>
     \<Longrightarrow> waiting_step hash w
           (w\<lparr>wt_run := run_to (wt_run w) (after_noop c p pc n rs),
              wt_blocked := notify_all (noop_notifies hash (c_noop c p) (c_node c p)) p (wt_blocked w)\<rparr>)"
| recv:
    "\<lbrakk>c = ru_cluster (wt_run w); p \<in> set node_ids; q \<in> set node_ids; p \<noteq> q; buffer_ok (c_recv c q p) buf;
      recv_step hash buf (c_recv c q p) (c_node c q) (c_ring c p q) = (pc, n, r)\<rbrakk>
     \<Longrightarrow> waiting_step hash w
           (w\<lparr>wt_run := run_to (wt_run w)
                (c\<lparr>c_recv := (c_recv c)(q := (c_recv c q)(p := pc)), c_node := (c_node c)(q := n),
                   c_ring := (c_ring c)(p := (c_ring c p)(q := r)),
                   c_done := (c_done c)(q := (c_done c q)(p := c_done c q p + length (recv_handles (c_recv c q p))))\<rparr>),
              wt_blocked := notify_all (recv_notifies hash (c_recv c q p) (c_node c q)) q (wt_blocked w)\<rparr>)"
| input_over:
    "\<lbrakk>c = ru_cluster (wt_run w); p \<in> set node_ids; ru_pc (wt_run w) p = Dr_Replay; c_sub c p = Sub_Idle\<rbrakk>
     \<Longrightarrow> waiting_step hash w
           (w\<lparr>wt_run := (wt_run w)\<lparr>ru_pc := (ru_pc (wt_run w))(p := Dr_Wait),
                ru_cluster := c\<lparr>c_node := (c_node c)(p := mark_input_done (c_node c p))\<rparr>\<rparr>\<rparr>)"
| block:
    "\<lbrakk>p \<in> set node_ids; ru_pc (wt_run w) p = Dr_Wait; \<not> wt_blocked w p;
      \<not> pending_wait_over (c_node (ru_cluster (wt_run w)) p)\<rbrakk>
     \<Longrightarrow> waiting_step hash w (w\<lparr>wt_blocked := (wt_blocked w)(p := True)\<rparr>)"
| report:
    "\<lbrakk>p \<in> set node_ids; ru_pc (wt_run w) p = Dr_Wait; \<not> wt_blocked w p;
      pending_wait_over (c_node (ru_cluster (wt_run w)) p)\<rbrakk>
     \<Longrightarrow> waiting_step hash w
           (w\<lparr>wt_run := (wt_run w)\<lparr>ru_pc := (ru_pc (wt_run w))(p := Dr_Barrier 1),
                ru_finished := (ru_finished (wt_run w))(p := 1)\<rparr>\<rparr>)"
| barrier:
    "\<lbrakk>p \<in> set node_ids; ru_pc (wt_run w) p = Dr_Barrier i\<rbrakk>
     \<Longrightarrow> waiting_step hash w
           (w\<lparr>wt_run := (wt_run w)\<lparr>ru_pc := (ru_pc (wt_run w))(p := barrier_step (ru_finished (wt_run w)) i)\<rparr>\<rparr>)"

definition waiting_init :: "(string \<Rightarrow> u64) \<Rightarrow> (string \<rightharpoonup> string) \<Rightarrow> Waiting \<Rightarrow> bool" where
  "waiting_init hash K0 w \<longleftrightarrow> run_init hash K0 (wt_run w) \<and> (\<forall>p. \<not> wt_blocked w p)"

section \<open>Refinement\<close>

lemma waiting_refines:
  assumes "waiting_step hash w w'"
  shows "wt_run w' = wt_run w \<or> run_step hash (wt_run w) (wt_run w')"
  using assms
proof cases
  case (begin_submit c p reqs scratch pc n)
  then show ?thesis by (auto intro!: run_step.threads cluster_step.begin_submit)
next
  case (submit c p pc n rs)
  then show ?thesis by (auto intro!: run_step.threads cluster_step.submit)
next
  case (noop c p now fin pc n rs)
  then show ?thesis by (auto intro!: run_step.threads cluster_step.noop)
next
  case (recv c p q buf pc n r)
  then show ?thesis by (auto intro!: run_step.threads cluster_step.recv)
next
  case (input_over c p)
  then show ?thesis by (auto intro!: run_step.input_over)
next
  case (report p)
  with run_step.report [of p "wt_run w" hash] show ?thesis by simp
next
  case (barrier p i)
  then show ?thesis by (auto intro!: run_step.barrier)
qed simp

lemma waiting_run:
  assumes "reach (waiting_init hash K0) (waiting_step hash) w"
  shows "reach (run_init hash K0) (run_step hash) (wt_run w)"
  using assms
proof induction
  case (reach_init w)
  then show ?case by (auto simp: waiting_init_def intro: reach.reach_init)
next
  case (reach_step w w')
  from waiting_refines [OF reach_step(2)] reach_step(3) show ?case by (auto intro: reach.reach_step)
qed

section \<open>No wake-up is lost\<close>

lemma running_handlers:
  "n_running (fst (advance_execute_locked hash n)) = n_running n"
  "n_running (fst (handle_proposal_locked hash m adv n)) = n_running n"
  "n_running (fst (handle_p1_locked hash m n)) = n_running n"
  "n_running (fst (handle_decide_locked hash m n)) = n_running n"
proof -
  have a: "n_running (fst (advance_execute_locked hash n)) = n_running n" for n
    using advance_same_config [of n hash] by (simp add: same_config_def)
  have d: "n_running (fst (decide_locked hash seq v n)) = n_running n" for seq v n
    by (simp add: decide_locked_def Let_def a) (simp add: set_log_def)
  show "n_running (fst (advance_execute_locked hash n)) = n_running n" by (rule a)
  show "n_running (fst (handle_proposal_locked hash m adv n)) = n_running n"
    by (simp add: handle_proposal_locked_def Let_def a set_log_def split: prod.split)
  show "n_running (fst (handle_p1_locked hash m n)) = n_running n"
    by (simp add: handle_p1_locked_def Let_def d) (simp add: set_log_def)
  show "n_running (fst (handle_decide_locked hash m n)) = n_running n"
    by (simp add: handle_decide_locked_def Let_def a) (simp add: set_log_def)
qed

lemma running_chunk_loop: "handle_chunk_loop hash ms need v n = (need', v', n') \<Longrightarrow> n_running n' = n_running n"
proof (induction ms arbitrary: need v n)
  case (Cons m ms)
  show ?case
    using Cons.prems Cons.IH running_handlers(2) [of hash m False n] running_handlers(3,4) [of hash m n]
    by (auto split: prod.splits BandleMsgType.splits)
qed simp

lemma running_handle_chunk: "n_running (fst (handle_chunk hash ms n)) = n_running n"
proof -
  obtain need v n1 where l: "handle_chunk_loop hash ms False False n = (need, v, n1)" by (metis prod_cases3)
  with running_chunk_loop [OF l] running_handlers(1) [of hash n1] show ?thesis
    by (simp add: handle_chunk_def split_beta)
qed

text \<open>Wherever a thread of node \<open>p\<close> does not submit, a section that ends the wait notifies.\<close>

definition wait_kept :: "Bandle \<Rightarrow> Bandle \<Rightarrow> bool \<Rightarrow> bool" where
  "wait_kept n n' flag \<longleftrightarrow> (\<not> pending_wait_over n \<longrightarrow> \<not> flag \<longrightarrow> \<not> pending_wait_over n')"

lemma wait_kept_section:
  "notifies_exactly n r \<Longrightarrow> n_running (fst r) = n_running n \<Longrightarrow> wait_kept n (fst r) (snd r)"
  by (auto simp: wait_kept_def notifies_exactly_def pending_wait_over_def)

lemma wait_kept_same: "n_pending_count n' = n_pending_count n \<Longrightarrow> n_running n' = n_running n \<Longrightarrow> wait_kept n n' v"
  by (simp add: wait_kept_def pending_wait_over_def)

lemma noop_wait_kept:
  assumes "noop_step hash p now fin np n rs = (pc, n', rs')"
  shows "wait_kept n n' (noop_notifies hash np n)"
proof (cases np)
  case (Np_Deliver msg)
  with assms wait_kept_section [OF handlers_notify(1) running_handlers(2), of n hash msg True] show ?thesis by auto
next
  case (Np_Send msg qs)
  with assms show ?thesis by (cases qs) (auto intro: wait_kept_same split: if_splits prod.splits)
qed (use assms in \<open>auto intro!: wait_kept_same simp: noop_reserve_def split: if_splits\<close>)

lemma recv_wait_kept:
  assumes "recv_step hash buf rv n r = (pc, n', r')"
  shows "wait_kept n n' (recv_notifies hash rv n)"
proof (cases rv)
  case (Rv_Handle msgs)
  with assms wait_kept_section [OF handle_chunk_notifies running_handle_chunk, of n hash "take kHandleChunk msgs"]
  show ?thesis by (auto intro: wait_kept_same split: if_splits)
qed (use assms in \<open>auto intro!: wait_kept_same simp: Let_def split: if_splits prod.splits\<close>)

definition wait_inv :: "Waiting \<Rightarrow> bool" where
  "wait_inv w \<longleftrightarrow> (\<forall>p.
     (ru_pc (wt_run w) p \<noteq> Dr_Replay \<longrightarrow> c_sub (ru_cluster (wt_run w)) p = Sub_Idle) \<and>
     (wt_blocked w p \<longrightarrow> ru_pc (wt_run w) p = Dr_Wait \<and> \<not> pending_wait_over (c_node (ru_cluster (wt_run w)) p)))"

lemma wait_inv_node:
  assumes inv: "wait_inv w" and kept: "ru_pc (wt_run w) p = Dr_Wait \<longrightarrow> wait_kept (c_node (ru_cluster (wt_run w)) p) n flag"
    and c: "c_node c = (c_node (ru_cluster (wt_run w)))(p := n)"
    and sub: "\<forall>q. ru_pc (wt_run w) q \<noteq> Dr_Replay \<longrightarrow> c_sub c q = Sub_Idle"
  shows "wait_inv (w\<lparr>wt_run := run_to (wt_run w) c, wt_blocked := notify_all flag p (wt_blocked w)\<rparr>)"
  using assms by (auto simp: wait_inv_def notify_all_def wait_kept_def)

lemma barrier_not_replay: "barrier_step f i \<noteq> Dr_Replay"
  by (simp add: barrier_step_def)

lemma wait_inv_step:
  assumes inv: "wait_inv w" and step: "waiting_step hash w w'"
  shows "wait_inv w'"
  using step
proof cases
  case (begin_submit c p reqs scratch pc n)
  have "w' = w\<lparr>wt_run := run_to (wt_run w) (c\<lparr>c_sub := (c_sub c)(p := pc), c_node := (c_node c)(p := n)\<rparr>),
      wt_blocked := notify_all False p (wt_blocked w)\<rparr>" using begin_submit(1) by (simp add: notify_all_def)
  moreover have "wait_inv \<dots>" using inv begin_submit by (intro wait_inv_node) (auto simp: wait_inv_def)
  ultimately show ?thesis by simp
next
  case (submit c p pc n rs)
  have "ru_pc (wt_run w) p \<noteq> Dr_Replay \<longrightarrow> n = c_node c p \<and> pc = Sub_Idle" using submit inv by (auto simp: wait_inv_def)
  then show ?thesis unfolding submit(1)
    using inv submit(2) by (intro wait_inv_node) (auto simp: wait_inv_def intro: wait_kept_same)
next
  case (noop c p now fin pc n rs)
  with inv noop_wait_kept [OF noop(4)] show ?thesis unfolding noop(1) by (intro wait_inv_node) (auto simp: wait_inv_def)
next
  case (recv c p q buf pc n r)
  with inv recv_wait_kept [OF recv(7)] show ?thesis unfolding recv(1) by (intro wait_inv_node) (auto simp: wait_inv_def)
next
  case (input_over c p)
  with inv show ?thesis by (auto simp: wait_inv_def)
next
  case (block p)
  with inv show ?thesis by (auto simp: wait_inv_def)
next
  case (report p)
  with inv show ?thesis by (auto simp: wait_inv_def)
next
  case (barrier p i)
  with inv show ?thesis by (auto simp: wait_inv_def barrier_not_replay)
qed

interpretation blocking: step_invariant "waiting_init hash K0" "waiting_step hash" wait_inv for hash K0
proof unfold_locales
  show "wait_inv w" if "waiting_init hash K0 w" for w
    using that by (auto simp: waiting_init_def wait_inv_def run_init_def cluster_init_def)
  show "wait_inv w'" if "wait_inv w" "waiting_step hash w w'" for w w'
    using that by (rule wait_inv_step)
qed

text \<open>Property C18: no wake-up is lost. \<open>advance_execute_locked\<close> notifies exactly when it brings the pending count down
  to zero, and so a driver in \<open>wait_for_all_pending\<close> is never left blocked once the condition it waits for
  holds: it can go on and report at once. Up to the blocking, the drivers behave as those of the run, so
  that all properties of runs apply to them.\<close>

theorem no_lost_wakeup:
  assumes "reach (waiting_init hash K0) (waiting_step hash) w" "p \<in> set node_ids" "ru_pc (wt_run w) p = Dr_Wait"
  shows "reach (run_init hash K0) (run_step hash) (wt_run w) \<and>
    (pending_wait_over (c_node (ru_cluster (wt_run w)) p) \<longrightarrow>
       \<not> wt_blocked w p \<and> (\<exists>w'. waiting_step hash w w' \<and> ru_pc (wt_run w') p = Dr_Barrier 1)) \<and>
    (snd (advance_execute_locked hash n) \<longleftrightarrow>
       n_pending_count n \<noteq> 0 \<and> n_pending_count (fst (advance_execute_locked hash n)) = 0)"
proof -
  have "wait_inv w" by (rule blocking.inv_reach [OF assms(1)])
  then have free: "\<not> wt_blocked w p" if "pending_wait_over (c_node (ru_cluster (wt_run w)) p)"
    using that by (auto simp: wait_inv_def)
  moreover have "\<exists>w'. waiting_step hash w w' \<and> ru_pc (wt_run w') p = Dr_Barrier 1"
    if "pending_wait_over (c_node (ru_cluster (wt_run w)) p)"
    by (rule exI, rule conjI, rule waiting_step.report [OF assms(2,3) free [OF that] that]) simp
  ultimately show ?thesis
    using waiting_run [OF assms(1)] advance_notifies [of n hash] by (simp add: notifies_exactly_def)
qed

theorem no_lost_wakeup_witness:
  "\<exists>w. reach (waiting_init (\<lambda>_. 0) Map.empty) (waiting_step (\<lambda>_. 0)) w \<and> ru_pc (wt_run w) 1 = Dr_Wait \<and> \<not> wt_blocked w 1"
proof -
  let ?h = "\<lambda>_. 0 :: u64" and ?w = "\<lparr> wt_run = demo_start, wt_blocked = (\<lambda>_. False) \<rparr>"
  let ?c = "demo_cluster\<lparr>c_node := (c_node demo_cluster)(1 := mark_input_done (c_node demo_cluster 1))\<rparr>"
  let ?w' = "?w\<lparr>wt_run := demo_start\<lparr>ru_pc := (ru_pc demo_start)(1 := Dr_Wait), ru_cluster := ?c\<rparr>\<rparr>"
  have id: "1 \<in> set node_ids" by (simp add: node_ids_def)
  have "reach (waiting_init ?h Map.empty) (waiting_step ?h) ?w"
    by (rule reach_init) (simp add: waiting_init_def run_init_def demo_start_def demo_initial)
  moreover have "waiting_step ?h ?w ?w'"
    using waiting_step.input_over [OF refl id, of ?w ?h] by (simp add: demo_start_def demo_cluster_def)
  ultimately have r: "reach (waiting_init ?h Map.empty) (waiting_step ?h) ?w'" by (rule reach_step)
  have "pending_wait_over (c_node ?c 1)"
    using initial_counters(2) [OF demo_node_initial [OF id]]
    by (simp add: pending_wait_over_def mark_input_done_def demo_cluster_def)
  with no_lost_wakeup [OF r id] show ?thesis by (intro exI [of _ ?w'] conjI r) simp_all
qed

end
