(* ===== verification/Node_Shutdown.thy ===== *)
theory Node_Shutdown
  imports Receiver_Threads Pending_Wait
begin

text \<open>
  The end of a run: \<open>Bandle::stop\<close> (\<open>src/bandle.cpp\<close>) clears \<open>running_\<close> and joins the proposer and the receivers of the
  node. A join returns when the thread has left its loop, so the threads must do that by themselves, wherever
  they are when the flag is cleared and whatever the other nodes, which may still be running, do meanwhile. A
  receiver that serves all sources goes on draining a ring while it is not empty, without a look at the flag;
  what bounds it is the number of messages that are in its rings or can still be sent to it. Drivers stop their
  nodes after every node has reported the end of its work, so that nothing is submitted any more and no
  proposer starts another no-op; those that are on their way are still sent.
\<close>

section \<open>The closing phase\<close>





section \<open>Work left to a receiver\<close>









section \<open>One drain step\<close>




section \<open>Steps of a receiver\<close>








section \<open>Steps of a proposer\<close>









section \<open>Steps of the closing phase\<close>

















end
