(* ===== verification/Text_Formats.thy ===== *)
theory Text_Formats
  imports Prelude
begin

text \<open>
  The parts of the C++ library that the command line programs use on text: decimal output, \<open>std::stoull\<close>
  and \<open>std::stoi\<close>, \<open>std::getline\<close> on files and on string streams, and searches for a character. \<open>None\<close> of a
  conversion is the exception it throws.
\<close>

section \<open>Decimal numbers\<close>

definition digit_char :: "nat \<Rightarrow> char" where
  "digit_char d = char_of (48 + d)"

definition digit_value :: "char \<Rightarrow> nat" where
  "digit_value c = of_char c - 48"

definition is_digit :: "char \<Rightarrow> bool" where
  "is_digit c \<longleftrightarrow> 48 \<le> (of_char c :: nat) \<and> (of_char c :: nat) \<le> 57"

text \<open>\<open>operator<<\<close> on an unsigned number.\<close>

fun show_nat :: "nat \<Rightarrow> string" where
  "show_nat n = (if n < 10 then [digit_char n] else show_nat (n div 10) @ [digit_char (n mod 10)])"

declare show_nat.simps [simp del]

definition show_u64 :: "u64 \<Rightarrow> string" where
  "show_u64 x = show_nat (unat x)"

definition digits_value :: "string \<Rightarrow> nat" where
  "digits_value ds = foldl (\<lambda>v c. v * 10 + digit_value c) 0 ds"

definition is_space :: "char \<Rightarrow> bool" where
  "is_space c \<longleftrightarrow> (of_char c :: nat) \<in> {9, 10, 11, 12, 13, 32}"

text \<open>\<open>std::stoull\<close>: the value and the number of characters read.\<close>

definition stoull :: "string \<Rightarrow> (u64 \<times> nat) option" where
  "stoull s =
     (let r = dropWhile is_space s;
          neg = (r \<noteq> [] \<and> hd r = CHR ''-'');
          body = (if r \<noteq> [] \<and> (hd r = CHR ''-'' \<or> hd r = CHR ''+'') then tl r else r);
          ds = takeWhile is_digit body;
          v = digits_value ds
      in if ds = [] \<or> 2 ^ 64 \<le> v then None
         else Some (if neg then - of_nat v else of_nat v, length s - length (dropWhile is_digit body)))"

text \<open>\<open>std::stoi\<close>.\<close>

definition stoi :: "string \<Rightarrow> int option" where
  "stoi s =
     (let r = dropWhile is_space s;
          neg = (r \<noteq> [] \<and> hd r = CHR ''-'');
          body = (if r \<noteq> [] \<and> (hd r = CHR ''-'' \<or> hd r = CHR ''+'') then tl r else r);
          ds = takeWhile is_digit body;
          v = (if neg then - int (digits_value ds) else int (digits_value ds))
      in if ds = [] \<or> v < - (2 ^ 31) \<or> 2 ^ 31 \<le> v then None else Some v)"

section \<open>Lines and fields\<close>

text \<open>The position before the first \<open>c\<close>, what follows it, and whether it occurs.\<close>

definition before_char :: "char \<Rightarrow> string \<Rightarrow> string" where
  "before_char c s = takeWhile (\<lambda>x. x \<noteq> c) s"

definition after_char :: "char \<Rightarrow> string \<Rightarrow> string" where
  "after_char c s = tl (dropWhile (\<lambda>x. x \<noteq> c) s)"

text \<open>The lines that repeated \<open>std::getline(in, line)\<close> reads from a file.\<close>

function split_lines :: "string \<Rightarrow> string list" where
  "split_lines s =
     (if s = [] then []
      else if CHR 0x0A \<in> set s then before_char CHR 0x0A s # split_lines (after_char CHR 0x0A s)
      else [s])"
  by pat_completeness auto

lemma after_char_shorter: "c \<in> set s \<Longrightarrow> length (after_char c s) < length s"
proof -
  assume "c \<in> set s"
  then have "dropWhile (\<lambda>x. x \<noteq> c) s \<noteq> []" by simp
  then have "length (after_char c s) < length (dropWhile (\<lambda>x. x \<noteq> c) s)" by (simp add: after_char_def)
  also have "\<dots> \<le> length s" by (rule length_dropWhile_le)
  finally show ?thesis .
qed

termination split_lines
  by (relation "measure length") (auto intro: after_char_shorter)

declare split_lines.simps [simp del]

text \<open>
  \<open>std::getline(ss, tok, ',')\<close> on a string stream. A good stream is \<open>Some\<close> of the characters left; a stream
  that has failed or reached its end is \<open>None\<close>, and then the token keeps its old value.
\<close>

fun getline_tok :: "string option \<Rightarrow> string \<Rightarrow> bool \<times> string \<times> string option" where
  "getline_tok None tok = (False, tok, None)"
| "getline_tok (Some rest) tok =
     (if CHR '','' \<in> set rest then (True, before_char CHR '','' rest, Some (after_char CHR '','' rest))
      else if rest = [] then (False, [], None)
      else (True, rest, None))"

section \<open>Laws\<close>

lemma of_char_digit: "d < 10 \<Longrightarrow> (of_char (digit_char d) :: nat) = 48 + d"
  by (simp add: digit_char_def)

lemma digit_char_laws: "d < 10 \<Longrightarrow> is_digit (digit_char d)" "d < 10 \<Longrightarrow> digit_value (digit_char d) = d"
  by (simp_all add: is_digit_def digit_value_def of_char_digit)

lemma show_nat_digits: "c \<in> set (show_nat n) \<Longrightarrow> is_digit c"
  by (induction n rule: show_nat.induct)
    (subst (asm) show_nat.simps, auto simp: digit_char_laws split: if_splits)

lemma show_nat_not_Nil [simp]: "show_nat n \<noteq> []"
  by (subst show_nat.simps) simp

lemma digits_value_snoc: "digits_value (ds @ [c]) = digits_value ds * 10 + digit_value c"
  by (simp add: digits_value_def)

lemma digits_value_show [simp]: "digits_value (show_nat n) = n"
proof (induction n rule: show_nat.induct)
  case (1 n)
  show ?case
  proof (cases "n < 10")
    case True
    then show ?thesis by (subst show_nat.simps) (simp add: digits_value_def digit_char_laws)
  next
    case False
    with 1 show ?thesis by (subst show_nat.simps) (simp add: digits_value_snoc digit_char_laws)
  qed
qed

lemma takeWhile_show: "takeWhile is_digit (show_nat n) = show_nat n" "dropWhile is_digit (show_nat n) = []"
  using show_nat_digits by (auto simp: takeWhile_eq_all_conv dropWhile_eq_Nil_conv)

lemma digit_not_special:
  assumes "is_digit c"
  shows "\<not> is_space c" "c \<noteq> CHR ''-''" "c \<noteq> CHR ''+''" "c \<noteq> CHR '',''" "c \<noteq> CHR 0x0A"
  using assms by (auto simp: is_digit_def is_space_def)

lemma show_nat_hd: "is_digit (hd (show_nat n))"
  by (rule show_nat_digits [of _ n]) (simp add: hd_in_set)

lemma stoull_show: "n < 2 ^ 64 \<Longrightarrow> stoull (show_nat n) = Some (of_nat n, length (show_nat n))"
proof -
  assume n: "n < 2 ^ 64"
  have "dropWhile is_space (show_nat n) = show_nat n"
    using digit_not_special(1) [OF show_nat_hd [of n]] by (cases "show_nat n") auto
  with n show ?thesis
    using digit_not_special [OF show_nat_hd [of n]] by (simp add: stoull_def Let_def takeWhile_show)
qed

lemma stoull_show_u64: "stoull (show_u64 x) = Some (x, length (show_u64 x))"
  using stoull_show [of "unat x"] unat_u64_bound [of x] by (simp add: show_u64_def)

lemma stoi_show: "n < 2 ^ 31 \<Longrightarrow> stoi (show_nat n) = Some (int n)"
proof -
  assume n: "n < 2 ^ 31"
  have "dropWhile is_space (show_nat n) = show_nat n"
    using digit_not_special(1) [OF show_nat_hd [of n]] by (cases "show_nat n") auto
  with n show ?thesis
    using digit_not_special [OF show_nat_hd [of n]] by (simp add: stoi_def Let_def takeWhile_show)
qed

lemma before_char_append: "c \<notin> set a \<Longrightarrow> before_char c (a @ c # b) = a"
  by (induction a) (auto simp: before_char_def)

lemma after_char_append: "c \<notin> set a \<Longrightarrow> after_char c (a @ c # b) = b"
  by (induction a) (auto simp: after_char_def)

lemma split_lines_Cons: "CHR 0x0A \<notin> set a \<Longrightarrow> split_lines (a @ CHR 0x0A # b) = a # split_lines b"
  by (subst split_lines.simps) (simp add: before_char_append after_char_append)

lemma split_lines_Nil [simp]: "split_lines [] = []"
  by (subst split_lines.simps) simp

lemma split_lines_concat:
  "\<forall>l\<in>set ls. CHR 0x0A \<notin> set l \<Longrightarrow> split_lines (concat (map (\<lambda>l. l @ [CHR 0x0A]) ls)) = ls"
  by (induction ls) (auto simp: split_lines_Cons)

lemma getline_tok_field: "CHR '','' \<notin> set a \<Longrightarrow> getline_tok (Some (a @ CHR '','' # b)) tok = (True, a, Some b)"
  by (simp add: before_char_append after_char_append)

lemma getline_tok_last: "CHR '','' \<notin> set a \<Longrightarrow> a \<noteq> [] \<Longrightarrow> getline_tok (Some a) tok = (True, a, None)"
  by simp

end
