(* ===== verification/Node_Driver.thy ===== *)
theory Node_Driver
  imports Text_Formats Bandle_Requests
begin

text \<open>
  The node driver (\<open>src/main.cpp\<close>): the run token, the command line, the trace format, the preload, the
  replay loop that batches requests, and the statistics file. Mapping of the shared memory, waiting for
  files and the clock are outside; their results are arguments.
\<close>

section \<open>Run token and numbers\<close>

definition fnv_hash :: "string \<Rightarrow> u64" where
  "fnv_hash text = foldl (\<lambda>h c. (h XOR of_nat (of_char c)) * 1099511628211) 1469598103934665603 text"

definition parse_run_token :: "string \<Rightarrow> u64" where
  "parse_run_token text =
     (if text = [] then 0
      else case stoull text of
             Some (numeric, pos) \<Rightarrow>
               if pos = length text then numeric
               else (let h = fnv_hash text in if h = 0 then 1 else h)
           | None \<Rightarrow> (let h = fnv_hash text in if h = 0 then 1 else h))"

fun parse_u64_loop :: "u64 \<Rightarrow> string \<Rightarrow> u64 option" where
  "parse_u64_loop v [] = Some v"
| "parse_u64_loop v (c # cs) =
     (if \<not> is_digit c then None else parse_u64_loop (v * 10 + of_nat (digit_value c)) cs)"

definition parse_u64 :: "string \<Rightarrow> u64 option" where
  "parse_u64 s = (if s = [] then None else parse_u64_loop 0 s)"

section \<open>Trace lines\<close>

record ParsedLineView =
  v_ts_us :: u64
  v_op :: char
  v_key_ptr :: bytes
  v_key_len :: u32
  v_value_ptr :: "bytes option"
  v_value_len :: u32

text \<open>Line ends are cut from the back.\<close>

definition is_eol :: "char \<Rightarrow> bool" where
  "is_eol c \<longleftrightarrow> c = CHR 0x0A \<or> c = CHR 0x0D"

definition strip_eol :: "string \<Rightarrow> string" where
  "strip_eol s = rev (dropWhile is_eol (rev s))"

text \<open>A pointer into the line is the characters from there to the end of the line.\<close>

definition parse_line_view :: "string \<Rightarrow> ParsedLineView option" where
  "parse_line_view data =
     (if data = [] \<or> hd data = CHR ''#'' then None
      else let s = strip_eol data
           in if CHR '','' \<notin> set s then None
              else let rest = after_char CHR '','' s
                   in if length rest < 2 then None
                      else case parse_u64 (before_char CHR '','' s) of
                             None \<Rightarrow> None
                           | Some ts \<Rightarrow>
                               if rest ! 1 \<noteq> CHR '' '' then None
                               else let key = drop 2 rest;
                                        key_len = length (before_char CHR '':'' key);
                                        value = (if CHR '':'' \<in> set key then Some (after_char CHR '':'' key) else None)
                                    in if key_len = 0 then None
                                       else Some \<lparr> v_ts_us = ts, v_op = rest ! 0, v_key_ptr = key,
                                              v_key_len = of_nat key_len, v_value_ptr = value,
                                              v_value_len = (case value of None \<Rightarrow> 0 | Some v \<Rightarrow> of_nat (length v)) \<rparr>)"

definition request_of :: "ParsedLineView \<Rightarrow> BorrowedRequest" where
  "request_of v = \<lparr> q_op = v_op v, q_key_ptr = Some (v_key_ptr v), q_key_len = v_key_len v,
     q_value_ptr = v_value_ptr v, q_value_len = v_value_len v \<rparr>"

section \<open>Preload\<close>

definition preload_value :: "ParsedLineView \<Rightarrow> string" where
  "preload_value v = (case v_value_ptr v of
      Some d \<Rightarrow> if v_value_len v \<noteq> 0 then take (unat (v_value_len v)) d else ''''
    | None \<Rightarrow> '''')"

fun preload_loop :: "(string \<Rightarrow> u64) \<Rightarrow> u64 \<Rightarrow> u64 \<Rightarrow> string list \<Rightarrow> Bandle \<Rightarrow> u64 \<times> Bandle" where
  "preload_loop hash preload_count loaded [] n = (loaded, n)"
| "preload_loop hash preload_count loaded (line # lines) n =
     (if \<not> loaded < preload_count then (loaded, n)
      else case parse_line_view line of
             None \<Rightarrow> preload_loop hash preload_count loaded lines n
           | Some v \<Rightarrow>
               if is_write_op (v_op v)
               then preload_loop hash preload_count (loaded + 1) lines
                      (direct_apply hash (v_op v) (take (unat (v_key_len v)) (v_key_ptr v)) (preload_value v) n)
               else preload_loop hash preload_count loaded lines n)"

definition preload :: "(string \<Rightarrow> u64) \<Rightarrow> u64 \<Rightarrow> string \<Rightarrow> Bandle \<Rightarrow> Bandle" where
  "preload hash preload_count file n =
     (if 0 < preload_count then snd (preload_loop hash preload_count 0 (split_lines file) n) else n)"

section \<open>Replay\<close>

text \<open>
  The loop over the dataset: the batches handed to \<open>submit_borrowed_batch\<close>, in order. \<open>early i\<close> tells
  whether the \<open>i\<close>-th parsed line is ahead of its time stamp, which flushes the batch before the wait.
\<close>

fun replay_loop ::
  "(nat \<Rightarrow> bool) \<Rightarrow> u32 \<Rightarrow> nat \<Rightarrow> string list \<Rightarrow> BorrowedRequest list \<Rightarrow> BorrowedRequest list list" where
  "replay_loop early batch_size i [] batch = (if batch \<noteq> [] then [batch] else [])"
| "replay_loop early batch_size i (line # lines) batch =
     (case parse_line_view line of
        None \<Rightarrow> replay_loop early batch_size i lines batch
      | Some v \<Rightarrow>
          let flushed = (if early i \<and> batch \<noteq> [] then [batch] else []);
              batch1 = (if early i then [] else batch) @ [request_of v]
          in if unat batch_size \<le> length batch1
             then flushed @ [batch1] @ replay_loop early batch_size (Suc i) lines []
             else flushed @ replay_loop early batch_size (Suc i) lines batch1)"

definition replay :: "(nat \<Rightarrow> bool) \<Rightarrow> u32 \<Rightarrow> string \<Rightarrow> BorrowedRequest list list" where
  "replay early batch_size dataset = replay_loop early batch_size 0 (split_lines dataset) []"

section \<open>Statistics file\<close>

definition finish_stats :: "u64 \<Rightarrow> u64 \<Rightarrow> u64 \<Rightarrow> u64 \<Rightarrow> ReplayStats \<Rightarrow> ReplayStats" where
  "finish_stats real_start work_done real_end tsc s =
     s\<lparr>s_real_start_ns := real_start, s_work_done_ns := work_done, s_real_end_ns := real_end, s_tsc_hz := tsc\<rparr>"

definition meta_line :: "u64 \<Rightarrow> ReplayStats \<Rightarrow> string" where
  "meta_line node_id s =
     ''META,'' @ show_u64 node_id @ '','' @ show_u64 (s_real_start_ns s) @ '','' @ show_u64 (s_work_done_ns s) @ '',''
     @ show_u64 (s_real_end_ns s) @ '','' @ show_u64 (s_ok_ops s) @ '','' @ show_u64 (s_read_ops s) @ '',''
     @ show_u64 (s_write_ops s) @ '','' @ show_u64 (s_tsc_hz s)"

definition bucket_lines :: "string \<Rightarrow> LatencyHistogram \<Rightarrow> string list" where
  "bucket_lines tag h =
     concat (map (\<lambda>i. if h_counts h ! i \<noteq> 0
                      then [tag @ '','' @ show_nat i @ '','' @ show_u64 (h_counts h ! i)] else [])
              [0..<BUCKETS])"

definition write_stats_csv :: "u64 \<Rightarrow> ReplayStats \<Rightarrow> string" where
  "write_stats_csv node_id s =
     concat (map (\<lambda>l. l @ [CHR 0x0A])
       (meta_line node_id s # bucket_lines ''READ'' (s_read_latency s) @ bucket_lines ''WRITE'' (s_write_latency s)))"

section \<open>Command line\<close>

record Options =
  o_dataset :: string
  o_preload_file :: string
  o_start_signal :: string
  o_ready_file :: string
  o_stats_out :: string
  o_preload_count :: u64
  o_recordcount :: u64
  o_cluster_size :: u64
  o_run_id :: u64
  o_poll_idle_us :: int
  o_noop_us :: u64
  o_batch_size :: u32
  o_pipeline_workers :: u64
  o_admission_window :: u64
  o_admission_batch :: u32

definition default_options :: Options where
  "default_options = \<lparr> o_dataset = '''', o_preload_file = '''', o_start_signal = '''', o_ready_file = '''',
     o_stats_out = '''', o_preload_count = 0, o_recordcount = 0, o_cluster_size = 3, o_run_id = 0,
     o_poll_idle_us = 0, o_noop_us = 100, o_batch_size = 64, o_pipeline_workers = 1, o_admission_window = 192,
     o_admission_batch = 32 \<rparr>"

text \<open>One option with its value; \<open>None\<close> when the name is not an option, \<open>Some None\<close> when the value throws.\<close>

definition with_u64 :: "string \<Rightarrow> (u64 \<Rightarrow> Options) \<Rightarrow> Options option" where
  "with_u64 val f = map_option (\<lambda>(x, pos). f x) (stoull val)"

definition apply_option :: "string \<Rightarrow> string \<Rightarrow> Options \<Rightarrow> Options option option" where
  "apply_option arg val opts =
     (if arg = ''--dataset'' then Some (Some (opts\<lparr>o_dataset := val\<rparr>))
      else if arg = ''--preload-file'' then Some (Some (opts\<lparr>o_preload_file := val\<rparr>))
      else if arg = ''--preload-count'' then Some (with_u64 val (\<lambda>x. opts\<lparr>o_preload_count := x\<rparr>))
      else if arg = ''--recordcount'' then Some (with_u64 val (\<lambda>x. opts\<lparr>o_recordcount := x\<rparr>))
      else if arg = ''--cluster-size'' then Some (with_u64 val (\<lambda>x. opts\<lparr>o_cluster_size := x\<rparr>))
      else if arg = ''--run-id'' then Some (Some (opts\<lparr>o_run_id := parse_run_token val\<rparr>))
      else if arg = ''--start-signal'' then Some (Some (opts\<lparr>o_start_signal := val\<rparr>))
      else if arg = ''--ready-file'' then Some (Some (opts\<lparr>o_ready_file := val\<rparr>))
      else if arg = ''--poll-idle-us'' then Some (map_option (\<lambda>x. opts\<lparr>o_poll_idle_us := x\<rparr>) (stoi val))
      else if arg = ''--noop-us'' then Some (with_u64 val (\<lambda>x. opts\<lparr>o_noop_us := x\<rparr>))
      else if arg = ''--batch-size'' then Some (with_u64 val (\<lambda>x. opts\<lparr>o_batch_size := ucast x\<rparr>))
      else if arg = ''--pipeline-workers'' then Some (with_u64 val (\<lambda>x. opts\<lparr>o_pipeline_workers := x\<rparr>))
      else if arg = ''--admission-window'' then Some (with_u64 val (\<lambda>x. opts\<lparr>o_admission_window := x\<rparr>))
      else if arg = ''--admission-batch'' then Some (with_u64 val (\<lambda>x. opts\<lparr>o_admission_batch := ucast x\<rparr>))
      else if arg = ''--stats-out'' then Some (Some (opts\<lparr>o_stats_out := val\<rparr>))
      else None)"

fun parse_options :: "string list \<Rightarrow> Options \<Rightarrow> Options option" where
  "parse_options [] opts = Some opts"
| "parse_options [arg] opts = Some opts"
| "parse_options (arg # val # args) opts =
     (case apply_option arg val opts of
        None \<Rightarrow> parse_options (val # args) opts
      | Some None \<Rightarrow> None
      | Some (Some opts1) \<Rightarrow> parse_options args opts1)"

datatype driver_error = Usage | Uncaught_Exception | Dataset_Required

text \<open>The arguments after the program name: device path, node id, port, options.\<close>

fun driver_config :: "string list \<Rightarrow> driver_error + (string \<times> u64 \<times> Options)" where
  "driver_config (dax # node # port # args) =
     (case (stoull node, stoull port) of
        (Some (node_id, _), Some _) \<Rightarrow>
          (case parse_options args default_options of
             None \<Rightarrow> Inl Uncaught_Exception
           | Some opts \<Rightarrow> if o_dataset opts = [] then Inl Dataset_Required else Inr (dax, node_id, opts))
      | _ \<Rightarrow> Inl Uncaught_Exception)"
| "driver_config args = Inl Usage"

text \<open>The node that the driver constructs; \<open>None\<close> is the abort of the constructor.\<close>

definition driver_node :: "u64 \<Rightarrow> Options \<Rightarrow> (nat \<Rightarrow> u64) \<Rightarrow> Bandle option" where
  "driver_node node_id opts tsc =
     bandle_new node_id (o_cluster_size opts) (o_poll_idle_us opts) (o_noop_us opts) (o_batch_size opts)
       (unat (o_pipeline_workers opts)) (o_admission_window opts) (o_admission_batch opts) tsc"

section \<open>Properties of the parsers\<close>

lemma parse_u64_loop_spec:
  "parse_u64_loop v s =
     (if list_all is_digit s then Some (of_nat (foldl (\<lambda>v c. v * 10 + digit_value c) (unat v) s)) else None)"
proof (induction s arbitrary: v)
  case (Cons c s)
  have fold_mod: "(of_nat (foldl (\<lambda>v c. v * 10 + digit_value c) a s) :: u64)
      = of_nat (foldl (\<lambda>v c. v * 10 + digit_value c) b s)" if "(of_nat a :: u64) = of_nat b" for a b
    using that by (induction s arbitrary: a b) simp_all
  have "(of_nat (unat (v * 10 + of_nat (digit_value c))) :: u64) = of_nat (unat v * 10 + digit_value c)" by simp
  from fold_mod [OF this] show ?case by (simp add: Cons.IH)
qed simp

lemma parse_u64_spec:
  "parse_u64 s = (if s \<noteq> [] \<and> list_all is_digit s then Some (of_nat (digits_value s)) else None)"
  by (simp add: parse_u64_def parse_u64_loop_spec digits_value_def)

lemma parse_u64_show: "parse_u64 (show_u64 x) = Some x"
  using show_nat_digits by (simp add: parse_u64_spec show_u64_def list_all_iff)

text \<open>run tokens. A decimal token is its number; any other non-empty token is hashed to a
  non-zero number, so that the run handshake is never switched off by accident.\<close>

theorem run_token_nonzero:
  "parse_run_token (show_u64 x) = x \<and>
   (text \<noteq> [] \<and> (\<forall>v. stoull text \<noteq> Some (v, length text)) \<longrightarrow> parse_run_token text \<noteq> 0)"
proof
  show "parse_run_token (show_u64 x) = x"
    by (simp add: parse_run_token_def stoull_show_u64) (simp add: show_u64_def)
  show "text \<noteq> [] \<and> (\<forall>v. stoull text \<noteq> Some (v, length text)) \<longrightarrow> parse_run_token text \<noteq> 0"
    by (auto simp: parse_run_token_def Let_def split: option.split)
qed

theorem run_token_nonzero_witness: "parse_run_token ''run'' \<noteq> 0"
proof -
  have "stoull ''run'' = None" by (simp add: stoull_def is_space_def is_digit_def)
  with run_token_nonzero [of 0 "''run''"] show ?thesis by simp
qed

section \<open>Trace lines parse back\<close>

text \<open>A trace line as the generators print it: \<open>ts,OP key\<close>, or \<open>ts,OP key:value\<close>.\<close>

definition show_line :: "u64 \<Rightarrow> char \<Rightarrow> string \<Rightarrow> string option \<Rightarrow> string" where
  "show_line ts c key val =
     show_u64 ts @ '','' @ [c] @ '' '' @ key @ (case val of None \<Rightarrow> '''' | Some v \<Rightarrow> '':'' @ v)"

lemma strip_eol_append:
  "list_all is_eol e \<Longrightarrow> s \<noteq> [] \<Longrightarrow> \<not> is_eol (last s) \<Longrightarrow> strip_eol (s @ e) = s"
proof -
  assume a: "list_all is_eol e" "s \<noteq> []" "\<not> is_eol (last s)"
  have "dropWhile is_eol (rev e @ rev s) = rev s"
    using a by (cases s rule: rev_cases) (auto simp: dropWhile_append list_all_iff)
  then show ?thesis by (simp add: strip_eol_def)
qed

lemma digits_no_char: "\<not> is_digit c \<Longrightarrow> c \<notin> set (show_u64 x)"
  using show_nat_digits by (auto simp: show_u64_def)

lemma before_char_whole: "c \<notin> set s \<Longrightarrow> before_char c s = s"
  by (auto simp: before_char_def takeWhile_eq_all_conv)

text \<open>trace lines round-trip. A line printed as \<open>ts,OP key\<close> or \<open>ts,OP key:value\<close>, with any
  carriage returns and line feeds behind it, parses to the same time stamp, operation, key and value, for
  every 64-bit time stamp, every key without a colon and every value, commas and colons in it included.\<close>

theorem trace_line_roundtrip:
  assumes key: "key \<noteq> []" "CHR '':'' \<notin> set key" "length key < 2 ^ 32"
    and val: "case val of None \<Rightarrow> \<not> is_eol (last key) | Some v \<Rightarrow> (v \<noteq> [] \<longrightarrow> \<not> is_eol (last v)) \<and> length v < 2 ^ 32"
    and eol: "list_all is_eol e"
  shows "\<exists>w. parse_line_view (show_line ts c key val @ e) = Some w \<and> v_ts_us w = ts \<and> v_op w = c \<and>
    take (unat (v_key_len w)) (v_key_ptr w) = key \<and> v_value_ptr w = val \<and>
    (case val of None \<Rightarrow> v_value_len w = 0 | Some v \<Rightarrow> unat (v_value_len w) = length v)"
proof -
  define K where "K = key @ (case val of None \<Rightarrow> '''' | Some v \<Rightarrow> '':'' @ v)"
  let ?s = "show_line ts c key val"
  have s: "?s = show_u64 ts @ CHR '','' # c # CHR '' '' # K" by (simp add: show_line_def K_def)
  have nodig: "\<not> is_digit CHR '',''" "\<not> is_digit CHR ''#''" by (simp_all add: is_digit_def)
  have ne: "show_u64 ts \<noteq> []" by (simp add: show_u64_def)
  then have hd: "?s @ e \<noteq> []" "hd (?s @ e) \<noteq> CHR ''#''"
    using digits_no_char [OF nodig(2), of ts] hd_in_set [OF ne] by (auto simp: s simp del: hd_in_set)
  have "K \<noteq> []" "\<not> is_eol (last K)" using key(1) val by (auto simp: K_def is_eol_def split: option.splits if_splits)
  then have strip: "strip_eol (?s @ e) = ?s" using eol by (intro strip_eol_append) (simp_all add: s)
  have ba: "before_char CHR '','' ?s = show_u64 ts" "after_char CHR '','' ?s = c # CHR '' '' # K"
    using digits_no_char [OF nodig(1), of ts] by (simp_all add: s before_char_append after_char_append)
  have kl: "before_char CHR '':'' K = key"
    using key(2) by (cases val) (simp_all add: K_def before_char_whole before_char_append)
  have vl: "(if CHR '':'' \<in> set K then Some (after_char CHR '':'' K) else None) = val"
    using key(2) by (cases val) (simp_all add: K_def after_char_append)
  have "parse_line_view (?s @ e) = Some \<lparr> v_ts_us = ts, v_op = c, v_key_ptr = K,
      v_key_len = of_nat (length key), v_value_ptr = val,
      v_value_len = (case val of None \<Rightarrow> 0 | Some v \<Rightarrow> of_nat (length v)) \<rparr>"
    unfolding parse_line_view_def Let_def strip ba
    using hd key(1) vl by (auto simp: parse_u64_show kl s)
  moreover have "unat (of_nat (length key) :: u32) = length key" using key(3) by (simp add: unat_of_nat)
  ultimately show ?thesis using val by (auto simp: K_def unat_of_nat split: option.splits)
qed

theorem trace_line_roundtrip_witness:
  "\<exists>w. parse_line_view (show_line 17 CHR ''P'' ''user1'' (Some ''a:b,c'') @ [CHR 0x0D]) = Some w \<and> v_ts_us w = 17 \<and>
     take (unat (v_key_len w)) (v_key_ptr w) = ''user1'' \<and> v_value_ptr w = Some ''a:b,c''"
  using trace_line_roundtrip [of "''user1''" "Some ''a:b,c''" "[CHR 0x0D]" 17 "CHR ''P''"]
  by (auto simp: is_eol_def)

section \<open>Replay\<close>

text \<open>The requests of a dataset: its lines that parse, in order.\<close>

definition requests_of :: "string \<Rightarrow> BorrowedRequest list" where
  "requests_of dataset = map request_of (List.map_filter parse_line_view (split_lines dataset))"

lemma unat_of_nat_le: "unat (of_nat k :: 'a::len word) \<le> k"
  by (simp add: unat_of_nat)

lemma length_before_char_le: "length (before_char c s) \<le> length s"
  by (simp add: before_char_def length_takeWhile_le)

lemma parsed_request_ok:
  assumes "parse_line_view line = Some v"
  shows "req_ok (request_of v)"
proof -
  have "unat (of_nat (length (before_char CHR '':'' key)) :: u32) \<le> length key" for key
    using unat_of_nat_le length_before_char_le le_trans by blast
  with assms unat_of_nat_le show ?thesis
    by (auto simp: parse_line_view_def req_ok_def request_of_def Let_def simp del: length_drop
        split: if_splits option.splits)
qed

lemma replay_loop_concat:
  "concat (replay_loop early bs i lines batch) = batch @ map request_of (List.map_filter parse_line_view lines)"
  by (induction early bs i lines batch rule: replay_loop.induct)
    (auto simp: map_filter_simps Let_def split: option.splits)

lemma replay_loop_sizes:
  assumes "length batch < max 1 (unat bs)" "b \<in> set (replay_loop early bs i lines batch)"
  shows "b \<noteq> [] \<and> length b \<le> max 1 (unat bs)"
  using assms
proof (induction lines arbitrary: i batch)
  case (Cons line lines)
  show ?case
  proof (cases "parse_line_view line")
    case None
    with Cons show ?thesis by simp
  next
    case (Some v)
    let ?b1 = "(if early i then [] else batch) @ [request_of v]"
    have len: "length ?b1 \<le> max 1 (unat bs)" using Cons.prems(1) by auto
    have "b = batch \<and> batch \<noteq> [] \<or> b = ?b1 \<or> b \<in> set (replay_loop early bs (Suc i) lines []) \<or>
        (length ?b1 < unat bs \<and> b \<in> set (replay_loop early bs (Suc i) lines ?b1))"
      using Cons.prems(2) Some by (auto simp: Let_def split: if_splits)
    then show ?thesis using Cons.prems(1) len Cons.IH [of "[]" "Suc i"] Cons.IH [of ?b1 "Suc i"] by auto
  qed
qed (auto split: if_splits)

lemma replay_concat: "concat (replay early bs dataset) = requests_of dataset"
  by (simp add: replay_def requests_of_def replay_loop_concat)

text \<open>Property C34: replay submits the dataset. Whatever the clock says, the batches that the replay loop
  hands to \<open>submit_borrowed_batch\<close> are, one after the other, exactly the requests of the dataset in order;
  none is empty or larger than the batch size, and the buffers they lend cover the lengths they give.\<close>

theorem replay_submits_dataset:
  "concat (replay early bs dataset) = requests_of dataset \<and>
   (\<forall>b\<in>set (replay early bs dataset). b \<noteq> [] \<and> length b \<le> max 1 (unat bs) \<and> (\<forall>req\<in>set b. req_ok req))"
proof -
  note parts = replay_concat [of early bs dataset]
  have "req_ok req" if "req \<in> set (requests_of dataset)" for req
    using that parsed_request_ok by (auto simp: requests_of_def map_filter_def)
  then have "req_ok req" if "b \<in> set (replay early bs dataset)" "req \<in> set b" for req b
    using that parts by (metis concat.simps in_set_conv_decomp set_concat UN_I)
  moreover have "b \<noteq> [] \<and> length b \<le> max 1 (unat bs)" if "b \<in> set (replay early bs dataset)" for b
    using replay_loop_sizes [of "[]" bs b early 0] that by (simp add: replay_def)
  ultimately show ?thesis using parts by blast
qed

theorem replay_submits_dataset_witness:
  "concat (replay (\<lambda>i. i = 1) 64 ''1,G a'') = requests_of ''1,G a'' \<and> requests_of ''1,G a'' \<noteq> []"
proof
  show "concat (replay (\<lambda>i. i = 1) 64 ''1,G a'') = requests_of ''1,G a''"
    using replay_submits_dataset [of "\<lambda>i. i = 1" 64 "''1,G a''"] by blast
  have "split_lines ''1,G a'' = [''1,G a'']" by (subst split_lines.simps) simp
  moreover have "parse_line_view ''1,G a'' \<noteq> None"
    by (simp add: parse_line_view_def strip_eol_def is_eol_def after_char_def before_char_def parse_u64_def is_digit_def)
  ultimately show "requests_of ''1,G a'' \<noteq> []" by (auto simp: requests_of_def map_filter_simps)
qed

section \<open>Preload\<close>

text \<open>The store operations of the lines that write.\<close>

definition line_write :: "string \<Rightarrow> (char \<times> string \<times> string) option" where
  "line_write line = (case parse_line_view line of
      Some v \<Rightarrow> if is_write_op (v_op v)
                then Some (v_op v, take (unat (v_key_len v)) (v_key_ptr v), preload_value v) else None
    | None \<Rightarrow> None)"

definition preload_spec :: "nat \<Rightarrow> string \<Rightarrow> string \<rightharpoonup> string" where
  "preload_spec count file =
     fold (\<lambda>(c, k, v). spec_apply c k v) (take count (List.map_filter line_write (split_lines file))) Map.empty"

lemma direct_apply_refines:
  assumes "kv_wf hash (n_kv n)"
  shows "kv_wf hash (n_kv (direct_apply hash c key val n))"
    and "kv_lookup hash (n_kv (direct_apply hash c key val n)) = spec_apply c key val (kv_lookup hash (n_kv n))"
    and "n\<lparr>n_kv := n_kv (direct_apply hash c key val n)\<rparr> = direct_apply hash c key val n"
proof -
  obtain b kv1 where u: "kv_update hash key val (n_kv n) = (b, kv1)" by fastforce
  obtain b2 kv2 where e: "kv_erase hash key (n_kv n) = (b2, kv2)" by fastforce
  show "kv_wf hash (n_kv (direct_apply hash c key val n))"
    using assms u e kv_put_refines(1) kv_update_refines(1) [OF assms u] kv_erase_refines(1) [OF assms e]
    by (simp add: direct_apply_def)
  show "kv_lookup hash (n_kv (direct_apply hash c key val n)) = spec_apply c key val (kv_lookup hash (n_kv n))"
    using u e kv_put_refines(2) [OF assms] kv_update_refines(3) [OF assms u] kv_erase_refines(3) [OF assms e]
    by (auto simp: direct_apply_def spec_apply_def)
  show "n\<lparr>n_kv := n_kv (direct_apply hash c key val n)\<rparr> = direct_apply hash c key val n"
    by (cases n) (simp add: direct_apply_def)
qed

lemma preload_loop_refines:
  assumes "kv_wf hash (n_kv n)" "loaded \<le> count"
  shows "\<exists>kv. snd (preload_loop hash count loaded lines n) = n\<lparr>n_kv := kv\<rparr> \<and> kv_wf hash kv \<and>
    kv_lookup hash kv = fold (\<lambda>(c, k, v). spec_apply c k v)
      (take (unat count - unat loaded) (List.map_filter line_write lines)) (kv_lookup hash (n_kv n))"
  using assms
proof (induction lines arbitrary: loaded n)
  case Nil
  then show ?case by (intro exI [of _ "n_kv n"]) (simp add: map_filter_simps)
next
  case (Cons line lines)
  show ?case
  proof (cases "loaded < count")
    case False
    with Cons.prems have "unat count - unat loaded = 0" by simp
    with False Cons.prems show ?thesis by (intro exI [of _ "n_kv n"]) simp
  next
    case True
    then have next': "loaded + 1 \<le> count" "unat count - unat loaded = Suc (unat count - unat (loaded + 1))"
      using unat_u64_bound [of count] by (simp_all add: word_le_nat_alt word_less_nat_alt unat_word_ariths)
    show ?thesis
    proof (cases "line_write line")
      case None
      then have "preload_loop hash count loaded (line # lines) n = preload_loop hash count loaded lines n"
        using True by (auto simp: line_write_def split: option.splits if_splits)
      with Cons.IH [OF Cons.prems] None show ?thesis by (simp add: map_filter_simps)
    next
      case (Some w)
      obtain c k v where w: "w = (c, k, v)" by (metis prod_cases3)
      let ?n1 = "direct_apply hash c k v n"
      have step: "preload_loop hash count loaded (line # lines) n = preload_loop hash count (loaded + 1) lines ?n1"
        using True Some w by (auto simp: line_write_def split: option.splits if_splits)
      note d = direct_apply_refines [OF Cons.prems(1), of c k v]
      have put: "?n1\<lparr>n_kv := kv\<rparr> = n\<lparr>n_kv := kv\<rparr>" for kv
        by (subst d(3) [symmetric]) simp
      from Cons.IH [OF d(1) next'(1)] Some w show ?thesis unfolding step
        by (simp add: map_filter_simps next'(2) d(2) put)
    qed
  qed
qed

lemma preload_at:
  assumes "n_kv n = empty_store"
  shows "\<exists>kv. preload hash count file n = n\<lparr>n_kv := kv\<rparr> \<and> kv_wf hash kv \<and>
    kv_lookup hash kv = preload_spec (unat count) file"
proof (cases "0 < count")
  case True
  have "kv_wf hash (n_kv n)" by (simp add: assms kv_wf_empty)
  from preload_loop_refines [OF this, of 0 count "split_lines file"] True show ?thesis
    by (simp add: preload_def preload_spec_def assms kv_lookup_empty)
next
  case False
  then have "count = 0" by (simp add: word_gt_0)
  then show ?thesis
    by (intro exI [of _ "n_kv n"]) (simp add: preload_def preload_spec_def assms kv_wf_empty kv_lookup_empty)
qed

text \<open>Property C35: preload. Preloading applies the first \<open>preload_count\<close> writing lines of the file, in
  order, skipping lines that do not parse, as on a single map, and touches nothing but the store; so nodes
  that preload the same file start with the same data, whatever their hash function.\<close>

theorem preload_refines:
  assumes "n_kv n = empty_store"
  shows "\<exists>kv. preload hash count file n = n\<lparr>n_kv := kv\<rparr> \<and> kv_wf hash kv \<and>
    kv_lookup hash kv = preload_spec (unat count) file"
  using assms by (rule preload_at)

lemma preload_spec_sample: "preload_spec 5 ''1,P a:x'' = [''a'' \<mapsto> ''x'']"
proof -
  have "split_lines ''1,P a:x'' = [''1,P a:x'']" by (subst split_lines.simps) simp
  moreover have "line_write ''1,P a:x'' = Some (CHR ''P'', ''a'', ''x'')"
    by (simp add: line_write_def parse_line_view_def strip_eol_def is_eol_def after_char_def before_char_def
        parse_u64_def is_digit_def is_write_op_def preload_value_def)
  ultimately show ?thesis by (simp add: preload_spec_def map_filter_simps spec_apply_def)
qed

theorem preload_refines_witness:
  "\<exists>kv. preload (\<lambda>_. 7) 5 ''1,P a:x'' sample_node = sample_node\<lparr>n_kv := kv\<rparr> \<and> kv_lookup (\<lambda>_. 7) kv = [''a'' \<mapsto> ''x'']"
proof -
  have "n_kv sample_node = empty_store" by (simp add: sample_node_def bandle_new_def)
  from preload_refines [OF this, of "\<lambda>_. 7" 5 "''1,P a:x''"] obtain kv where
    kv: "preload (\<lambda>_. 7) 5 ''1,P a:x'' sample_node = sample_node\<lparr>n_kv := kv\<rparr>"
      "kv_lookup (\<lambda>_. 7) kv = preload_spec 5 ''1,P a:x''" by auto
  with preload_spec_sample show ?thesis by auto
qed

section \<open>Command line errors\<close>

lemma parse_options_keeps_dataset:
  "parse_options args opts = Some opts' \<Longrightarrow> ''--dataset'' \<notin> set args \<Longrightarrow> o_dataset opts' = o_dataset opts"
proof (induction args opts rule: parse_options.induct)
  case (3 arg val args opts)
  show ?case
  proof (cases "apply_option arg val opts")
    case None
    with 3 show ?thesis by simp
  next
    case (Some r)
    then obtain opts1 where r: "r = Some opts1" using "3.prems"(1) by (cases r) auto
    moreover have "o_dataset opts1 = o_dataset opts"
      using Some r "3.prems"(2) by (auto simp: apply_option_def with_u64_def split: if_splits)
    ultimately show ?thesis using 3 Some by simp
  qed
qed auto

text \<open>configuration errors. Fewer than three arguments give the usage message, a node id that is
  no number an exception, a command line without \<open>--dataset\<close> is never accepted, and the constructor
  refuses exactly the configurations that are not one of three nodes.\<close>

theorem bad_configuration_rejected:
  "(driver_config args = Inl Usage \<longleftrightarrow> length args < 3) \<and>
   (''--dataset'' \<notin> set (drop 3 args) \<longrightarrow> (\<exists>e. driver_config args = Inl e)) \<and>
   (3 \<le> length args \<and> stoull (args ! 1) = None \<longrightarrow> driver_config args = Inl Uncaught_Exception) \<and>
   (driver_node node_id opts tsc = None \<longleftrightarrow> \<not> (o_cluster_size opts = 3 \<and> unat node_id \<in> set node_ids))"
proof (intro conjI)
  have ids: "unat node_id \<in> set node_ids \<longleftrightarrow> \<not> node_id < 1 \<and> \<not> 3 < node_id"
    by (auto simp: node_ids_def word_less_nat_alt)
  show "driver_node node_id opts tsc = None \<longleftrightarrow> \<not> (o_cluster_size opts = 3 \<and> unat node_id \<in> set node_ids)"
    by (auto simp: driver_node_def bandle_new_def ids)
  show "driver_config args = Inl Usage \<longleftrightarrow> length args < 3"
    by (cases args rule: driver_config.cases) (auto split: option.splits)
  show "3 \<le> length args \<and> stoull (args ! 1) = None \<longrightarrow> driver_config args = Inl Uncaught_Exception"
    by (cases args rule: driver_config.cases) auto
  show "''--dataset'' \<notin> set (drop 3 args) \<longrightarrow> (\<exists>e. driver_config args = Inl e)"
    using parse_options_keeps_dataset [of _ default_options]
    by (cases args rule: driver_config.cases) (auto simp: default_options_def split: option.splits)
qed

theorem bad_configuration_rejected_witness:
  "(\<exists>e. driver_config [''/dev/dax0.0'', ''1'', ''9000''] = Inl e) \<and>
   driver_config [''/dev/dax0.0'', ''one'', ''9000''] = Inl Uncaught_Exception"
proof -
  have "stoull ''one'' = None" by (simp add: stoull_def is_space_def is_digit_def)
  with bad_configuration_rejected [of "[''/dev/dax0.0'', ''1'', ''9000'']"]
    bad_configuration_rejected [of "[''/dev/dax0.0'', ''one'', ''9000'']"] show ?thesis by simp
qed

section \<open>Command lines give the options they name\<close>

text \<open>A command line that names every option with its value.\<close>

definition show_options :: "Options \<Rightarrow> string list" where
  "show_options opts =
     [''--dataset'', o_dataset opts, ''--preload-file'', o_preload_file opts,
      ''--preload-count'', show_u64 (o_preload_count opts), ''--recordcount'', show_u64 (o_recordcount opts),
      ''--cluster-size'', show_u64 (o_cluster_size opts), ''--run-id'', show_u64 (o_run_id opts),
      ''--start-signal'', o_start_signal opts, ''--ready-file'', o_ready_file opts,
      ''--poll-idle-us'', show_nat (nat (o_poll_idle_us opts)), ''--noop-us'', show_u64 (o_noop_us opts),
      ''--batch-size'', show_u64 (ucast (o_batch_size opts)), ''--pipeline-workers'', show_u64 (o_pipeline_workers opts),
      ''--admission-window'', show_u64 (o_admission_window opts), ''--admission-batch'', show_u64 (ucast (o_admission_batch opts)),
      ''--stats-out'', o_stats_out opts]"

definition numeric_options :: "string list" where
  "numeric_options = [''--preload-count'', ''--recordcount'', ''--cluster-size'', ''--noop-us'', ''--batch-size'',
     ''--pipeline-workers'', ''--admission-window'', ''--admission-batch'']"

lemma parse_run_token_show: "parse_run_token (show_u64 x) = x"
  by (simp add: parse_run_token_def stoull_show_u64) (simp add: show_u64_def)

lemma ucast_u32_u64: "ucast (ucast (x :: u32) :: u64) = x"
  by (rule ucast_up_ucast_id) (simp add: is_up)

lemma apply_option_named:
  "apply_option ''--dataset'' val o1 = Some (Some (o1\<lparr>o_dataset := val\<rparr>))"
  "apply_option ''--preload-file'' val o1 = Some (Some (o1\<lparr>o_preload_file := val\<rparr>))"
  "apply_option ''--preload-count'' (show_u64 x) o1 = Some (Some (o1\<lparr>o_preload_count := x\<rparr>))"
  "apply_option ''--recordcount'' (show_u64 x) o1 = Some (Some (o1\<lparr>o_recordcount := x\<rparr>))"
  "apply_option ''--cluster-size'' (show_u64 x) o1 = Some (Some (o1\<lparr>o_cluster_size := x\<rparr>))"
  "apply_option ''--run-id'' (show_u64 x) o1 = Some (Some (o1\<lparr>o_run_id := x\<rparr>))"
  "apply_option ''--start-signal'' val o1 = Some (Some (o1\<lparr>o_start_signal := val\<rparr>))"
  "apply_option ''--ready-file'' val o1 = Some (Some (o1\<lparr>o_ready_file := val\<rparr>))"
  "apply_option ''--noop-us'' (show_u64 x) o1 = Some (Some (o1\<lparr>o_noop_us := x\<rparr>))"
  "apply_option ''--batch-size'' (show_u64 x) o1 = Some (Some (o1\<lparr>o_batch_size := ucast x\<rparr>))"
  "apply_option ''--pipeline-workers'' (show_u64 x) o1 = Some (Some (o1\<lparr>o_pipeline_workers := x\<rparr>))"
  "apply_option ''--admission-window'' (show_u64 x) o1 = Some (Some (o1\<lparr>o_admission_window := x\<rparr>))"
  "apply_option ''--admission-batch'' (show_u64 x) o1 = Some (Some (o1\<lparr>o_admission_batch := ucast x\<rparr>))"
  "apply_option ''--stats-out'' val o1 = Some (Some (o1\<lparr>o_stats_out := val\<rparr>))"
  by (simp_all add: apply_option_def with_u64_def stoull_show_u64 parse_run_token_show)

lemma apply_option_poll:
  assumes "0 \<le> x" "x < 2 ^ 31"
  shows "apply_option ''--poll-idle-us'' (show_nat (nat x)) o1 = Some (Some (o1\<lparr>o_poll_idle_us := x\<rparr>))"
proof -
  have "nat x < 2 ^ 31" using assms by (simp add: nat_less_iff)
  from stoi_show [OF this] assms(1) show ?thesis by (simp add: apply_option_def)
qed

lemma parse_options_show:
  assumes "0 \<le> o_poll_idle_us opts" "o_poll_idle_us opts < 2 ^ 31"
  shows "parse_options (show_options opts @ rest) o0 = parse_options rest opts"
  by (cases opts; cases o0)
    (use assms in \<open>simp add: show_options_def apply_option_named apply_option_poll ucast_u32_u64\<close>)

lemma parse_options_junk:
  assumes "\<forall>a\<in>set junk. \<forall>val o1. apply_option a val o1 = None" "args \<noteq> []"
  shows "parse_options (junk @ args) o0 = parse_options args o0"
  using assms
proof (induction junk)
  case (Cons a junk)
  then obtain b bs where "junk @ args = b # bs" by (cases "junk @ args") auto
  with Cons show ?case by simp
qed simp

lemma apply_option_number:
  "name \<in> set numeric_options \<Longrightarrow> stoull val = None \<Longrightarrow> apply_option name val o1 = Some None"
  by (auto simp: numeric_options_def apply_option_def with_u64_def)

text \<open>Property C17: command lines. A command line that gives every option a value configures the driver with exactly these
  values, each in its place: numbers are read back from their decimal form at full width, words that are
  no options are passed over, and of options that are given twice the last one counts. If the dataset is then empty, the
  driver says that it is required, and a word that is no number as the value of a numeric option ends it with an
  exception, wherever it stands behind well-formed options.\<close>

theorem command_line_roundtrip:
  fixes dax :: string and node_id port :: u64
  assumes "0 \<le> o_poll_idle_us opts" "o_poll_idle_us opts < 2 ^ 31" "0 \<le> o_poll_idle_us earlier" "o_poll_idle_us earlier < 2 ^ 31"
    and "\<forall>a\<in>set junk. \<forall>val o1. apply_option a val o1 = None"
    and "name \<in> set numeric_options" "stoull word = None"
  defines "args \<equiv> dax # show_u64 node_id # show_u64 port # junk @ show_options earlier @ show_options opts"
  shows "driver_config args = (if o_dataset opts = [] then Inl Dataset_Required else Inr (dax, node_id, opts)) \<and>
    driver_config (args @ name # word # rest) = Inl Uncaught_Exception"
proof -
  have "show_options earlier @ x \<noteq> []" for x by (simp add: show_options_def)
  note junk = parse_options_junk [OF assms(5) this]
  have "parse_options (junk @ show_options earlier @ show_options opts @ x) o0 = parse_options x opts" for x o0
    unfolding junk parse_options_show [OF assms(3,4)] by (rule parse_options_show [OF assms(1,2)])
  from this [of "[]"] this [of "name # word # rest"] show ?thesis
    by (simp add: args_def stoull_show_u64 apply_option_number [OF assms(6,7)])
qed

theorem command_line_roundtrip_witness:
  "\<exists>opts. driver_config (''/dev/dax0.0'' # ''2'' # ''9000'' # [''--verbose''] @ show_options default_options @ show_options opts)
       = Inr (''/dev/dax0.0'', 2, opts) \<and> o_dataset opts = ''d'' \<and> o_admission_window opts = 4096"
proof -
  let ?opts = "default_options\<lparr>o_dataset := ''d'', o_admission_window := 4096, o_poll_idle_us := 20\<rparr>"
  have poll: "o_poll_idle_us ?opts = 20" "o_poll_idle_us default_options = 0" by (simp_all add: default_options_def)
  have num: "show_u64 2 = ''2''" "show_u64 9000 = ''9000''" by (simp_all add: show_u64_def show_nat.simps digit_char_def char_of_def bit_0)
  have "stoull ''x'' = None" "''--noop-us'' \<in> set numeric_options" "\<forall>a\<in>set [''--verbose'']. \<forall>val o1. apply_option a val o1 = None"
    by (simp_all add: stoull_def is_space_def is_digit_def numeric_options_def apply_option_def)
  from command_line_roundtrip [of ?opts default_options "[''--verbose'']" "''--noop-us''" "''x''" "''/dev/dax0.0''" 2 9000] this poll
  show ?thesis unfolding num by (intro exI [of _ ?opts]) simp
qed

end
