(* ===== verification/Aggregate.thy ===== *)
theory Aggregate
  imports Complex_Main Node_Driver "HOL-Library.AList" "HOL-Library.Monad_Syntax"
begin

text \<open>
  The aggregator (\<open>src/bandle_aggregate.cpp\<close>): it reads the statistics files of all nodes, sums and merges
  them, and prints throughput, percentiles and means. Floating-point operations are the exact operation on
  reals followed by a rounding function, \<open>ld\<close> for \<open>long double\<close> and \<open>db\<close> for \<open>double\<close>, which are arguments;
  uncaught exceptions of the conversions are \<open>None\<close>.
\<close>

section \<open>Statistics files\<close>

record NodeStats =
  ns_node_id :: u64
  ns_real_start_ns :: u64
  ns_work_done_ns :: u64
  ns_real_end_ns :: u64
  ns_ok_ops :: u64
  ns_read_ops :: u64
  ns_write_ops :: u64
  ns_tsc_hz :: u64
  ns_read_latency :: LatencyHistogram
  ns_write_latency :: LatencyHistogram
  ns_perf :: "(string \<times> u64) list"

definition empty_stats :: NodeStats where
  "empty_stats = \<lparr> ns_node_id = 0, ns_real_start_ns = 0, ns_work_done_ns = 0, ns_real_end_ns = 0, ns_ok_ops = 0,
     ns_read_ops = 0, ns_write_ops = 0, ns_tsc_hz = 0, ns_read_latency = empty_histogram,
     ns_write_latency = empty_histogram, ns_perf = [] \<rparr>"

text \<open>\<open>std::getline(ss, tok, ',')\<close> followed by \<open>std::stoull(tok)\<close>: the number, the token and the stream.\<close>

definition next_u64 :: "string \<times> string option \<Rightarrow> (u64 \<times> string \<times> string option) option" where
  "next_u64 st =
     (case getline_tok (snd st) (fst st) of
        (_, tok, ss) \<Rightarrow> map_option (\<lambda>(x, pos). (x, tok, ss)) (stoull tok))"

definition parse_meta :: "string option \<Rightarrow> NodeStats \<Rightarrow> NodeStats option" where
  "parse_meta ss out = do {
     (node_id, st) \<leftarrow> next_u64 ('''', ss);
     (real_start, st) \<leftarrow> next_u64 st;
     (third, st) \<leftarrow> next_u64 st;
     let out1 = out\<lparr>ns_node_id := node_id, ns_real_start_ns := real_start\<rparr>;
     case getline_tok (snd st) '''' of
       (False, _, _) \<Rightarrow> Some (out1\<lparr>ns_work_done_ns := 0, ns_real_end_ns := third\<rparr>)
     | (True, next_tok, ss) \<Rightarrow> do {
         (real_end, _) \<leftarrow> stoull next_tok;
         (ok_ops, st) \<leftarrow> next_u64 (fst st, ss);
         (read_ops, st) \<leftarrow> next_u64 st;
         (write_ops, st) \<leftarrow> next_u64 st;
         (tsc_hz, st) \<leftarrow> next_u64 st;
         Some (out1\<lparr>ns_work_done_ns := third, ns_real_end_ns := real_end, ns_ok_ops := ok_ops,
           ns_read_ops := read_ops, ns_write_ops := write_ops, ns_tsc_hz := tsc_hz\<rparr>)
       }
   }"

definition parse_bucket :: "string \<Rightarrow> string option \<Rightarrow> NodeStats \<Rightarrow> NodeStats option" where
  "parse_bucket tag ss out =
     (case getline_tok ss '''' of
        (_, tok, ss1) \<Rightarrow> do {
          idx \<leftarrow> stoi tok;
          (cnt, _) \<leftarrow> next_u64 (tok, ss1);
          Some (if tag = ''READ''
                then out\<lparr>ns_read_latency := add_bucket idx cnt (ns_read_latency out)\<rparr>
                else out\<lparr>ns_write_latency := add_bucket idx cnt (ns_write_latency out)\<rparr>)
        })"

definition parse_perf :: "string option \<Rightarrow> NodeStats \<Rightarrow> NodeStats option" where
  "parse_perf ss out =
     (case getline_tok ss '''' of
        (_, name, ss1) \<Rightarrow>
          (case getline_tok ss1 '''' of
             (_, val, _) \<Rightarrow>
               if name \<noteq> [] \<and> val \<noteq> []
               then map_option (\<lambda>(x, pos). out\<lparr>ns_perf := AList.update name x (ns_perf out)\<rparr>) (stoull val)
               else Some out))"

definition parse_row :: "string \<Rightarrow> NodeStats \<Rightarrow> NodeStats option" where
  "parse_row line out =
     (if line = [] then Some out
      else case getline_tok (Some line) '''' of
             (_, tag, ss) \<Rightarrow>
               if tag = ''META'' then parse_meta ss out
               else if tag = ''READ'' \<or> tag = ''WRITE'' then parse_bucket tag ss out
               else if tag = ''PERF'' then parse_perf ss out
               else Some out)"

fun parse_rows :: "string list \<Rightarrow> NodeStats \<Rightarrow> NodeStats option" where
  "parse_rows [] out = Some out"
| "parse_rows (line # lines) out = Option.bind (parse_row line out) (parse_rows lines)"

definition parse_csv :: "string \<Rightarrow> NodeStats option" where
  "parse_csv file = parse_rows (split_lines file) empty_stats"

section \<open>Cluster totals\<close>

record ClusterStats =
  cs_start :: u64
  cs_end :: u64
  cs_total_ok :: u64
  cs_total_reads :: u64
  cs_total_writes :: u64
  cs_tsc_hz :: u64
  cs_tsc_mismatch :: bool
  cs_read :: LatencyHistogram
  cs_write :: LatencyHistogram

definition cluster_zero :: ClusterStats where
  "cluster_zero = \<lparr> cs_start = 0, cs_end = 0, cs_total_ok = 0, cs_total_reads = 0, cs_total_writes = 0,
     cs_tsc_hz = 0, cs_tsc_mismatch = False, cs_read = empty_histogram, cs_write = empty_histogram \<rparr>"

definition add_node :: "NodeStats \<Rightarrow> ClusterStats \<Rightarrow> ClusterStats" where
  "add_node n cs =
     cs\<lparr>cs_start := (if ns_real_start_ns n \<noteq> 0 \<and> (cs_start cs = 0 \<or> ns_real_start_ns n < cs_start cs)
                     then ns_real_start_ns n else cs_start cs),
        cs_end := (if ns_real_end_ns n \<noteq> 0 \<and> cs_end cs < ns_real_end_ns n then ns_real_end_ns n else cs_end cs),
        cs_total_ok := cs_total_ok cs + ns_ok_ops n,
        cs_total_reads := cs_total_reads cs + ns_read_ops n,
        cs_total_writes := cs_total_writes cs + ns_write_ops n,
        cs_read := hist_merge (cs_read cs) (ns_read_latency n),
        cs_write := hist_merge (cs_write cs) (ns_write_latency n),
        cs_tsc_hz := (if ns_tsc_hz n \<noteq> 0 \<and> cs_tsc_hz cs = 0 then ns_tsc_hz n else cs_tsc_hz cs),
        cs_tsc_mismatch := (cs_tsc_mismatch cs \<or>
          (ns_tsc_hz n \<noteq> 0 \<and> cs_tsc_hz cs \<noteq> 0 \<and> cs_tsc_hz cs \<noteq> ns_tsc_hz n))\<rparr>"

definition cluster_stats :: "NodeStats list \<Rightarrow> ClusterStats" where
  "cluster_stats nodes = fold add_node nodes cluster_zero"

section \<open>Derived figures\<close>

definition ns_to_s :: "(real \<Rightarrow> real) \<Rightarrow> u64 \<Rightarrow> real" where
  "ns_to_s ld ns = ld (ld (real (unat ns)) / 10 ^ 9)"

definition cycles_to_us :: "(real \<Rightarrow> real) \<Rightarrow> u64 \<Rightarrow> u64 \<Rightarrow> real" where
  "cycles_to_us ld cycles tsc_hz =
     (if tsc_hz = 0 then 0 else ld (ld (ld (real (unat cycles)) * 10 ^ 6) / ld (real (unat tsc_hz))))"

definition bucket_upper_value :: "nat \<Rightarrow> u64" where
  "bucket_upper_value idx =
     (if idx + 1 < BUCKETS then bucket_lower_value (int idx + 1)
      else let lower = bucket_lower_value (int idx) in if lower = 0 then 1 else push_bit 1 lower)"

fun mean_loop :: "(real \<Rightarrow> real) \<Rightarrow> u64 list \<Rightarrow> nat \<Rightarrow> real \<Rightarrow> u64 \<Rightarrow> real \<times> u64" where
  "mean_loop ld [] i acc tot = (acc, tot)"
| "mean_loop ld (cnt # cs) i acc tot =
     (if cnt = 0 then mean_loop ld cs (Suc i) acc tot
      else let lo = ld (real (unat (bucket_lower_value (int i))));
               hi = ld (real (unat (bucket_upper_value i)));
               mid = ld (ld (lo + hi) / 2)
           in mean_loop ld cs (Suc i) (ld (acc + ld (mid * ld (real (unat cnt))))) (tot + cnt))"

definition mean_cycles_from_hist :: "(real \<Rightarrow> real) \<Rightarrow> LatencyHistogram \<Rightarrow> real" where
  "mean_cycles_from_hist ld h =
     (case mean_loop ld (h_counts h) 0 0 0 of
        (acc, tot) \<Rightarrow> if tot = 0 then 0 else ld (acc / ld (real (unat tot))))"

text \<open>The conversion of a non-negative floating-point number below \<open>2 ^ 64\<close> to \<open>uint64_t\<close>.\<close>

definition trunc_u64 :: "real \<Rightarrow> u64" where
  "trunc_u64 x = of_int \<lfloor>x\<rfloor>"

definition quantile_value :: "(real \<Rightarrow> real) \<Rightarrow> real \<Rightarrow> LatencyHistogram \<Rightarrow> u64" where
  "quantile_value db q h =
     (if h_total h = 0 then 0
      else let q1 = (if q \<le> 0 then 0 else if q \<ge> 1 then 1 else q)
           in quantile_at (trunc_u64 (db (q1 * db (real (unat (h_total h)))))) h)"

fun duration_loop :: "(real \<Rightarrow> real) \<Rightarrow> NodeStats list \<Rightarrow> real \<Rightarrow> real" where
  "duration_loop ld [] duration_s = duration_s"
| "duration_loop ld (n # ns) duration_s =
     duration_loop ld ns
       (if ns_real_start_ns n < ns_real_end_ns n
        then let node_dur = ns_to_s ld (ns_real_end_ns n - ns_real_start_ns n)
             in if duration_s < node_dur then node_dur else duration_s
        else duration_s)"

definition throughput :: "(real \<Rightarrow> real) \<Rightarrow> u64 \<Rightarrow> real \<Rightarrow> real" where
  "throughput ld ok duration_s = (if 0 < duration_s then ld (ld (real (unat ok)) / duration_s) else 0)"

section \<open>Performance counters\<close>

definition has_perf :: "NodeStats list \<Rightarrow> bool" where
  "has_perf nodes = list_ex (\<lambda>n. ns_perf n \<noteq> []) nodes"

definition sum_key :: "NodeStats list \<Rightarrow> string \<Rightarrow> u64" where
  "sum_key nodes k =
     foldl (\<lambda>acc n. case map_of (ns_perf n) k of Some x \<Rightarrow> acc + x | None \<Rightarrow> acc) 0 nodes"

definition max_key :: "NodeStats list \<Rightarrow> string \<Rightarrow> u64" where
  "max_key nodes k =
     foldl (\<lambda>mx n. case map_of (ns_perf n) k of Some x \<Rightarrow> max mx x | None \<Rightarrow> mx) 0 nodes"

definition div_u64 :: "(real \<Rightarrow> real) \<Rightarrow> u64 \<Rightarrow> u64 \<Rightarrow> real" where
  "div_u64 ld num den = (if den = 0 then 0 else ld (ld (real (unat num)) / ld (real (unat den))))"

text \<open>The counters that are printed, in order, and the ratios with their value in microseconds.\<close>

definition perf_counters :: "NodeStats list \<Rightarrow> (string \<times> u64) list" where
  "perf_counters nodes =
     [(''submit_push_failures'', sum_key nodes ''submit_push_failures''),
      (''submit_push_batches'', sum_key nodes ''submit_push_batches''),
      (''submit_push_msgs'', sum_key nodes ''submit_push_msgs''),
      (''submit_push_wait_cycles(sum)'', sum_key nodes ''submit_push_wait_cycles''),
      (''recv_read_retry'', sum_key nodes ''recv_read_retry''),
      (''recv_ring_max_avail(max)'', max_key nodes ''recv_ring_max_avail''),
      (''recv_commit_batches'', sum_key nodes ''recv_commit_batches''),
      (''localq_publish_wait_cycles(sum)'', sum_key nodes ''localq_publish_wait_cycles''),
      (''localq_publish_wait_max_cycles'', max_key nodes ''localq_publish_wait_max_cycles''),
      (''localq_backlog_max(max)'', max_key nodes ''localq_backlog_max''),
      (''recv_coord_empty_loops'', sum_key nodes ''recv_coord_empty_loops''),
      (''recv_localq_empty_loops'', sum_key nodes ''recv_localq_empty_loops''),
      (''handle_accept_count'', sum_key nodes ''handle_accept_count''),
      (''handle_ack_count'', sum_key nodes ''handle_ack_count''),
      (''handle_accept_apply_count'', sum_key nodes ''handle_accept_apply_count''),
      (''handle_ack_apply_count'', sum_key nodes ''handle_ack_apply_count'')]"

definition ratio_with_us ::
  "(real \<Rightarrow> real) \<Rightarrow> (real \<Rightarrow> real) \<Rightarrow> u64 \<Rightarrow> u64 \<Rightarrow> u64 \<Rightarrow> real \<times> real option" where
  "ratio_with_us ld db tsc_hz num den =
     (let r = div_u64 ld num den
      in (db r, if tsc_hz \<noteq> 0 then Some (db (cycles_to_us ld (trunc_u64 r) tsc_hz)) else None))"

definition perf_derived ::
  "(real \<Rightarrow> real) \<Rightarrow> (real \<Rightarrow> real) \<Rightarrow> u64 \<Rightarrow> NodeStats list \<Rightarrow> (string \<times> real \<times> real option) list" where
  "perf_derived ld db tsc_hz nodes =
     (let s = sum_key nodes; ratio = ratio_with_us ld db tsc_hz
      in [(''submit_push_wait_cycles/batch'', ratio (s ''submit_push_wait_cycles'') (s ''submit_push_batches'')),
          (''submit_push_failures/batch'',
             db (div_u64 ld (s ''submit_push_failures'') (s ''submit_push_batches'')), None),
          (''localq_publish_wait_cycles/msg'',
             ratio (s ''localq_publish_wait_cycles'') (s ''handle_accept_count'' + s ''handle_ack_count'')),
          (''handle_accept_cycles/msg'', ratio (s ''handle_accept_cycles'') (s ''handle_accept_count'')),
          (''handle_accept_apply_cycles/apply'',
             ratio (s ''handle_accept_apply_cycles'') (s ''handle_accept_apply_count'')),
          (''handle_ack_cycles/msg'', ratio (s ''handle_ack_cycles'') (s ''handle_ack_count'')),
          (''handle_ack_apply_cycles/apply'',
             ratio (s ''handle_ack_apply_cycles'') (s ''handle_ack_apply_count''))])"

section \<open>Summary of a node\<close>

text \<open>The median, the 99th percentile and the mean, in cycles or, with a clock rate, in microseconds.\<close>

datatype latency_report = Cycles u64 u64 real | Micros real real real

record NodeSummary =
  sm_done_s :: real
  sm_thr_ops_s :: real
  sm_wait_after_done_s :: "real option"
  sm_read :: latency_report
  sm_write :: latency_report

definition report_latency ::
  "(real \<Rightarrow> real) \<Rightarrow> (real \<Rightarrow> real) \<Rightarrow> u64 \<Rightarrow> LatencyHistogram \<Rightarrow> latency_report" where
  "report_latency ld db tsc_hz h =
     (let p50 = quantile_value db (db (1 / 2)) h; p99 = quantile_value db (db (99 / 100)) h;
          mean = mean_cycles_from_hist ld h; us = (\<lambda>c. db (cycles_to_us ld c tsc_hz))
      in if tsc_hz = 0 then Cycles p50 p99 (db mean) else Micros (us p50) (us p99) (us (trunc_u64 mean)))"

definition node_summary :: "(real \<Rightarrow> real) \<Rightarrow> (real \<Rightarrow> real) \<Rightarrow> NodeStats \<Rightarrow> NodeSummary" where
  "node_summary ld db n =
     (let end_ns = (if ns_work_done_ns n \<noteq> 0 then ns_work_done_ns n else ns_real_end_ns n);
          dur = (if ns_real_start_ns n < end_ns then ns_to_s ld (end_ns - ns_real_start_ns n) else 0)
      in \<lparr> sm_done_s = db dur, sm_thr_ops_s = db (throughput ld (ns_ok_ops n) dur),
           sm_wait_after_done_s =
             (if ns_work_done_ns n \<noteq> 0 \<and> ns_work_done_ns n < ns_real_end_ns n
              then Some (db (ns_to_s ld (ns_real_end_ns n - ns_work_done_ns n))) else None),
           sm_read = report_latency ld db (ns_tsc_hz n) (ns_read_latency n),
           sm_write = report_latency ld db (ns_tsc_hz n) (ns_write_latency n) \<rparr>)"

section \<open>The program\<close>

record Summary =
  su_nodes :: nat
  su_cluster :: ClusterStats
  su_duration_s :: real
  su_throughput :: real
  su_perf :: "((string \<times> u64) list \<times> (string \<times> real \<times> real option) list) option"
  su_read :: latency_report
  su_write :: latency_report
  su_per_node :: "NodeSummary list"

definition summarize :: "(real \<Rightarrow> real) \<Rightarrow> (real \<Rightarrow> real) \<Rightarrow> NodeStats list \<Rightarrow> Summary" where
  "summarize ld db nodes =
     (let cs = cluster_stats nodes; dur = duration_loop ld nodes 0
      in \<lparr> su_nodes = length nodes, su_cluster = cs, su_duration_s = db dur,
           su_throughput = db (throughput ld (cs_total_ok cs) dur),
           su_perf = (if has_perf nodes
                      then Some (perf_counters nodes, perf_derived ld db (cs_tsc_hz cs) nodes) else None),
           su_read = report_latency ld db (cs_tsc_hz cs) (cs_read cs),
           su_write = report_latency ld db (cs_tsc_hz cs) (cs_write cs),
           su_per_node = map (node_summary ld db) nodes \<rparr>)"

datatype agg_error = Agg_Usage | Agg_Open string | Agg_Uncaught

fun read_all :: "(string \<Rightarrow> string option) \<Rightarrow> string list \<Rightarrow> agg_error + NodeStats list" where
  "read_all files [] = Inr []"
| "read_all files (path # paths) =
     (case files path of
        None \<Rightarrow> Inl (Agg_Open path)
      | Some file \<Rightarrow>
          (case parse_csv file of
             None \<Rightarrow> Inl Agg_Uncaught
           | Some ns \<Rightarrow> (case read_all files paths of Inl e \<Rightarrow> Inl e | Inr nss \<Rightarrow> Inr (ns # nss))))"

definition aggregate ::
  "(real \<Rightarrow> real) \<Rightarrow> (real \<Rightarrow> real) \<Rightarrow> (string \<Rightarrow> string option) \<Rightarrow> string list \<Rightarrow> agg_error + Summary" where
  "aggregate ld db files args =
     (if args = [] then Inl Agg_Usage
      else case read_all files args of Inl e \<Rightarrow> Inl e | Inr nodes \<Rightarrow> Inr (summarize ld db nodes))"

section \<open>Statistics files round-trip\<close>

lemma comma_free: "CHR '','' \<notin> set (show_u64 x)" "CHR '','' \<notin> set (show_nat i)"
  using show_nat_digits digit_not_special(4) by (auto simp: show_u64_def)

lemma show_not_Nil [simp]: "show_u64 x \<noteq> []"
  by (simp add: show_u64_def)

lemma next_u64_field: "next_u64 (tok, Some (show_u64 x @ CHR '','' # rest)) = Some (x, show_u64 x, Some rest)"
  using comma_free(1) [of x] by (simp add: next_u64_def getline_tok_field stoull_show_u64 del: getline_tok.simps)

lemma next_u64_last: "next_u64 (tok, Some (show_u64 x)) = Some (x, show_u64 x, None)"
  using comma_free(1) [of x] by (simp add: next_u64_def getline_tok_last stoull_show_u64 del: getline_tok.simps)

lemmas stream_laws = next_u64_field next_u64_last

lemma parse_row_tag:
  assumes "CHR '','' \<notin> set tag"
  shows "parse_row (tag @ CHR '','' # rest) out =
    (if tag = ''META'' then parse_meta (Some rest) out
     else if tag = ''READ'' \<or> tag = ''WRITE'' then parse_bucket tag (Some rest) out
     else if tag = ''PERF'' then parse_perf (Some rest) out else Some out)"
  using getline_tok_field [OF assms, of rest "''''"] by (simp add: parse_row_def del: getline_tok.simps)

lemma parse_row_meta:
  "parse_row (meta_line node_id s) out = Some (out\<lparr>ns_node_id := node_id, ns_real_start_ns := s_real_start_ns s,
     ns_work_done_ns := s_work_done_ns s, ns_real_end_ns := s_real_end_ns s, ns_ok_ops := s_ok_ops s,
     ns_read_ops := s_read_ops s, ns_write_ops := s_write_ops s, ns_tsc_hz := s_tsc_hz s\<rparr>)"
proof -
  have "meta_line node_id s = ''META'' @ CHR '','' # show_u64 node_id @ CHR '','' # show_u64 (s_real_start_ns s)
     @ CHR '','' # show_u64 (s_work_done_ns s) @ CHR '','' # show_u64 (s_real_end_ns s) @ CHR '','' # show_u64 (s_ok_ops s)
     @ CHR '','' # show_u64 (s_read_ops s) @ CHR '','' # show_u64 (s_write_ops s) @ CHR '','' # show_u64 (s_tsc_hz s)"
    by (simp add: meta_line_def)
  moreover have "parse_row (''META'' @ CHR '','' # rest) out = parse_meta (Some rest) out" for rest
    by (subst parse_row_tag) simp_all
  ultimately show ?thesis
    using comma_free(1) [of "s_real_end_ns s"]
    by (simp only:) (simp add: parse_meta_def stream_laws getline_tok_field stoull_show_u64 del: getline_tok.simps)
qed

text \<open>The rows of a list of counters that starts at bucket \<open>i\<close>.\<close>

definition bucket_row :: "string \<Rightarrow> nat \<Rightarrow> u64 \<Rightarrow> string list" where
  "bucket_row tag i c = (if c \<noteq> 0 then [tag @ '','' @ show_nat i @ '','' @ show_u64 c] else [])"

fun bucket_rows :: "string \<Rightarrow> u64 list \<Rightarrow> nat \<Rightarrow> string list" where
  "bucket_rows tag [] i = []"
| "bucket_rows tag (c # cs) i = bucket_row tag i c @ bucket_rows tag cs (Suc i)"

lemma bucket_rows_upt:
  "concat (map (\<lambda>j. bucket_row tag j ((pre @ cs) ! j)) [length pre..<length (pre @ cs)]) = bucket_rows tag cs (length pre)"
proof (induction cs arbitrary: pre)
  case (Cons c cs)
  from Cons [of "pre @ [c]"] show ?case by (simp add: upt_conv_Cons del: upt_Suc)
qed simp

lemma bucket_lines_rows: "length (h_counts h) = BUCKETS \<Longrightarrow> bucket_lines tag h = bucket_rows tag (h_counts h) 0"
  using bucket_rows_upt [of tag "[]" "h_counts h"] by (simp add: bucket_lines_def bucket_row_def [abs_def])

lemma parse_row_bucket:
  assumes "i < BUCKETS" "tag \<in> {''READ'', ''WRITE''}"
  shows "parse_row (tag @ '','' @ show_nat i @ '','' @ show_u64 c) out =
    Some (if tag = ''READ'' then out\<lparr>ns_read_latency := add_bucket (int i) c (ns_read_latency out)\<rparr>
          else out\<lparr>ns_write_latency := add_bucket (int i) c (ns_write_latency out)\<rparr>)"
proof -
  have i: "i < 2 ^ 31" using assms(1) by (simp add: BUCKETS_def SUB_BUCKETS_def MAX_EXP_def)
  have "parse_row (tag @ CHR '','' # rest) out = parse_bucket tag (Some rest) out" for rest
    using assms(2) by (subst parse_row_tag) auto
  then have "parse_row (tag @ '','' @ show_nat i @ '','' @ show_u64 c) out
      = parse_bucket tag (Some (show_nat i @ CHR '','' # show_u64 c)) out" by simp
  then show ?thesis
    using comma_free(2) [of i] stoi_show [OF i]
    by (simp add: parse_bucket_def stream_laws getline_tok_field del: getline_tok.simps)
qed

lemma parse_rows_append: "parse_rows (xs @ ys) out = Option.bind (parse_rows xs out) (parse_rows ys)"
  by (induction xs arbitrary: out) (auto split: bind_splits)

lemma parse_rows_bucket_row:
  "i < BUCKETS \<Longrightarrow> parse_rows (bucket_row ''READ'' i c) out =
     Some (out\<lparr>ns_read_latency := if c \<noteq> 0 then add_bucket (int i) c (ns_read_latency out) else ns_read_latency out\<rparr>)"
  "i < BUCKETS \<Longrightarrow> parse_rows (bucket_row ''WRITE'' i c) out =
     Some (out\<lparr>ns_write_latency := if c \<noteq> 0 then add_bucket (int i) c (ns_write_latency out) else ns_write_latency out\<rparr>)"
  using parse_row_bucket [of i "''READ''" c out] parse_row_bucket [of i "''WRITE''" c out]
  by (auto simp: bucket_row_def)

lemma parse_bucket_rows:
  "i + length cs \<le> BUCKETS \<Longrightarrow> parse_rows (bucket_rows ''READ'' cs i) out =
     Some (out\<lparr>ns_read_latency := snapshot_loop cs i (ns_read_latency out)\<rparr>)"
  "i + length cs \<le> BUCKETS \<Longrightarrow> parse_rows (bucket_rows ''WRITE'' cs i) out =
     Some (out\<lparr>ns_write_latency := snapshot_loop cs i (ns_write_latency out)\<rparr>)"
  by (induction cs arbitrary: i out) (simp_all add: parse_rows_bucket_row parse_rows_append)

lemma newline_free_show: "CHR 0x0A \<notin> set (show_u64 x)" "CHR 0x0A \<notin> set (show_nat i)"
  using show_nat_digits digit_not_special(5) by (auto simp: show_u64_def)

lemma bucket_rows_lines: "l \<in> set (bucket_rows tag cs i) \<Longrightarrow> CHR 0x0A \<notin> set tag \<Longrightarrow> CHR 0x0A \<notin> set l"
  by (induction cs arbitrary: i) (auto simp: bucket_row_def newline_free_show split: if_splits)

lemma snapshot_self:
  assumes "hist_wf h"
  shows "snapshot_loop (h_counts h) 0 empty_histogram = h"
proof -
  have "length (h_counts h) = BUCKETS" using assms by (simp add: hist_wf_def)
  from hist_snapshot_counts [OF this] assms show ?thesis
    by (simp add: hist_wf_def hist_snapshot_def)
qed

text \<open>What a reader gets of a node's statistics.\<close>

definition stats_of_run :: "u64 \<Rightarrow> ReplayStats \<Rightarrow> NodeStats" where
  "stats_of_run node_id s = \<lparr> ns_node_id = node_id, ns_real_start_ns = s_real_start_ns s,
     ns_work_done_ns = s_work_done_ns s, ns_real_end_ns = s_real_end_ns s, ns_ok_ops = s_ok_ops s,
     ns_read_ops = s_read_ops s, ns_write_ops = s_write_ops s, ns_tsc_hz = s_tsc_hz s,
     ns_read_latency = s_read_latency s, ns_write_latency = s_write_latency s, ns_perf = [] \<rparr>"

lemma parse_written:
  assumes "hist_wf (s_read_latency s)" "hist_wf (s_write_latency s)"
  shows "parse_csv (write_stats_csv node_id s) =
    Some (stats_of_run node_id s)"
proof -
  have len: "length (h_counts (s_read_latency s)) = BUCKETS" "length (h_counts (s_write_latency s)) = BUCKETS"
    using assms by (simp_all add: hist_wf_def)
  let ?rows = "meta_line node_id s # bucket_rows ''READ'' (h_counts (s_read_latency s)) 0
    @ bucket_rows ''WRITE'' (h_counts (s_write_latency s)) 0"
  have "\<forall>l\<in>set ?rows. CHR 0x0A \<notin> set l"
    using bucket_rows_lines by (auto simp: meta_line_def newline_free_show)
  from split_lines_concat [OF this] have "split_lines (write_stats_csv node_id s) = ?rows"
    by (simp add: write_stats_csv_def bucket_lines_rows len)
  then show ?thesis
    by (simp add: parse_csv_def parse_row_meta parse_rows_append parse_bucket_rows len empty_stats_def stats_of_run_def
        snapshot_self assms)
qed

text \<open>Property C36: statistics files round-trip. Reading back the file that \<open>write_stats_csv\<close> writes gives
  the node id, the times, the counters and the clock rate, and both latency histograms with every
  bucket.\<close>

theorem stats_csv_roundtrip:
  assumes "hist_wf (s_read_latency s)" "hist_wf (s_write_latency s)"
  shows "parse_csv (write_stats_csv node_id s) =
    Some \<lparr> ns_node_id = node_id, ns_real_start_ns = s_real_start_ns s, ns_work_done_ns = s_work_done_ns s,
      ns_real_end_ns = s_real_end_ns s, ns_ok_ops = s_ok_ops s, ns_read_ops = s_read_ops s,
      ns_write_ops = s_write_ops s, ns_tsc_hz = s_tsc_hz s, ns_read_latency = s_read_latency s,
      ns_write_latency = s_write_latency s, ns_perf = [] \<rparr>"
  using parse_written [OF assms] by (simp add: stats_of_run_def)

theorem stats_csv_roundtrip_witness:
  "\<exists>s. map_option ns_read_latency (parse_csv (write_stats_csv 2 s)) = Some (hist_of [5, 700]) \<and>
     map_option ns_ok_ops (parse_csv (write_stats_csv 2 s)) = Some 2"
proof -
  let ?s = "\<lparr> s_total_ops = 2, s_read_ops = 2, s_write_ops = 0, s_ok_ops = 2, s_error_ops = 0, s_real_start_ns = 1,
    s_work_done_ns = 2, s_real_end_ns = 3, s_tsc_hz = 0, s_read_latency = hist_of [5, 700],
    s_write_latency = empty_histogram \<rparr>"
  have "hist_wf (hist_of xs)" for xs by (simp add: hist_of_def hist_wf_fold hist_wf_empty)
  with stats_csv_roundtrip [of ?s 2] hist_wf_empty show ?thesis by (intro exI [of _ ?s]) simp
qed


section \<open>The old META format\<close>

text \<open>rows without \<open>work_done_ns\<close>. A META row that ends after the third number is read as the
  old format. An old row that goes on with its counters is taken for a new one without an error: its end
  time becomes the time of completed work, and every later number shifts by one field, the clock rate
  being read twice.\<close>

theorem old_meta_rows:
  "parse_row (''META,'' @ show_u64 i @ '','' @ show_u64 st @ '','' @ show_u64 en) out =
     Some (out\<lparr>ns_node_id := i, ns_real_start_ns := st, ns_work_done_ns := 0, ns_real_end_ns := en\<rparr>) \<and>
   parse_row (''META,'' @ show_u64 i @ '','' @ show_u64 st @ '','' @ show_u64 en @ '','' @ show_u64 ok @ '',''
       @ show_u64 rd @ '','' @ show_u64 wr @ '','' @ show_u64 hz) out =
     Some (out\<lparr>ns_node_id := i, ns_real_start_ns := st, ns_work_done_ns := en, ns_real_end_ns := ok,
       ns_ok_ops := rd, ns_read_ops := wr, ns_write_ops := hz, ns_tsc_hz := hz\<rparr>)"
proof -
  have meta: "parse_row (''META'' @ CHR '','' # rest) out = parse_meta (Some rest) out" for rest
    by (subst parse_row_tag) simp_all
  have again: "next_u64 (show_u64 x, None) = Some (x, show_u64 x, None)" for x
    by (simp add: next_u64_def stoull_show_u64)
  show ?thesis
    using meta [of "show_u64 i @ CHR '','' # show_u64 st @ CHR '','' # show_u64 en"]
      meta [of "show_u64 i @ CHR '','' # show_u64 st @ CHR '','' # show_u64 en @ CHR '','' # show_u64 ok
        @ CHR '','' # show_u64 rd @ CHR '','' # show_u64 wr @ CHR '','' # show_u64 hz"]
      getline_tok_field [OF comma_free(1), of ok]
    by (simp add: parse_meta_def stream_laws again stoull_show_u64 del: getline_tok.simps(2))
qed

section \<open>Cluster totals\<close>

text \<open>The time a node was busy, and the clock rates that occur.\<close>

definition node_span :: "NodeStats \<Rightarrow> u64" where
  "node_span n = (if ns_real_start_ns n < ns_real_end_ns n then ns_real_end_ns n - ns_real_start_ns n else 0)"

definition rates :: "NodeStats list \<Rightarrow> u64 list" where
  "rates nodes = filter (\<lambda>hz. hz \<noteq> 0) (map ns_tsc_hz nodes)"

lemma ns_to_s_mono: "mono ld \<Longrightarrow> x \<le> y \<Longrightarrow> ns_to_s ld x \<le> ns_to_s ld y"
proof -
  assume a: "mono ld" "x \<le> y"
  then have "real (unat x) \<le> real (unat y)" by (simp only: of_nat_le_iff word_le_nat_alt)
  then have "ld (real (unat x)) / 10 ^ 9 \<le> ld (real (unat y)) / 10 ^ 9"
    by (intro divide_right_mono monoD [OF a(1)]) simp_all
  then show ?thesis unfolding ns_to_s_def by (rule monoD [OF a(1)])
qed

lemma duration_loop_max:
  assumes "mono ld" "ld 0 = 0"
  shows "duration_loop ld nodes (ns_to_s ld m) = ns_to_s ld (fold max (map node_span nodes) m)"
proof (induction nodes arbitrary: m)
  case (Cons n nodes)
  have "(if ns_real_start_ns n < ns_real_end_ns n
      then let d = ns_to_s ld (ns_real_end_ns n - ns_real_start_ns n) in if ns_to_s ld m < d then d else ns_to_s ld m
      else ns_to_s ld m) = ns_to_s ld (max (node_span n) m)"
    using ns_to_s_mono [OF assms(1), of "node_span n" m] ns_to_s_mono [OF assms(1), of m "node_span n"]
    by (auto simp: Let_def node_span_def max_def not_less intro: antisym)
  then show ?case using Cons [of "max (node_span n) m"] by simp
qed simp

text \<open>cluster duration. With any monotone rounding, the duration of a run is the longest time
  that a single node took, converted to seconds: times of different nodes, whose clocks are not
  synchronised, are never subtracted.\<close>

theorem cluster_duration_is_longest:
  assumes "mono ld" "ld 0 = 0"
  shows "duration_loop ld nodes 0 = ns_to_s ld (fold max (map node_span nodes) 0)"
proof -
  have "ns_to_s ld 0 = 0" using assms(2) by (simp add: ns_to_s_def)
  with duration_loop_max [OF assms, of nodes 0] show ?thesis by simp
qed

theorem cluster_duration_is_longest_witness:
  "duration_loop (\<lambda>x. x) [empty_stats\<lparr>ns_real_start_ns := 900, ns_real_end_ns := 1000\<rparr>,
     empty_stats\<lparr>ns_real_start_ns := 5, ns_real_end_ns := 45\<rparr>] 0 = 100 / 10 ^ 9"
  using cluster_duration_is_longest [of "\<lambda>x. x" "[empty_stats\<lparr>ns_real_start_ns := 900, ns_real_end_ns := 1000\<rparr>,
     empty_stats\<lparr>ns_real_start_ns := 5, ns_real_end_ns := 45\<rparr>]"]
  by (simp add: mono_def node_span_def ns_to_s_def)

lemma fold_add_node:
  "cs_total_ok (fold add_node nodes cs) = cs_total_ok cs + sum_list (map ns_ok_ops nodes)"
  "cs_total_reads (fold add_node nodes cs) = cs_total_reads cs + sum_list (map ns_read_ops nodes)"
  "cs_total_writes (fold add_node nodes cs) = cs_total_writes cs + sum_list (map ns_write_ops nodes)"
  "cs_read (fold add_node nodes cs) = foldl hist_merge (cs_read cs) (map ns_read_latency nodes)"
  "cs_write (fold add_node nodes cs) = foldl hist_merge (cs_write cs) (map ns_write_latency nodes)"
  by (induction nodes arbitrary: cs) (simp_all add: add_node_def ac_simps)

lemma fold_add_node_rate:
  "cs_tsc_hz (fold add_node nodes cs) = (if cs_tsc_hz cs \<noteq> 0 then cs_tsc_hz cs else hd (rates nodes @ [0])) \<and>
   cs_tsc_mismatch (fold add_node nodes cs) = (cs_tsc_mismatch cs \<or>
     (\<exists>hz\<in>set (rates nodes). hz \<noteq> hd (filter (\<lambda>x. x \<noteq> 0) [cs_tsc_hz cs] @ rates nodes)))"
proof (induction nodes arbitrary: cs)
  case (Cons n nodes)
  have r: "rates (n # nodes) = (if ns_tsc_hz n \<noteq> 0 then [ns_tsc_hz n] else []) @ rates nodes" by (simp add: rates_def)
  let ?cs = "add_node n cs"
  have step: "cs_tsc_hz ?cs = (if ns_tsc_hz n \<noteq> 0 \<and> cs_tsc_hz cs = 0 then ns_tsc_hz n else cs_tsc_hz cs)"
    "cs_tsc_mismatch ?cs = (cs_tsc_mismatch cs \<or> (ns_tsc_hz n \<noteq> 0 \<and> cs_tsc_hz cs \<noteq> 0 \<and> cs_tsc_hz cs \<noteq> ns_tsc_hz n))"
    by (simp_all add: add_node_def)
  from Cons [of ?cs] show ?case
    by (cases "ns_tsc_hz n = 0"; cases "cs_tsc_hz cs = 0"; simp add: r step; metis?)
qed (simp add: rates_def)

text \<open>cluster totals. The counters of the cluster are the sums over its nodes, its histograms
  the merged ones, its clock rate the first one reported, and the mismatch warning is given exactly when
  two nodes report different rates.\<close>

theorem cluster_totals:
  "cs_total_ok (cluster_stats nodes) = sum_list (map ns_ok_ops nodes) \<and>
   cs_total_reads (cluster_stats nodes) = sum_list (map ns_read_ops nodes) \<and>
   cs_total_writes (cluster_stats nodes) = sum_list (map ns_write_ops nodes) \<and>
   cs_read (cluster_stats nodes) = foldl hist_merge empty_histogram (map ns_read_latency nodes) \<and>
   cs_write (cluster_stats nodes) = foldl hist_merge empty_histogram (map ns_write_latency nodes) \<and>
   cs_tsc_hz (cluster_stats nodes) = hd (rates nodes @ [0]) \<and>
   (cs_tsc_mismatch (cluster_stats nodes) \<longleftrightarrow> (\<exists>x\<in>set (rates nodes). \<exists>y\<in>set (rates nodes). x \<noteq> y))"
proof -
  have "(\<exists>hz\<in>set (rates nodes). hz \<noteq> hd (rates nodes)) \<longleftrightarrow> (\<exists>x\<in>set (rates nodes). \<exists>y\<in>set (rates nodes). x \<noteq> y)"
    by (metis hd_in_set empty_iff list.set(1))
  with fold_add_node [of nodes cluster_zero] fold_add_node_rate [of nodes cluster_zero] show ?thesis
    by (simp add: cluster_stats_def) (simp add: cluster_zero_def)
qed

section \<open>Upper ends of buckets\<close>

lemma bucket_upper_octave:
  assumes "e < 64" "s < 16" "16 * e + s < 1023"
  shows "unat (bucket_upper_value (16 * e + s)) = (if s = 15 then 2 ^ Suc e else 2 ^ e + (s + 1) * octave_step e)"
proof (cases "s = 15")
  case True
  then have "int (16 * e + s) + 1 = int (16 * Suc e + 0)" by simp
  with True assms bucket_lower_octave [of "Suc e" 0] show ?thesis
    by (simp only: bucket_upper_value_def) (simp add: BUCKETS_def SUB_BUCKETS_def MAX_EXP_def)
next
  case False
  have "int (16 * e + s) + 1 = int (16 * e + Suc s)" by simp
  with False assms bucket_lower_octave [of e "Suc s"] show ?thesis
    by (simp only: bucket_upper_value_def) (simp add: BUCKETS_def SUB_BUCKETS_def MAX_EXP_def)
qed

lemma small_sample: "\<not> 2 \<le> unat v \<Longrightarrow> index_for v = 0"
proof -
  assume "\<not> 2 \<le> unat v"
  then have "unat v = 0 \<or> unat v = 1" by linarith
  then have "v = 0 \<or> v = 1" by (auto simp: word_unat_eq_iff)
  then show ?thesis using index_for_octave [of 1 0] by (auto simp: index_for_def)
qed

lemma bucket_0: "unat (bucket_lower_value 0) = 0" "unat (bucket_upper_value 0) = 2"
  using bucket_upper_octave [of 0 0] by (simp_all add: bucket_lower_value_def octave_step_def)

lemma sample_below_upper:
  assumes "index_for v < 1023"
  shows "unat v < unat (bucket_upper_value (index_for v))"
proof (cases "2 \<le> unat v")
  case True
  then obtain e s where e: "e < 64" "s < 16" "2 ^ e \<le> unat v" "unat v < 2 ^ Suc e" "index_for v = 16 * e + s"
    "s = min 15 ((unat v - 2 ^ e) div octave_step e)" by (rule bucket_of_sample)
  show ?thesis
  proof (cases "s = 15")
    case False
    then have "(unat v - 2 ^ e) div octave_step e < Suc s" using e(6) by simp
    then have "unat v - 2 ^ e < Suc s * octave_step e"
      using octave_step_pos [of e] by (simp add: div_less_iff_less_mult)
    then have "unat v < 2 ^ e + Suc s * octave_step e" using e(3) by linarith
    with e(5) False assms bucket_upper_octave [OF e(1,2)] show ?thesis by simp
  qed (use e assms bucket_upper_octave [OF e(1,2)] in simp)
qed (simp add: small_sample bucket_0)

text \<open>bucket ranges. A sample lies at or above the lower end of its bucket and below the upper
  end that the mean is computed with, except in the last bucket, where doubling the lower end overflows
  and the upper end comes out below the lower one.\<close>

theorem bucket_upper_bounds:
  "bucket_lower_value (int (index_for v)) \<le> v \<and>
   (index_for v < 1023 \<longrightarrow> v < bucket_upper_value (index_for v)) \<and>
   bucket_upper_value 1023 < bucket_lower_value 1023"
proof (intro conjI impI)
  show "bucket_lower_value (int (index_for v)) \<le> v" using bucket_lower_le by (simp add: word_le_nat_alt)
  show "v < bucket_upper_value (index_for v)" if "index_for v < 1023"
    using sample_below_upper [OF that] by (simp add: word_less_nat_alt)
  have "unat (bucket_lower_value 1023) = 2 ^ 63 + 15 * (2 ^ 59 - 1)"
    using bucket_lower_octave [of 63 15] by (simp add: octave_step_def)
  then have "bucket_lower_value 1023 = of_nat (2 ^ 63 + 15 * (2 ^ 59 - 1))"
    by (metis word_unat_eq_iff unat_of_nat_u64 unat_u64_bound)
  then show "bucket_upper_value 1023 < bucket_lower_value 1023"
    by (simp add: bucket_upper_value_def BUCKETS_def SUB_BUCKETS_def MAX_EXP_def push_bit_eq_mult)
qed

theorem bucket_upper_bounds_witness: "1000 < bucket_upper_value (index_for 1000)"
proof -
  have "index_for 1000 \<le> index_for 10000" "index_for 10000 < 1023"
    using index_for_mono [of 1000 10000] index_for_octave [of 10000 13] by (simp_all add: octave_step_def)
  with bucket_upper_bounds [of 1000] show ?thesis by simp
qed

section \<open>Percentiles\<close>

text \<open>The rank that \<open>quantile_value\<close> looks for among \<open>n\<close> samples.\<close>

definition rank_of :: "(real \<Rightarrow> real) \<Rightarrow> real \<Rightarrow> nat \<Rightarrow> nat" where
  "rank_of db q n = max 1 (nat \<lfloor>db (q * real n)\<rfloor>)"

lemma quantile_value_rank:
  assumes db: "mono db" "\<And>k. k \<le> 2 ^ 53 \<Longrightarrow> db (real k) = real k"
    and q: "0 \<le> q" "q \<le> 1" and n: "0 < length xs" "length xs \<le> 2 ^ 53"
  shows "1 \<le> rank_of db q (length xs)" "rank_of db q (length xs) \<le> length xs"
    and "quantile_value db q (hist_of xs) = bucket_lower_value (int (index_for (sort xs ! (rank_of db q (length xs) - 1))))"
proof -
  let ?n = "length xs"
  let ?x = "db (q * real ?n)"
  have u: "unat (h_total (hist_of xs)) = ?n" using n by (simp add: hist_of_counts unat_of_nat_u64)
  have dn: "db (real ?n) = real ?n" using db(2) [OF n(2)] .
  have "q * real ?n \<le> real ?n" using q by (simp add: mult_left_le_one_le)
  then have hi: "?x \<le> real ?n" using monoD [OF db(1)] dn by metis
  have "db 0 \<le> ?x" using q by (intro monoD [OF db(1)]) simp
  then have lo: "0 \<le> ?x" using db(2) [of 0] by simp
  have fl: "0 \<le> \<lfloor>?x\<rfloor>" "\<lfloor>?x\<rfloor> \<le> int ?n" using lo hi by (simp_all add: floor_le_iff)
  show r: "1 \<le> rank_of db q ?n" "rank_of db q ?n \<le> ?n" using fl n(1) by (simp_all add: rank_of_def nat_le_iff Suc_le_eq)
  have "trunc_u64 ?x = of_nat (nat \<lfloor>?x\<rfloor>)" using fl(1) by (simp add: trunc_u64_def)
  moreover have "unat (of_nat (nat \<lfloor>?x\<rfloor>) :: u64) = nat \<lfloor>?x\<rfloor>" using fl n(2) by (intro unat_of_nat_u64) simp
  ultimately have t: "unat (trunc_u64 ?x) = nat \<lfloor>?x\<rfloor>" by simp
  define t where "t = (if trunc_u64 ?x = 0 then 1 else trunc_u64 ?x)"
  have ut: "unat t = rank_of db q ?n" 
  proof -
    have "unat t = max 1 (unat (trunc_u64 ?x))"
      using unat_eq_0_iff [of "trunc_u64 ?x"] by (auto simp: t_def max_def)
    then show ?thesis by (simp only: t rank_of_def)
  qed
  have "h_total (hist_of xs) \<noteq> 0" using u n(1) by auto
  moreover have "(if q \<le> 0 then 0 else if q \<ge> 1 then 1 else q) = q" using q by auto
  ultimately have "quantile_value db q (hist_of xs) = quantile_at (trunc_u64 ?x) (hist_of xs)"
    by (simp add: quantile_value_def u dn)
  also have "\<dots> = quantile_at t (hist_of xs)" by (simp add: quantile_at_def t_def)
  also have "\<dots> = bucket_lower_value (int (index_for (sort xs ! (unat t - 1))))"
    using r n ut by (intro quantile_rank) simp_all
  finally show "quantile_value db q (hist_of xs) = bucket_lower_value (int (index_for (sort xs ! (rank_of db q ?n - 1))))"
    by (simp add: ut)
qed

lemma foldl_merge: "foldl hist_merge (hist_of ys) (map hist_of xss) = hist_of (ys @ concat xss)"
  by (induction xss arbitrary: ys) (simp_all add: hist_merge_of)

lemma hist_wf_of: "hist_wf (hist_of xs)"
  by (simp add: hist_of_def hist_wf_fold hist_wf_empty)

lemma read_all_written:
  assumes "\<forall>(path, i, s)\<in>set runs. files path = Some (write_stats_csv i s) \<and>
    hist_wf (s_read_latency s) \<and> hist_wf (s_write_latency s)"
  shows "read_all files (map fst runs) = Inr (map (\<lambda>(path, i, s). stats_of_run i s) runs)"
  using assms by (induction runs) (auto simp: parse_written)

text \<open>
  The report on a list of samples: median and 99th percentile by rank, and the mean of the buckets of all of
  them, which is close to the mean of the samples.
\<close>

definition sample_quantile :: "(real \<Rightarrow> real) \<Rightarrow> real \<Rightarrow> u64 list \<Rightarrow> u64" where
  "sample_quantile db q xs =
     (if xs = [] then 0 else bucket_lower_value (int (index_for (sort xs ! (rank_of db q (length xs) - 1)))))"

definition sample_report :: "(real \<Rightarrow> real) \<Rightarrow> (real \<Rightarrow> real) \<Rightarrow> u64 \<Rightarrow> u64 list \<Rightarrow> latency_report" where
  "sample_report ld db hz xs =
     (let p50 = sample_quantile db (db (1 / 2)) xs; p99 = sample_quantile db (db (99 / 100)) xs;
          mean = mean_cycles_from_hist ld (hist_of xs); us = (\<lambda>c. db (cycles_to_us ld c hz))
      in if hz = 0 then Cycles p50 p99 (db mean) else Micros (us p50) (us p99) (us (trunc_u64 mean)))"

lemma quantile_of_samples:
  assumes "mono db" "\<And>k. k \<le> 2 ^ 53 \<Longrightarrow> db (real k) = real k" "0 \<le> q" "q \<le> 1" "length xs \<le> 2 ^ 53"
  shows "quantile_value db q (hist_of xs) = sample_quantile db q xs"
proof (cases "xs = []")
  case True
  then show ?thesis by (simp add: sample_quantile_def quantile_value_def hist_of_def empty_histogram_def)
next
  case False
  with quantile_value_rank(3) [OF assms(1-4), of xs] assms(5) show ?thesis by (simp add: sample_quantile_def)
qed

lemma report_of_samples:
  assumes db: "mono db" "\<And>k. k \<le> 2 ^ 53 \<Longrightarrow> db (real k) = real k" and len: "length xs \<le> 2 ^ 53"
  shows "report_latency ld db hz (hist_of xs) = sample_report ld db hz xs"
proof -
  have unit: "db 0 = 0" "db 1 = 1" using db(2) [of 0] db(2) [of 1] by simp_all
  have "0 \<le> db q \<and> db q \<le> 1" if "0 \<le> q" "q \<le> 1" for q using monoD [OF db(1) that(1)] monoD [OF db(1) that(2)] unit by simp
  then have "0 \<le> db (1 / 2) \<and> db (1 / 2) \<le> 1" "0 \<le> db (99 / 100) \<and> db (99 / 100) \<le> 1" by simp_all
  moreover have "quantile_value db q (hist_of xs) = sample_quantile db q xs" if "0 \<le> q \<and> q \<le> 1" for q
    using quantile_of_samples [of db q xs] db that len by blast
  ultimately show ?thesis by (simp add: report_latency_def sample_report_def)
qed

lemma merged_samples:
  assumes "map f nodes = map hist_of xss"
  shows "foldl hist_merge empty_histogram (map f nodes) = hist_of (concat xss)"
  using foldl_merge [of "[]" xss] by (simp add: assms hist_of_def)

lemma cluster_figures:
  "cs_total_ok (cluster_stats nodes) = sum_list (map ns_ok_ops nodes)"
  "cs_total_reads (cluster_stats nodes) = sum_list (map ns_read_ops nodes)"
  "cs_total_writes (cluster_stats nodes) = sum_list (map ns_write_ops nodes)"
  "cs_read (cluster_stats nodes) = foldl hist_merge empty_histogram (map ns_read_latency nodes)"
  "cs_write (cluster_stats nodes) = foldl hist_merge empty_histogram (map ns_write_latency nodes)"
  "cs_tsc_hz (cluster_stats nodes) = hd (rates nodes @ [0])"
  using fold_add_node [of nodes cluster_zero] fold_add_node_rate [of nodes cluster_zero]
  by (simp_all add: cluster_stats_def) (simp_all add: cluster_zero_def)

lemma node_reports:
  assumes db: "mono db" "\<And>k. k \<le> 2 ^ 53 \<Longrightarrow> db (real k) = real k"
    and runs: "\<forall>(path, i, s)\<in>set runs. files path = Some (write_stats_csv i s) \<and>
        s_read_latency s = hist_of (reads path) \<and> s_write_latency s = hist_of (writes path)"
    and each: "\<And>path i s. (path, i, s) \<in> set runs \<Longrightarrow> length (reads path) \<le> 2 ^ 53 \<and> length (writes path) \<le> 2 ^ 53"
  shows "map sm_read (su_per_node (summarize ld db (map (\<lambda>(path, i, s). stats_of_run i s) runs))) =
      map (\<lambda>(path, i, s). sample_report ld db (s_tsc_hz s) (reads path)) runs"
    "map sm_write (su_per_node (summarize ld db (map (\<lambda>(path, i, s). stats_of_run i s) runs))) =
      map (\<lambda>(path, i, s). sample_report ld db (s_tsc_hz s) (writes path)) runs"
proof -
  have "report_latency ld db hz (s_read_latency s) = sample_report ld db hz (reads path) \<and>
      report_latency ld db hz (s_write_latency s) = sample_report ld db hz (writes path)"
    if "(path, i, s) \<in> set runs" for path i s hz
    using runs each [OF that] that report_of_samples [of db "reads path" ld hz] report_of_samples [of db "writes path" ld hz] db
    by auto
  then show "map sm_read (su_per_node (summarize ld db (map (\<lambda>(path, i, s). stats_of_run i s) runs))) =
      map (\<lambda>(path, i, s). sample_report ld db (s_tsc_hz s) (reads path)) runs"
    "map sm_write (su_per_node (summarize ld db (map (\<lambda>(path, i, s). stats_of_run i s) runs))) =
      map (\<lambda>(path, i, s). sample_report ld db (s_tsc_hz s) (writes path)) runs"
    by (auto simp: summarize_def Let_def node_summary_def stats_of_run_def)
qed

text \<open>Property C22: the report on the cluster. When every node writes its counters and the histograms of its read and of its
  write latencies, the aggregator reads all files without an error. The totals of completed operations,
  reads and writes that it reports are the sums over the nodes, the clock rate is the first one that is
  known, and the medians, 99th percentiles and means that it reports for reads and for writes are those of all
  samples of all nodes, and in the part on a single node those of its samples: a percentile is the
  lower end of the bucket of the sample of that rank. The rounding of \<open>double\<close> is monotone and exact on the
  integers up to \<open>2 ^ 53\<close>.\<close>

theorem cluster_percentiles:
  assumes db: "mono db" "\<And>k. k \<le> 2 ^ 53 \<Longrightarrow> db (real k) = real k"
    and runs: "runs \<noteq> []" "\<forall>(path, i, s)\<in>set runs. files path = Some (write_stats_csv i s) \<and>
        s_read_latency s = hist_of (reads path) \<and> s_write_latency s = hist_of (writes path)"
    and all: "rs = concat (map (reads \<circ> fst) runs)" "ws = concat (map (writes \<circ> fst) runs)"
      "length rs \<le> 2 ^ 53" "length ws \<le> 2 ^ 53"
  shows "\<exists>su hz. aggregate ld db files (map fst runs) = Inr su \<and> su_nodes su = length runs \<and>
    cs_total_ok (su_cluster su) = (\<Sum>(path, i, s)\<leftarrow>runs. s_ok_ops s) \<and>
    cs_total_reads (su_cluster su) = (\<Sum>(path, i, s)\<leftarrow>runs. s_read_ops s) \<and>
    cs_total_writes (su_cluster su) = (\<Sum>(path, i, s)\<leftarrow>runs. s_write_ops s) \<and>
    hz = hd (filter (\<lambda>hz. hz \<noteq> 0) (map (\<lambda>(path, i, s). s_tsc_hz s) runs) @ [0]) \<and>
    su_read su = sample_report ld db hz rs \<and> su_write su = sample_report ld db hz ws \<and>
    map sm_read (su_per_node su) = map (\<lambda>(path, i, s). sample_report ld db (s_tsc_hz s) (reads path)) runs \<and>
    map sm_write (su_per_node su) = map (\<lambda>(path, i, s). sample_report ld db (s_tsc_hz s) (writes path)) runs"
proof -
  let ?nodes = "map (\<lambda>(path, i, s). stats_of_run i s) runs"
  let ?su = "summarize ld db ?nodes" and ?cs = "cluster_stats ?nodes"
  have "read_all files (map fst runs) = Inr ?nodes"
    using runs(2) hist_wf_of by (intro read_all_written) fastforce
  then have agg: "aggregate ld db files (map fst runs) = Inr ?su" using runs(1) by (simp add: aggregate_def)
  have maps: "map ns_ok_ops ?nodes = map (\<lambda>(path, i, s). s_ok_ops s) runs"
    "map ns_read_ops ?nodes = map (\<lambda>(path, i, s). s_read_ops s) runs"
    "map ns_write_ops ?nodes = map (\<lambda>(path, i, s). s_write_ops s) runs"
    "map ns_tsc_hz ?nodes = map (\<lambda>(path, i, s). s_tsc_hz s) runs"
    "map ns_read_latency ?nodes = map hist_of (map (reads \<circ> fst) runs)"
    "map ns_write_latency ?nodes = map hist_of (map (writes \<circ> fst) runs)"
    using runs(2) by (auto simp: stats_of_run_def)
  have hists: "cs_read ?cs = hist_of rs" "cs_write ?cs = hist_of ws"
    unfolding cluster_figures all using merged_samples [OF maps(5)] merged_samples [OF maps(6)] by simp_all
  have each: "length (reads path) \<le> 2 ^ 53 \<and> length (writes path) \<le> 2 ^ 53" if "(path, i, s) \<in> set runs" for path i s
    using all that member_le_sum_list [of "length (reads path)" "map (length \<circ> reads \<circ> fst) runs"]
      member_le_sum_list [of "length (writes path)" "map (length \<circ> writes \<circ> fst) runs"]
    by (force simp: length_concat comp_def)
  have per: "map sm_read (su_per_node ?su) = map (\<lambda>(path, i, s). sample_report ld db (s_tsc_hz s) (reads path)) runs"
    "map sm_write (su_per_node ?su) = map (\<lambda>(path, i, s). sample_report ld db (s_tsc_hz s) (writes path)) runs"
    using node_reports [of db runs files reads writes ld] db runs(2) each by blast+
  show ?thesis
  proof (intro exI conjI)
    show "aggregate ld db files (map fst runs) = Inr ?su" by (rule agg)
    show "su_read ?su = sample_report ld db (cs_tsc_hz ?cs) rs" "su_write ?su = sample_report ld db (cs_tsc_hz ?cs) ws"
      using report_of_samples [of db rs ld] report_of_samples [of db ws ld] db all(3,4) hists
      by (simp_all add: summarize_def Let_def)
    show "cs_tsc_hz ?cs = hd (filter (\<lambda>hz. hz \<noteq> 0) (map (\<lambda>(path, i, s). s_tsc_hz s) runs) @ [0])"
      unfolding cluster_figures rates_def maps(4) ..
    show "cs_total_ok (su_cluster ?su) = (\<Sum>(path, i, s)\<leftarrow>runs. s_ok_ops s)"
      "cs_total_reads (su_cluster ?su) = (\<Sum>(path, i, s)\<leftarrow>runs. s_read_ops s)"
      "cs_total_writes (su_cluster ?su) = (\<Sum>(path, i, s)\<leftarrow>runs. s_write_ops s)"
      unfolding maps(1-3) [symmetric] cluster_figures(1-3) [symmetric] by (simp_all add: summarize_def Let_def)
    show "su_nodes ?su = length runs" by (simp add: summarize_def Let_def)
  qed (fact per)+
qed

text \<open>Two nodes, the first with three reads and the second with a write; only the second knows its clock rate.\<close>

theorem cluster_percentiles_witness:
  "\<exists>su. aggregate (\<lambda>x. x) (\<lambda>x. x)
       (\<lambda>path. Some (if path = ''n1''
          then write_stats_csv 1 (finish_stats 1 2 3 0 (stats (sample_node\<lparr>n_read_latency := hist_of [9, 5, 7]\<rparr>)))
          else write_stats_csv 2 (finish_stats 1 2 3 1000000 (stats (sample_node\<lparr>n_write_latency := hist_of [64]\<rparr>)))))
       [''n1'', ''n2''] = Inr su \<and>
     su_read su = sample_report (\<lambda>x. x) (\<lambda>x. x) 1000000 [9, 5, 7] \<and>
     su_write su = sample_report (\<lambda>x. x) (\<lambda>x. x) 1000000 [64] \<and>
     sample_quantile (\<lambda>x. x) (99 / 100) [9, 5, 7] = bucket_lower_value (int (index_for 7))"
proof -
  define s1 where "s1 = finish_stats 1 2 3 0 (stats (sample_node\<lparr>n_read_latency := hist_of [9, 5, 7]\<rparr>))"
  define s2 where "s2 = finish_stats 1 2 3 1000000 (stats (sample_node\<lparr>n_write_latency := hist_of [64]\<rparr>))"
  have snap: "hist_snapshot h = h" if "hist_wf h" for h using snapshot_self [OF that] by (simp add: hist_snapshot_def)
  have "n_write_latency sample_node = hist_of []" "n_read_latency sample_node = hist_of []"
    by (simp_all add: sample_node_def bandle_new_def hist_of_def)
  then have s: "s_read_latency s1 = hist_of [9, 5, 7]" "s_write_latency s1 = hist_of []"
    "s_read_latency s2 = hist_of []" "s_write_latency s2 = hist_of [64]" "s_tsc_hz s1 = 0" "s_tsc_hz s2 = 1000000"
    by (simp_all add: s1_def s2_def finish_stats_def stats_def snap hist_wf_of)
  let ?reads = "\<lambda>path. if path = ''n1'' then [9, 5, 7] else []" and ?writes = "\<lambda>path. if path = ''n1'' then [] else [64]"
  let ?files = "\<lambda>path. Some (if path = ''n1'' then write_stats_csv 1 s1 else write_stats_csv 2 s2)"
  have "\<forall>(path, i, x)\<in>set [(''n1'', 1, s1), (''n2'', 2, s2)]. ?files path = Some (write_stats_csv i x) \<and>
    s_read_latency x = hist_of (?reads path) \<and> s_write_latency x = hist_of (?writes path)" using s by simp
  from cluster_percentiles [OF _ _ _ this refl refl, of "\<lambda>x. x" "\<lambda>x. x"] s obtain su where
    su: "aggregate (\<lambda>x. x) (\<lambda>x. x) ?files [''n1'', ''n2''] = Inr su"
      "su_read su = sample_report (\<lambda>x. x) (\<lambda>x. x) 1000000 [9, 5, 7]" "su_write su = sample_report (\<lambda>x. x) (\<lambda>x. x) 1000000 [64]"
    by (auto simp: mono_def)
  have "rank_of (\<lambda>x. x) (99 / 100) (length [9, 5, 7 :: u64]) = 2" by (simp add: rank_of_def)
  then have "sample_quantile (\<lambda>x. x) (99 / 100) [9, 5, 7] = bucket_lower_value (int (index_for 7))"
    unfolding sample_quantile_def by simp
  with su show ?thesis unfolding s1_def s2_def by blast
qed

section \<open>Means\<close>

definition bucket_mid :: "nat \<Rightarrow> real" where
  "bucket_mid i = (real (unat (bucket_lower_value (int i))) + real (unat (bucket_upper_value i))) / 2"

lemma bucket_width:
  assumes "index_for v < 1023" "2 \<le> unat v"
  shows "16 * (unat (bucket_upper_value (index_for v)) - unat (bucket_lower_value (int (index_for v)))) \<le> 16 + unat v"
proof -
  from assms(2) obtain e s where e: "e < 64" "s < 16" "2 ^ e \<le> unat v" "unat v < 2 ^ Suc e" "index_for v = 16 * e + s"
    "s = min 15 ((unat v - 2 ^ e) div octave_step e)"
    and low: "unat (bucket_lower_value (int (index_for v))) = 2 ^ e + s * octave_step e" by (rule bucket_of_sample)
  note up = bucket_upper_octave [OF e(1,2), folded e(5), OF assms(1)]
  have step: "16 * octave_step e \<le> 16 + unat v" using e(3) by (auto simp: octave_step_def max_def)
  show ?thesis
  proof (cases "s = 15")
    case True
    with e(5) assms(1) have "e < 63" by simp
    have "4 \<le> e"
    proof (rule ccontr)
      assume "\<not> 4 \<le> e"
      then have "e = 0 \<or> e = 1 \<or> e = 2 \<or> e = 3" by auto
      with e(3,4,6) True show False by (auto simp: octave_step_def)
    qed
    then obtain k where "e = k + 4" by (metis add.commute le_Suc_ex)
    with \<open>e < 63\<close> have "octave_step e = 2 ^ k" "(2::nat) ^ e = 16 * 2 ^ k" by (simp_all add: octave_step_def power_add)
    with up low True e(3) show ?thesis by simp
  next
    case False
    with up low step show ?thesis by simp
  qed
qed

lemma mid_close:
  assumes "lo \<le> v" "v < hi" "16 * (hi - lo) \<le> 16 + v"
  shows "\<bar>(real lo + real hi) / 2 - real v\<bar> \<le> 1 + real v / 32"
proof -
  have "16 * hi \<le> 16 + v + 16 * lo" using assms by linarith
  then have "real (16 * hi) \<le> real (16 + v + 16 * lo)" by (simp only: of_nat_le_iff)
  moreover have "real lo \<le> real v" "real v \<le> real hi" using assms by simp_all
  ultimately have "16 * (real hi - real lo) \<le> 16 + real v" "real lo \<le> real v" "real v \<le> real hi" by simp_all
  then show ?thesis unfolding abs_le_iff by (simp add: field_simps)
qed

lemma bucket_mid_error:
  assumes "index_for v < 1023"
  shows "\<bar>bucket_mid (index_for v) - real (unat v)\<bar> \<le> 1 + real (unat v) / 32"
proof (cases "2 \<le> unat v")
  case True
  show ?thesis unfolding bucket_mid_def
    by (rule mid_close [OF bucket_lower_le sample_below_upper [OF assms] bucket_width [OF assms True]])
next
  case False
  have small: "\<bar>1 - real k\<bar> \<le> 1 + real k / 32" if "k < 2" for k :: nat using that by (simp add: less_2_cases_iff) auto
  have mid: "bucket_mid (index_for v) = 1" unfolding small_sample [OF False] using bucket_0 by (simp add: bucket_mid_def)
  show ?thesis unfolding mid by (rule small) (use False in simp)
qed

lemma mean_loop_exact:
  "mean_loop (\<lambda>x. x) cs i acc tot =
     (acc + (\<Sum>j<length cs. bucket_mid (i + j) * real (unat (cs ! j))), tot + sum_list cs)"
proof (induction cs arbitrary: i acc tot)
  case (Cons c cs)
  have "(\<Sum>j<length (c # cs). bucket_mid (i + j) * real (unat ((c # cs) ! j)))
      = bucket_mid i * real (unat c) + (\<Sum>j<length cs. bucket_mid (Suc i + j) * real (unat (cs ! j)))"
    by (simp only: length_Cons sum.lessThan_Suc_shift) simp
  then show ?case by (simp add: Cons.IH bucket_mid_def [of i] Let_def del: sum.lessThan_Suc length_Cons)
qed simp

lemma sum_by_bucket:
  "(\<Sum>j<BUCKETS. f j * real (length (filter (\<lambda>x. index_for x = j) xs))) = sum_list (map (f \<circ> index_for) xs)"
proof (induction xs)
  case (Cons x xs)
  have "f j * real (length (filter (\<lambda>y. index_for y = j) (x # xs)))
      = (if j = index_for x then f (index_for x) else 0) + f j * real (length (filter (\<lambda>y. index_for y = j) xs))" for j
    by (simp add: algebra_simps)
  with Cons index_for_less [of x] show ?case by (simp add: sum.distrib del: filter.simps)
qed simp

text \<open>Property C40: accuracy of the mean. In exact arithmetic, the mean latency that the aggregator computes
  from bucket midpoints is within one cycle plus a thirty-second of the true mean of the samples, provided
  none of them falls in the last bucket.\<close>

theorem mean_accuracy:
  assumes "0 < length xs" "length xs < 2 ^ 64" "\<forall>x\<in>set xs. index_for x < 1023"
  defines "avg \<equiv> sum_list (map (real \<circ> unat) xs) / real (length xs)"
  shows "\<bar>mean_cycles_from_hist (\<lambda>x. x) (hist_of xs) - avg\<bar> \<le> 1 + avg / 32"
proof -
  let ?n = "real (length xs)"
  have cnt: "real (unat (h_counts (hist_of xs) ! j)) = real (length (filter (\<lambda>x. index_for x = j) xs))" if "j < BUCKETS" for j
    using that assms(2) hist_of_counts(3) [OF that, of xs] length_filter_le [of "\<lambda>x. index_for x = j" xs]
    by (simp only: unat_of_nat_u64 order.strict_trans1)
  have "h_total (hist_of xs) = sum_list (h_counts (hist_of xs))" using hist_wf_of by (simp add: hist_wf_def)
  then have tot: "sum_list (h_counts (hist_of xs)) = of_nat (length xs)" by (simp add: hist_of_counts)
  have n: "unat (of_nat (length xs) :: u64) = length xs" using assms(2) by (rule unat_of_nat_u64)
  then have nz: "(of_nat (length xs) :: u64) \<noteq> 0" using assms(1) by auto
  have "(\<Sum>j<BUCKETS. bucket_mid j * real (unat (h_counts (hist_of xs) ! j))) = sum_list (map (bucket_mid \<circ> index_for) xs)"
    using cnt by (simp flip: sum_by_bucket)
  then have mean: "mean_cycles_from_hist (\<lambda>x. x) (hist_of xs) = sum_list (map (bucket_mid \<circ> index_for) xs) / ?n"
    unfolding mean_cycles_from_hist_def mean_loop_exact tot using nz by (simp add: n hist_of_counts(1))
  have "\<bar>sum_list (map (bucket_mid \<circ> index_for) xs) - sum_list (map (real \<circ> unat) xs)\<bar>
      \<le> ?n + sum_list (map (real \<circ> unat) xs) / 32"
    using assms(3)
  proof (induction xs)
    case (Cons x xs)
    with bucket_mid_error [of x] show ?case by (simp add: add_divide_distrib abs_le_iff)
  qed simp
  then have "\<bar>sum_list (map (bucket_mid \<circ> index_for) xs) - sum_list (map (real \<circ> unat) xs)\<bar> / ?n
      \<le> (?n + sum_list (map (real \<circ> unat) xs) / 32) / ?n" by (rule divide_right_mono) simp
  moreover have "\<bar>sum_list (map (bucket_mid \<circ> index_for) xs) - sum_list (map (real \<circ> unat) xs)\<bar> / ?n
      = \<bar>sum_list (map (bucket_mid \<circ> index_for) xs) / ?n - avg\<bar>"
    unfolding avg_def diff_divide_distrib [symmetric] by (simp add: abs_divide del: o_apply)
  moreover have "(?n + sum_list (map (real \<circ> unat) xs) / 32) / ?n = 1 + avg / 32"
    unfolding avg_def using assms(1) by (simp add: add_divide_distrib mult.commute)
  ultimately show ?thesis unfolding mean by simp
qed

theorem mean_accuracy_witness:
  "\<bar>mean_cycles_from_hist (\<lambda>x. x) (hist_of [100, 200]) - 150\<bar> \<le> 1 + 150 / 32"
proof -
  have "index_for 100 < 1023" "index_for 200 < 1023"
    using index_for_octave [of 100 6] index_for_octave [of 200 7] by (simp_all add: octave_step_def)
  with mean_accuracy [of "[100, 200]"] show ?thesis by simp
qed

end
