(* ===== verification/Driver_Setup.thy ===== *)
theory Driver_Setup
  imports Aggregate Run_Protocol
begin

text \<open>
  The set-up of a node by its driver (\<open>src/main.cpp\<close>) from the command line to the start of the threads, with
  every exit: the configuration, the shared memory, the constructor, the preload and the dataset. What the
  operating system answers is a record of results. The start-up of the shared memory, which the drivers
  do together, is in \<open>Run_Protocol\<close>; clocks and the calibration of the cycle counter are here too.
\<close>

section \<open>Clocks\<close>

definition now_ns :: "u64 \<Rightarrow> u64 \<Rightarrow> u64" where
  "now_ns tv_sec tv_nsec = tv_sec * 1000000000 + tv_nsec"

text \<open>The arguments are the readings of the clock and of the cycle counter before and after the sleep.\<close>

definition calibrate_tsc_hz :: "(real \<Rightarrow> real) \<Rightarrow> u64 \<Rightarrow> u64 \<Rightarrow> u64 \<Rightarrow> u64 \<Rightarrow> u64" where
  "calibrate_tsc_hz ld t0 c0 t1 c1 =
     (if t1 \<le> t0 \<or> c1 \<le> c0 then 0
      else trunc_u64 (ld (ld (ld (real (unat (c1 - c0))) * 10 ^ 9) / ld (real (unat (t1 - t0))))))"

lemma unat_now_ns:
  assumes "unat s \<le> 18446744072" "unat ns < 10 ^ 9"
  shows "unat (now_ns s ns) = unat s * 10 ^ 9 + unat ns"
proof -
  have "unat s * 10 ^ 9 + unat ns < 2 ^ 64" using assms by simp
  then show ?thesis using assms(1) by (simp add: now_ns_def unat_word_ariths)
qed

text \<open>The clock does not run backwards: the nanoseconds of a later reading are larger.\<close>

lemma now_ns_mono:
  assumes "unat s' \<le> 18446744072" "unat ns < 10 ^ 9" "unat ns' < 10 ^ 9" "s < s' \<or> s = s' \<and> ns < ns'"
  shows "now_ns s ns < now_ns s' ns'"
proof -
  have "s \<le> s'" using assms(4) by auto
  then have "unat s \<le> 18446744072" using assms(1) by (simp add: word_le_nat_alt)
  note u = unat_now_ns [OF this assms(2)] unat_now_ns [OF assms(1,3)]
  show ?thesis
  proof (cases "s = s'")
    case True
    with assms(4) u show ?thesis by (simp add: word_less_nat_alt)
  next
    case False
    with assms(4) have "Suc (unat s) \<le> unat s'" by (simp add: word_less_nat_alt)
    then have "Suc (unat s) * 10 ^ 9 \<le> unat s' * 10 ^ 9" by (rule mult_le_mono1)
    with u assms(2) show ?thesis by (simp add: word_less_nat_alt)
  qed
qed

section \<open>The exits\<close>

record Environment =
  ev_open_dax :: "string \<Rightarrow> bool"
  ev_map_dax :: "string \<Rightarrow> bool"
  ev_file :: "string \<Rightarrow> string option"
  ev_stat_dataset :: bool
  ev_map_dataset :: bool

datatype setup_error =
    Bad_Config driver_error
  | Dax_Open_Failed
  | Dax_Map_Failed
  | Unsupported_Cluster
  | Dataset_Open_Failed
  | Dataset_Invalid
  | Dataset_Map_Failed

definition preload_path :: "Options \<Rightarrow> string" where
  "preload_path opts = (if o_preload_file opts = [] then o_dataset opts else o_preload_file opts)"

text \<open>An \<open>ifstream\<close> on a file that cannot be opened reads no line.\<close>

definition preload_text :: "Environment \<Rightarrow> Options \<Rightarrow> string" where
  "preload_text ev opts = (case ev_file ev (preload_path opts) of Some file_text \<Rightarrow> file_text | None \<Rightarrow> [])"

text \<open>The size that the store is asked to reserve, \<open>max(recordcount, preload_count)\<close>.\<close>

definition reserved_keys :: "Options \<Rightarrow> u64" where
  "reserved_keys opts = max (o_recordcount opts) (o_preload_count opts)"

definition open_dataset :: "Environment \<Rightarrow> Options \<Rightarrow> setup_error + string" where
  "open_dataset ev opts =
     (case ev_file ev (o_dataset opts) of
        None \<Rightarrow> Inl Dataset_Open_Failed
      | Some d \<Rightarrow> if \<not> ev_stat_dataset ev \<or> d = [] then Inl Dataset_Invalid
                  else if \<not> ev_map_dataset ev then Inl Dataset_Map_Failed else Inr d)"

record Prepared =
  pr_id :: u64
  pr_options :: Options
  pr_node :: Bandle
  pr_dataset :: string

definition driver_setup ::
  "(string \<Rightarrow> u64) \<Rightarrow> Environment \<Rightarrow> (nat \<Rightarrow> u64) \<Rightarrow> string list \<Rightarrow> setup_error + Prepared" where
  "driver_setup hash ev tsc args =
     (case driver_config args of
        Inl e \<Rightarrow> Inl (Bad_Config e)
      | Inr (dax, node_id, opts) \<Rightarrow>
          if \<not> ev_open_dax ev dax then Inl Dax_Open_Failed
          else if \<not> ev_map_dax ev dax then Inl Dax_Map_Failed
          else (case driver_node node_id opts tsc of
                  None \<Rightarrow> Inl Unsupported_Cluster
                | Some n \<Rightarrow>
                    (let n1 = preload hash (o_preload_count opts) (preload_text ev opts) n
                     in (case open_dataset ev opts of
                           Inl e \<Rightarrow> Inl e
                         | Inr d \<Rightarrow> Inr \<lparr> pr_id = node_id, pr_options = opts, pr_node = n1, pr_dataset = d \<rparr>))))"

lemma driver_setup_Inr:
  "driver_setup hash ev tsc args = Inr r \<longleftrightarrow>
     (\<exists>dax n. driver_config args = Inr (dax, pr_id r, pr_options r) \<and> ev_open_dax ev dax \<and> ev_map_dax ev dax \<and>
        driver_node (pr_id r) (pr_options r) tsc = Some n \<and>
        pr_node r = preload hash (o_preload_count (pr_options r)) (preload_text ev (pr_options r)) n \<and>
        open_dataset ev (pr_options r) = Inr (pr_dataset r))"
  by (cases r) (auto simp: driver_setup_def Let_def split: sum.splits option.splits)

lemma open_dataset_Inr:
  "open_dataset ev opts = Inr d \<longleftrightarrow> ev_file ev (o_dataset opts) = Some d \<and> ev_stat_dataset ev \<and> d \<noteq> [] \<and> ev_map_dataset ev"
  by (auto simp: open_dataset_def split: option.splits)

lemma driver_node_supported:
  "(\<exists>n. driver_node node_id opts tsc = Some n) \<longleftrightarrow> o_cluster_size opts = 3 \<and> unat node_id \<in> set node_ids"
proof -
  have "unat node_id \<in> set node_ids \<longleftrightarrow> \<not> node_id < 1 \<and> \<not> 3 < node_id" by (auto simp: node_ids_def word_less_nat_alt)
  then show ?thesis by (auto simp: driver_node_def bandle_new_def)
qed

lemma setup_contents:
  assumes "driver_setup hash ev tsc args = Inr r"
  shows "kv_lookup hash (n_kv (pr_node r)) = preload_spec (unat (o_preload_count (pr_options r))) (preload_text ev (pr_options r))"
proof -
  obtain n where n: "driver_node (pr_id r) (pr_options r) tsc = Some n"
    "pr_node r = preload hash (o_preload_count (pr_options r)) (preload_text ev (pr_options r)) n"
    using assms unfolding driver_setup_Inr by auto
  have "n_kv n = empty_store" using n(1) by (auto simp: driver_node_def bandle_new_def split: if_splits)
  from preload_at [OF this, of hash "o_preload_count (pr_options r)" "preload_text ev (pr_options r)"] show ?thesis
    unfolding n(2) by auto
qed

lemma preload_spec_empty: "preload_spec k [] = Map.empty"
  by (simp add: preload_spec_def List.map_filter_def)

text \<open>a missing preload file goes unnoticed. When the file to preload from cannot be opened, the driver
  reports nothing and starts its node with an empty store, whatever number of records it was asked to load;
  a replica whose file is readable starts with the records instead, so the replicas start apart.\<close>

theorem missing_preload_ignored:
  assumes "driver_setup hash ev tsc args = Inr r" "ev_file ev (preload_path (pr_options r)) = None"
    and "driver_setup hash ev' tsc' args' = Inr r'" "preload_text ev' (pr_options r') = file_text"
  shows "kv_lookup hash (n_kv (pr_node r)) = Map.empty \<and>
    kv_lookup hash (n_kv (pr_node r')) = preload_spec (unat (o_preload_count (pr_options r'))) file_text"
proof -
  have "preload_text ev (pr_options r) = []" using assms(2) by (simp add: preload_text_def)
  with setup_contents [OF assms(1)] setup_contents [OF assms(3)] assms(4) show ?thesis by (simp add: preload_spec_empty)
qed

definition sample_args :: "string list" where
  "sample_args = [''/dev/dax0.0'', ''2'', ''9000'', ''--dataset'', ''d'', ''--preload-file'', ''p'', ''--preload-count'', ''5'']"

definition sample_env :: "string option \<Rightarrow> Environment" where
  "sample_env pre = \<lparr> ev_open_dax = (\<lambda>_. True), ev_map_dax = (\<lambda>_. True),
     ev_file = (\<lambda>f. if f = ''d'' then Some ''1,G k'' else if f = ''p'' then pre else None), ev_stat_dataset = True, ev_map_dataset = True \<rparr>"

lemma sample_config:
  "driver_config sample_args = Inr (''/dev/dax0.0'', 2, default_options\<lparr>o_dataset := ''d'', o_preload_file := ''p'', o_preload_count := 5\<rparr>)"
proof -
  have n: "stoull ''2'' = Some (2, 1)" "stoull ''9000'' = Some (9000, 4)" "stoull ''5'' = Some (5, 1)"
    by (simp_all add: stoull_def is_space_def is_digit_def digits_value_def digit_value_def Let_def)
  show ?thesis unfolding sample_args_def by (simp add: n apply_option_def with_u64_def default_options_def)
qed

lemma sample_setup:
  "\<exists>r. driver_setup hash (sample_env pre) tsc sample_args = Inr r \<and> preload_path (pr_options r) = ''p'' \<and>
     unat (o_preload_count (pr_options r)) = 5 \<and> preload_text (sample_env pre) (pr_options r) = (case pre of Some t \<Rightarrow> t | None \<Rightarrow> [])"
proof -
  let ?opts = "default_options\<lparr>o_dataset := ''d'', o_preload_file := ''p'', o_preload_count := 5\<rparr>"
  have "\<exists>n. driver_node 2 ?opts tsc = Some n" unfolding driver_node_supported by (simp add: default_options_def node_ids_def)
  then obtain n where n: "driver_node 2 ?opts tsc = Some n" ..
  moreover have "open_dataset (sample_env pre) ?opts = Inr ''1,G k''" by (simp add: open_dataset_Inr sample_env_def)
  ultimately show ?thesis
    by (simp add: driver_setup_def sample_config Let_def preload_path_def preload_text_def) (simp add: sample_env_def)
qed

theorem missing_preload_ignored_witness:
  "\<exists>r r'. driver_setup (\<lambda>_. 7) (sample_env None) of_nat sample_args = Inr r \<and>
     driver_setup (\<lambda>_. 7) (sample_env (Some ''1,P a:x'')) of_nat sample_args = Inr r' \<and>
     kv_lookup (\<lambda>_. 7) (n_kv (pr_node r)) \<noteq> kv_lookup (\<lambda>_. 7) (n_kv (pr_node r'))"
proof -
  obtain r where r: "driver_setup (\<lambda>_. 7) (sample_env None) of_nat sample_args = Inr r" "preload_path (pr_options r) = ''p''"
    using sample_setup [of "\<lambda>_. 7" None of_nat] by blast
  obtain r' where r': "driver_setup (\<lambda>_. 7) (sample_env (Some ''1,P a:x'')) of_nat sample_args = Inr r'"
    "unat (o_preload_count (pr_options r')) = 5" "preload_text (sample_env (Some ''1,P a:x'')) (pr_options r') = ''1,P a:x''"
    using sample_setup [of "\<lambda>_. 7" "Some ''1,P a:x''" of_nat] by auto
  have "ev_file (sample_env None) (preload_path (pr_options r)) = None" by (simp add: r(2) sample_env_def)
  from missing_preload_ignored [OF r(1) this r'(1,3)] r'(2)
  have "kv_lookup (\<lambda>_. 7) (n_kv (pr_node r)) = Map.empty" "kv_lookup (\<lambda>_. 7) (n_kv (pr_node r')) = preload_spec 5 ''1,P a:x''" by simp_all
  with preload_spec_sample show ?thesis using r(1) r'(1) by (intro exI [of _ r] exI [of _ r']) (simp add: fun_eq_iff)
qed

end
