(* ===== verification/Workload_Run.thy ===== *)
theory Workload_Run
  imports Run_Protocol Node_Driver
begin

text \<open>
  Runs on given datasets: every driver (\<open>main\<close> in \<open>src/main.cpp\<close>) replays its trace, batch after batch, and reports
  the end of its input when it has none left. The runs of \<open>Run_Protocol\<close> leave open what is submitted; here the
  batches are those of the replay loop, and the proposals of a node turn out to be its trace, line by line.
\<close>

section \<open>What a request asks for\<close>

text \<open>Operation, key and value of a proposal; reads carry no key.\<close>

definition content :: "BandleMessage \<Rightarrow> char \<times> string \<times> string" where
  "content m = (let b = m_body m in
     (b_op b, take (unat (b_key_len b)) (b_data b), take (unat (b_value_len b)) (drop (unat (b_key_len b)) (b_data b))))"

text \<open>Operation, key and value of a request of the dataset, as far as they fit into a proposal.\<close>

definition wanted :: "BorrowedRequest \<Rightarrow> char \<times> string \<times> string" where
  "wanted req = (if q_op req = CHR ''G'' then (q_op req, '''', '''')
     else (q_op req, (case q_key_ptr req of None \<Rightarrow> '''' | Some k \<Rightarrow> take (kept_key req) k),
             (case q_value_ptr req of None \<Rightarrow> '''' | Some v \<Rightarrow> take (kept_value req) v)))"

text \<open>Requests that lend what they say; the replay loop makes no others.\<close>

definition complete_request :: "BorrowedRequest \<Rightarrow> bool" where
  "complete_request req \<longleftrightarrow> req_ok req \<and> q_key_ptr req \<noteq> None \<and> (q_value_ptr req = None \<longrightarrow> q_value_len req = 0)"

lemma content_wire: "content (wire m) = content m"
  by (simp add: content_def wire_def Let_def unat_msg_bytes min_def)
    (simp add: drop_take)

lemma content_assigned: "content (assigned n i m) = content m"
  by (simp add: content_def assigned_def Let_def)

lemma content_make_proposal:
  assumes "complete_request req" "length scratch = kMaxValueBytes"
  shows "content (make_proposal nid req scratch) = wanted req"
proof (cases "q_op req = CHR ''G''")
  case True
  then show ?thesis by (simp add: content_def make_proposal_def wanted_def Let_def)
next
  case False
  obtain k where k: "q_key_ptr req = Some k" "kept_key req \<le> length k"
    using assms(1) by (auto simp: complete_request_def req_ok_def kept_key_def)
  have op: "b_op (m_body (make_proposal nid req scratch)) = q_op req"
    by (simp add: make_proposal_def Let_def split: option.split)
  show ?thesis
  proof (cases "q_value_ptr req")
    case None
    then have "kept_value req = 0" using assms(1) by (simp add: complete_request_def kept_value_def)
    with None k False op show ?thesis
      by (simp add: content_def wanted_def Let_def make_proposal_body [OF False] memcpy_at_def)
  next
    case (Some v)
    then have "kept_value req \<le> length v" using assms(1) by (auto simp: complete_request_def req_ok_def kept_value_def)
    with Some k False op assms(2) kept_bound [of req] show ?thesis
      by (simp add: content_def wanted_def Let_def make_proposal_body [OF False] memcpy_at_def min_def)
  qed
qed

lemma fst_wanted: "fst (wanted req) = q_op req"
  by (simp add: wanted_def)

lemma replayed_complete:
  assumes "req \<in> set (requests_of dataset)"
  shows "complete_request req"
proof -
  obtain v line where v: "parse_line_view line = Some v" "req = request_of v"
    using assms by (auto simp: requests_of_def map_filter_def)
  then have "v_value_ptr v = None \<longrightarrow> v_value_len v = 0"
    by (auto simp: parse_line_view_def Let_def split: if_splits option.splits)
  with v parsed_request_ok show ?thesis by (auto simp: complete_request_def request_of_def)
qed

text \<open>The store operations of a proposal depend on its content only.\<close>

definition content_ops :: "(string \<Rightarrow> u64) \<Rightarrow> char \<times> string \<times> string \<Rightarrow> ApplyOp list" where
  "content_ops hash x = (case x of (c, k, v) \<Rightarrow>
     if is_write_op c
     then [\<lparr> op_op = c, op_shard = shard_for hash k, op_key = k, op_value = (if c = CHR ''D'' then '''' else v) \<rparr>]
     else [])"

lemma msg_ops_content: "msg_ops hash m = content_ops hash (content m)"
  by (simp add: msg_ops_def content_ops_def content_def Let_def)

section \<open>Drivers with their datasets\<close>

text \<open>\<open>wl_todo\<close> are the batches that a driver has not yet handed to \<open>submit_borrowed_batch\<close>.\<close>

record Workload =
  wl_run :: Run
  wl_todo :: "nat \<Rightarrow> BorrowedRequest list list"

abbreviation wl_cluster :: "Workload \<Rightarrow> Cluster" where
  "wl_cluster w \<equiv> ru_cluster (wl_run w)"

abbreviation with_cluster :: "Workload \<Rightarrow> Cluster \<Rightarrow> Workload" where
  "with_cluster w c \<equiv> w\<lparr>wl_run := (wl_run w)\<lparr>ru_cluster := c\<rparr>\<rparr>"

inductive workload_step :: "(string \<Rightarrow> u64) \<Rightarrow> Workload \<Rightarrow> Workload \<Rightarrow> bool" for hash where
  next_batch:
    "\<lbrakk>c = wl_cluster w; p \<in> set node_ids; ru_pc (wl_run w) p = Dr_Replay; c_sub c p = Sub_Idle;
      wl_todo w p = reqs # batches; \<forall>j. length (scratch j) = kMaxValueBytes;
      submit_begin scratch reqs (c_node c p) = (pc, n)\<rbrakk>
     \<Longrightarrow> workload_step hash w
           (with_cluster w (c\<lparr>c_sub := (c_sub c)(p := pc), c_node := (c_node c)(p := n)\<rparr>)
              \<lparr>wl_todo := (wl_todo w)(p := batches)\<rparr>)"
| submit:
    "\<lbrakk>c = wl_cluster w; p \<in> set node_ids;
      submit_step hash p (c_sub c p) (c_node c p) (c_ring c p) = (pc, n, rs)\<rbrakk>
     \<Longrightarrow> workload_step hash w (with_cluster w (after_submit c p pc n rs))"
| noop:
    "\<lbrakk>c = wl_cluster w; p \<in> set node_ids;
      noop_step hash p now fin (c_noop c p) (c_node c p) (c_ring c p) = (pc, n, rs)\<rbrakk>
     \<Longrightarrow> workload_step hash w (with_cluster w (after_noop c p pc n rs))"
| recv:
    "\<lbrakk>c = wl_cluster w; p \<in> set node_ids; q \<in> set node_ids; p \<noteq> q; buffer_ok (c_recv c q p) buf;
      recv_step hash buf (c_recv c q p) (c_node c q) (c_ring c p q) = (pc, n, r)\<rbrakk>
     \<Longrightarrow> workload_step hash w (with_cluster w
           (c\<lparr>c_recv := (c_recv c)(q := (c_recv c q)(p := pc)), c_node := (c_node c)(q := n),
              c_ring := (c_ring c)(p := (c_ring c p)(q := r)),
              c_done := (c_done c)(q := (c_done c q)(p := c_done c q p + length (recv_handles (c_recv c q p))))\<rparr>))"
| input_over:
    "\<lbrakk>r = wl_run w; p \<in> set node_ids; ru_pc r p = Dr_Replay; c_sub (ru_cluster r) p = Sub_Idle; wl_todo w p = []\<rbrakk>
     \<Longrightarrow> workload_step hash w (w\<lparr>wl_run := r\<lparr>ru_pc := (ru_pc r)(p := Dr_Wait),
           ru_cluster := (ru_cluster r)\<lparr>c_node := (c_node (ru_cluster r))(p := mark_input_done (c_node (ru_cluster r) p))\<rparr>\<rparr>\<rparr>)"
| report:
    "\<lbrakk>r = wl_run w; p \<in> set node_ids; ru_pc r p = Dr_Wait; pending_wait_over (c_node (ru_cluster r) p)\<rbrakk>
     \<Longrightarrow> workload_step hash w
           (w\<lparr>wl_run := r\<lparr>ru_pc := (ru_pc r)(p := Dr_Barrier 1), ru_finished := (ru_finished r)(p := 1)\<rparr>\<rparr>)"
| barrier:
    "\<lbrakk>r = wl_run w; p \<in> set node_ids; ru_pc r p = Dr_Barrier i\<rbrakk>
     \<Longrightarrow> workload_step hash w (w\<lparr>wl_run := r\<lparr>ru_pc := (ru_pc r)(p := barrier_step (ru_finished r) i)\<rparr>\<rparr>)"

text \<open>At the start every driver has the batches of its dataset before it; \<open>early p\<close> is what the clock says.\<close>

definition workload_init ::
  "(string \<Rightarrow> u64) \<Rightarrow> (string \<rightharpoonup> string) \<Rightarrow> (nat \<Rightarrow> nat \<Rightarrow> bool) \<Rightarrow> (nat \<Rightarrow> u32) \<Rightarrow> (nat \<Rightarrow> string) \<Rightarrow> Workload \<Rightarrow> bool" where
  "workload_init hash K0 early bs dataset w \<longleftrightarrow> run_init hash K0 (wl_run w) \<and>
     (\<forall>p. wl_todo w p = replay (early p) (bs p) (dataset p))"

section \<open>The trace is what is proposed\<close>

text \<open>Proposals that a submission in progress has not issued yet.\<close>

fun unissued :: "submit_pc \<Rightarrow> BandleMessage list" where
  "unissued Sub_Idle = []"
| "unissued (Sub_Admit chs) = concat chs"
| "unissued (Sub_Bcast msgs pc chs) = concat chs"
| "unissued (Sub_Deliver msgs chs) = concat chs"

lemma submit_step_content:
  assumes "submit_step hash p sub n rs = (pc, n', rs')"
  shows "map content (sub_issues sub pc) @ map content (unissued pc) = map content (unissued sub)"
    and "n_input_done n' = n_input_done n"
proof -
  have admit: "map content ms = map content ch \<and> n_input_done n1 = n_input_done n" if "try_assign ch n = Some (ms, n1)" for ch ms n1
  proof -
    have "assign_chunk ch n = (ms, n1)" using that by (auto simp: try_assign_def Let_def split: if_splits)
    note spec = assign_chunk_spec [OF this]
    then have "map content ms = map content ch" by (auto intro: nth_equalityI simp: content_assigned)
    with spec show ?thesis by (simp add: same_log_def)
  qed
  have deliver: "n_input_done (fst (deliver_chunk hash ms n)) = n_input_done n" for ms
    using same_config_trans [OF deliver_loop_frame(1) [of n hash ms] advance_same_config [of _ hash]]
    by (simp add: deliver_chunk_def same_config_def)
  show "map content (sub_issues sub pc) @ map content (unissued pc) = map content (unissued sub)"
    and "n_input_done n' = n_input_done n"
    using assms admit deliver by (cases "(hash, p, sub, n, rs)" rule: submit_step.cases;
      auto simp: content_wire comp_def split: option.splits bcast_pc.splits prod.splits)+
qed

lemma submit_begin_content:
  assumes "submit_begin scratch reqs n = (pc, n')" "\<forall>req\<in>set reqs. complete_request req"
    and "\<forall>j. length (scratch j) = kMaxValueBytes"
  shows "map content (unissued pc) = map wanted (filter valid_op reqs)" and "n_input_done n' = n_input_done n"
proof -
  let ?ok = "filter valid_op reqs"
  obtain msgs n1 where b: "build_proposals scratch reqs 0 n = (msgs, n1)" by fastforce
  note spec = build_proposals_spec [of scratch reqs 0 n, unfolded b]
  have "map content msgs = map wanted ?ok"
    using spec assms(2,3) by (intro nth_equalityI)
      (auto simp: content_make_proposal dest: nth_mem)
  moreover have "concat (admission_chunks n1 msgs) = msgs"
    using admission_batch_capacity_bounds(1) by (simp add: admission_chunks_def concat_split_chunks Suc_le_lessD)
  ultimately show "map content (unissued pc) = map wanted ?ok"
    using assms(1) b by (auto simp: submit_begin_def split: if_splits)
  show "n_input_done n' = n_input_done n"
    using assms(1) b spec by (auto simp: submit_begin_def split: if_splits)
qed

definition issued_trace :: "Cluster \<Rightarrow> nat \<Rightarrow> (char \<times> string \<times> string) list" where
  "issued_trace c p = map content (filter is_request (c_hist c p)) @ map content (unissued (c_sub c p))"

text \<open>Until the end of the input is reported, all that a node issues are client requests.\<close>

lemma all_requests:
  assumes "reachable hash K0 c" "brief (c_hist c)" "p \<in> set node_ids" "\<not> n_input_done (c_node c p)"
  shows "filter is_request (c_hist c p) = c_hist c p"
proof -
  have len: "Suc (length (c_hist c p)) < 2 ^ 56" using assms(2,3) by (simp add: brief_def)
  obtain k where "pend_inv p k (c_hist c p) (c_node c p)"
    using reachable_pend_all [OF assms(1,2)] assms(3) by (auto simp: pend_all_def pend_at_def)
  with assms(4) have "\<forall>i<length (c_hist c p). b_client_req_id (m_body (c_hist c p ! i)) = request_id p i"
    by (simp add: pend_inv_def)
  moreover have "request_id p i \<noteq> 0" if "i < length (c_hist c p)" for i
    using that len by (intro request_id_nonzero) simp
  ultimately show ?thesis by (auto simp: filter_id_conv is_request_def in_set_conv_nth)
qed

lemma issued_trace_submit:
  assumes reach: "reachable hash K0 c" and p: "p \<in> set node_ids"
    and step: "submit_step hash p (c_sub c p) (c_node c p) (c_ring c p) = (pc, n, rs)"
    and brief: "brief (c_hist (after_submit c p pc n rs))"
  shows "issued_trace (after_submit c p pc n rs) x = issued_trace c x"
proof (cases "x = p")
  case True
  have brief0: "brief (c_hist c)" using brief by (intro brief_prefix [of "c_hist c" p "sub_issues (c_sub c p) pc"]) simp
  show ?thesis
  proof (cases "n_input_done (c_node c p)")
    case True
    then have "c_sub c p = Sub_Idle"
      using full_invD(1) [OF reachable_inv [OF reach brief_short [OF brief0]] p] by (simp add: node_ok_def)
    with step \<open>x = p\<close> show ?thesis by (simp add: issued_trace_def)
  next
    case False
    have "reachable hash K0 (after_submit c p pc n rs)"
      using reach cluster_step.submit [OF p step] by (rule reach_step)
    moreover have "\<not> n_input_done n" using submit_step_content(2) [OF step] False by simp
    ultimately have new: "filter is_request (c_hist c p @ sub_issues (c_sub c p) pc) = c_hist c p @ sub_issues (c_sub c p) pc"
      using all_requests [of hash K0 "after_submit c p pc n rs" p] brief p by simp
    have "issued_trace (after_submit c p pc n rs) p
        = map content (c_hist c p) @ map content (sub_issues (c_sub c p) pc) @ map content (unissued pc)"
      unfolding issued_trace_def by (simp add: new del: filter_append)
    also have "\<dots> = issued_trace c p"
      unfolding issued_trace_def by (simp add: submit_step_content(1) [OF step] all_requests [OF reach brief0 p False])
    finally show ?thesis using \<open>x = p\<close> by simp
  qed
qed (simp add: issued_trace_def)

lemma issued_trace_noop:
  assumes "reachable hash K0 c" "brief (c_hist c)" "p \<in> set node_ids"
  shows "issued_trace (after_noop c p pc n rs) x = issued_trace c x"
proof -
  have "\<not> is_request (wire msg)" if "c_noop c p = Np_Reserve msg" for msg
    using that reachable_pend_all [OF assms(1,2)] assms(3) unfolding pend_all_def pend_at_def by (auto simp: is_request_def)
  then have "filter is_request (noop_issues (c_noop c p)) = []" by (cases "c_noop c p") auto
  then show ?thesis by (cases "x = p") (simp_all add: issued_trace_def)
qed

definition on_trace :: "(nat \<Rightarrow> string) \<Rightarrow> Workload \<Rightarrow> nat \<Rightarrow> bool" where
  "on_trace dataset w p \<longleftrightarrow>
     (\<forall>req\<in>set (concat (wl_todo w p)). complete_request req) \<and>
     (n_input_done (c_node (wl_cluster w) p) \<longleftrightarrow> ru_pc (wl_run w) p \<noteq> Dr_Replay) \<and>
     (ru_pc (wl_run w) p \<noteq> Dr_Replay \<longrightarrow> wl_todo w p = []) \<and>
     issued_trace (wl_cluster w) p @ map wanted (filter valid_op (concat (wl_todo w p)))
       = map wanted (filter valid_op (requests_of (dataset p)))"

definition workload_inv :: "(string \<Rightarrow> u64) \<Rightarrow> (string \<rightharpoonup> string) \<Rightarrow> (nat \<Rightarrow> string) \<Rightarrow> Workload \<Rightarrow> bool" where
  "workload_inv hash K0 dataset w \<longleftrightarrow> (brief (c_hist (wl_cluster w)) \<longrightarrow>
     reach (run_init hash K0) (run_step hash) (wl_run w) \<and> (\<forall>p\<in>set node_ids. on_trace dataset w p))"

text \<open>Every step of a workload is a step of the run it is made of.\<close>

lemma workload_refines:
  assumes step: "workload_step hash w w'" and inv: "\<forall>p\<in>set node_ids. on_trace dataset w p"
  shows "run_step hash (wl_run w) (wl_run w')"
  using step
proof cases
  case (next_batch c p reqs batches scratch pc n)
  have "\<forall>req\<in>set reqs. req_ok req" "\<not> n_input_done (c_node c p)"
    using inv next_batch by (auto simp: on_trace_def complete_request_def)
  with next_batch have "cluster_step hash c (c\<lparr>c_sub := (c_sub c)(p := pc), c_node := (c_node c)(p := n)\<rparr>)"
    by (intro cluster_step.begin_submit)
  with next_batch show ?thesis by (auto intro: run_step.threads)
next
  case (submit c p pc n rs)
  with cluster_step.submit show ?thesis by (auto intro!: run_step.threads)
next
  case (noop c p now fin pc n rs)
  with cluster_step.noop show ?thesis by (auto intro!: run_step.threads)
next
  case (recv c p q buf pc n r)
  with cluster_step.recv show ?thesis by (auto intro!: run_step.threads)
next
  case (input_over r p)
  with run_step.input_over show ?thesis by auto
next
  case (report r p)
  with run_step.report show ?thesis by auto
next
  case (barrier r p i)
  with run_step.barrier show ?thesis by auto
qed

lemma on_trace_same:
  assumes "on_trace dataset w p" "wl_todo w' p = wl_todo w p" "issued_trace (wl_cluster w') p = issued_trace (wl_cluster w) p"
    and "n_input_done (c_node (wl_cluster w') p) = n_input_done (c_node (wl_cluster w) p)"
    and "ru_pc (wl_run w') p = Dr_Replay \<longleftrightarrow> ru_pc (wl_run w) p = Dr_Replay"
  shows "on_trace dataset w' p"
  using assms by (simp add: on_trace_def)

lemma noop_step_done: "noop_step hash p now fin np n rs = (pc, n', rs') \<Longrightarrow> n_input_done n' = n_input_done n"
proof (cases np)
  case (Np_Deliver msg)
  assume "noop_step hash p now fin np n rs = (pc, n', rs')"
  moreover have "same_config n (fst (handle_proposal_locked hash msg True n))"
    using same_config_trans [OF handle_proposal_frame(1) advance_same_config]
    by (simp add: handle_proposal_advance)
  ultimately show ?thesis using Np_Deliver by (auto simp: same_config_def)
next
  case (Np_Send msg qs)
  assume "noop_step hash p now fin np n rs = (pc, n', rs')"
  with Np_Send show ?thesis by (cases qs) (auto split: if_splits prod.splits)
qed (auto simp: noop_reserve_def split: if_splits)

lemma on_trace_step:
  assumes step: "workload_step hash w w'" and reach: "reachable hash K0 (wl_cluster w)"
    and brief: "brief (c_hist (wl_cluster w))" "brief (c_hist (wl_cluster w'))"
    and x: "x \<in> set node_ids" and old: "on_trace dataset w x"
  shows "on_trace dataset w' x"
  using step
proof cases
  case (next_batch c p reqs batches scratch pc n)
  show ?thesis
  proof (cases "x = p")
    case True
    have "\<forall>req\<in>set reqs. complete_request req" using old next_batch True by (simp add: on_trace_def)
    note b = submit_begin_content [OF next_batch(8) this next_batch(7)]
    have "issued_trace (wl_cluster w') x = issued_trace (wl_cluster w) x @ map wanted (filter valid_op reqs)"
      using next_batch True b(1) by (simp add: issued_trace_def)
    with old next_batch True b(2) show ?thesis by (simp add: on_trace_def)
  next
    case False
    with next_batch show ?thesis by (intro on_trace_same [OF old]) (simp_all add: issued_trace_def)
  qed
next
  case (submit c p pc n rs)
  with issued_trace_submit [of hash K0 c p pc n rs x] submit_step_content(2) [OF submit(4)] reach brief(2) show ?thesis
    by (intro on_trace_same [OF old]) (auto simp: fun_upd_def)
next
  case (noop c p now fin pc n rs)
  with issued_trace_noop [where pc = pc and n = n and rs = rs and x = x, of hash K0 c p] noop_step_done [OF noop(4)] reach brief(1) show ?thesis
    by (intro on_trace_same [OF old]) auto
next
  case (recv c p q buf pc n r)
  have "same_config (c_node c q) n"
    using recv_step_at(3) [OF reachable_inv [OF reach brief_short [OF brief(1)]] brief_short [OF brief(1)]] recv(2-) by metis
  with recv show ?thesis by (intro on_trace_same [OF old]) (auto simp: same_config_def issued_trace_def)
next
  case (input_over r p)
  then show ?thesis using old
    by (cases "x = p") (auto simp: on_trace_def issued_trace_def mark_input_done_def)
next
  case (report r p)
  then show ?thesis by (intro on_trace_same [OF old]) auto
next
  case (barrier r p i)
  then show ?thesis by (intro on_trace_same [OF old]) (auto simp: barrier_step_def)
qed

lemma workload_inv_init:
  assumes "workload_init hash K0 early bs dataset w"
  shows "workload_inv hash K0 dataset w"
proof -
  have todo: "concat (wl_todo w p) = requests_of (dataset p)" for p
    using assms by (simp add: workload_init_def replay_concat)
  have "on_trace dataset w p" if "p \<in> set node_ids" for p
  proof -
    have "c_hist (wl_cluster w) p = []" "c_sub (wl_cluster w) p = Sub_Idle" "ru_pc (wl_run w) p = Dr_Replay"
      "initial_node hash K0 p (c_node (wl_cluster w) p)"
      using assms that by (simp_all add: workload_init_def run_init_def cluster_init_def)
    with initial_node_fields [of hash K0 p] show ?thesis
      by (auto simp: on_trace_def issued_trace_def todo intro: replayed_complete)
  qed
  with assms show ?thesis by (auto simp: workload_inv_def workload_init_def intro: reach_init)
qed

lemma workload_history:
  assumes "workload_step hash w w'" "brief (c_hist (wl_cluster w'))"
  shows "brief (c_hist (wl_cluster w))"
  using assms(1)
proof cases
  case (submit c p pc n rs)
  with assms(2) brief_prefix [of "c_hist c" p "sub_issues (c_sub c p) pc"] show ?thesis by simp
next
  case (noop c p now fin pc n rs)
  with assms(2) brief_prefix [of "c_hist c" p "noop_issues (c_noop c p)"] show ?thesis by simp
qed (use assms(2) in auto)

lemma workload_inv_step:
  assumes inv: "workload_inv hash K0 dataset w" and step: "workload_step hash w w'"
  shows "workload_inv hash K0 dataset w'"
proof -
  have "reach (run_init hash K0) (run_step hash) (wl_run w') \<and> (\<forall>p\<in>set node_ids. on_trace dataset w' p)"
    if brief: "brief (c_hist (wl_cluster w'))"
  proof
    have b0: "brief (c_hist (wl_cluster w))" by (rule workload_history [OF step brief])
    then have run: "reach (run_init hash K0) (run_step hash) (wl_run w)" and old: "\<forall>p\<in>set node_ids. on_trace dataset w p"
      using inv by (simp_all add: workload_inv_def)
    from run workload_refines [OF step old] show "reach (run_init hash K0) (run_step hash) (wl_run w')" by (rule reach_step)
    show "\<forall>p\<in>set node_ids. on_trace dataset w' p"
      using on_trace_step [OF step run_cluster [OF run] b0 brief] old by blast
  qed
  then show ?thesis by (simp add: workload_inv_def)
qed

interpretation workload: step_invariant "workload_init hash K0 early bs dataset" "workload_step hash" "workload_inv hash K0 dataset"
  for hash K0 early bs dataset
  by unfold_locales (auto intro: workload_inv_init workload_inv_step)

lemma workload_end_facts:
  assumes "reach (workload_init hash K0 early bs dataset) (workload_step hash) w" "brief (c_hist (wl_cluster w))"
    and "p \<in> set node_ids" "ru_pc (wl_run w) p = Dr_Left" "q \<in> set node_ids"
  defines "n \<equiv> c_node (wl_cluster w) q" and "h \<equiv> c_hist (wl_cluster w) q" and "reqs \<equiv> filter valid_op (requests_of (dataset q))"
  shows "map content (filter is_request h) = map wanted reqs \<and>
    (\<forall>i<length h. is_request (h ! i) \<longrightarrow> seq_of q i < exec_next n) \<and> unat (n_ok_ops n) = length reqs \<and>
    unat (n_read_ops n) = length (filter (\<lambda>req. q_op req = CHR ''G'') reqs)"
proof -
  have inv: "reach (run_init hash K0) (run_step hash) (wl_run w)" "on_trace dataset w q"
    using workload.inv_reach [OF assms(1)] assms(2,5) by (auto simp: workload_inv_def)
  note e = run_end_facts [OF inv(1) assms(2-5)]
  have "n_input_done n" using run_end_done [OF inv(1) assms(2-5)] by (simp add: n_def)
  with inv(2) have "wl_todo w q = []" by (simp add: on_trace_def n_def)
  with inv(2) e have trace: "map content (filter is_request h) = map wanted reqs"
    by (simp add: on_trace_def issued_trace_def h_def reqs_def)
  then have "length (filter is_request h) = length reqs" by (metis length_map)
  moreover have "filter is_read_request h = filter (\<lambda>m. fst (content m) = CHR ''G'') (filter is_request h)"
    by (auto simp: is_read_request_def content_def Let_def intro: filter_cong)
  then have "length (filter is_read_request h) = length (filter (\<lambda>x. fst x = CHR ''G'') (map content (filter is_request h)))"
    by (simp add: filter_map comp_def)
  then have "length (filter is_read_request h) = length (filter (\<lambda>req. q_op req = CHR ''G'') reqs)"
    by (simp only: trace) (simp add: filter_map comp_def fst_wanted)
  ultimately show ?thesis using trace e by (simp add: h_def n_def)
qed

end
