(* ===== verification/Workload_Progress.thy ===== *)
theory Workload_Progress
  imports Workload_Run
begin

text \<open>
  Every run of the drivers on their datasets can come to its end: from each state that a workload can reach, the
  drivers and threads can go on until all drivers have left. A driver that is idle submits its next batch or
  reports the end of its input; otherwise the owner of the next sequence number waits for admission or has
  no more input, and the threads alone bring all replicas past it.
\<close>

section \<open>Threads of a workload\<close>

lemma thread_workload_step:
  assumes "thread_step hash (wl_cluster w) c"
  shows "workload_step hash w (with_cluster w c)"
  using assms
proof cases
  case (submit p pc n rs)
  with workload_step.submit [of "wl_cluster w" w p hash pc n rs] show ?thesis by simp
next
  case (noop p now fin pc n rs)
  with workload_step.noop [of "wl_cluster w" w p hash now fin pc n rs] show ?thesis by simp
next
  case (recv p q buf pc n r)
  with workload_step.recv [of "wl_cluster w" w p q buf hash pc n r] show ?thesis by simp
qed

lemma thread_workload_run:
  assumes "(thread_step hash)\<^sup>*\<^sup>* (wl_cluster w) c"
  shows "(workload_step hash)\<^sup>*\<^sup>* w (with_cluster w c)"
  using assms
proof induction
  case base
  then show ?case by simp
next
  case (step c1 c2)
  have "workload_step hash (with_cluster w c1) (with_cluster w c2)"
    using thread_workload_step [of hash "with_cluster w c1" c2] step(2) by simp
  with step(3) show ?case by (rule rtranclp.rtrancl_into_rtrancl)
qed

abbreviation in_workload where
  "in_workload hash K0 early bs dataset \<equiv> reach (workload_init hash K0 early bs dataset) (workload_step hash)"

lemma workload_run:
  "(workload_step hash)\<^sup>*\<^sup>* w w' \<Longrightarrow> in_workload hash K0 early bs dataset w \<Longrightarrow> in_workload hash K0 early bs dataset w'"
  by (induction rule: rtranclp_induct) (auto intro: reach_step)

section \<open>Sizes\<close>

text \<open>Datasets of at most \<open>2 ^ 54\<close> requests, and histories that stay not far above that.\<close>

definition within :: "Cluster \<Rightarrow> bool" where
  "within c \<longleftrightarrow> (\<forall>p\<in>set node_ids. length (c_hist c p) \<le> 2 ^ 54 + 32768)"

lemma within_brief: "within c \<Longrightarrow> brief (c_hist c)"
  by (fastforce simp: within_def brief_def)

lemma workload_facts:
  assumes "in_workload hash K0 early bs dataset w" and brief: "brief (c_hist (wl_cluster w))"
  shows "reachable hash K0 (wl_cluster w)" "full_inv hash K0 (wl_cluster w)" "p \<in> set node_ids \<Longrightarrow> on_trace dataset w p"
proof -
  from brief workload.inv_reach [OF assms(1)] have inv: "reach (run_init hash K0) (run_step hash) (wl_run w)"
    "p \<in> set node_ids \<Longrightarrow> on_trace dataset w p" by (simp_all add: workload_inv_def)
  from inv(2) show "p \<in> set node_ids \<Longrightarrow> on_trace dataset w p" .
  show reach: "reachable hash K0 (wl_cluster w)" by (rule run_cluster [OF inv(1)])
  show "full_inv hash K0 (wl_cluster w)" by (rule reachable_inv [OF reach brief_short [OF brief]])
qed

text \<open>A node with a submission in progress has issued only requests of its dataset.\<close>

lemma busy_length:
  assumes "in_workload hash K0 early bs dataset w" "within (wl_cluster w)" "p \<in> set node_ids"
    and "c_sub (wl_cluster w) p \<noteq> Sub_Idle" "length (requests_of (dataset p)) \<le> 2 ^ 54"
  shows "length (c_hist (wl_cluster w) p) \<le> 2 ^ 54" "\<not> n_input_done (c_node (wl_cluster w) p)"
proof -
  note f = workload_facts [OF assms(1) within_brief [OF assms(2)]]
  show fresh: "\<not> n_input_done (c_node (wl_cluster w) p)"
    using full_invD(1) [OF f(2) assms(3)] assms(4) by (auto simp: node_ok_def)
  have "length (map content (filter is_request (c_hist (wl_cluster w) p))) \<le> length (map wanted (filter valid_op (requests_of (dataset p))))"
    using f(3) [OF assms(3)] unfolding on_trace_def issued_trace_def by (metis append_assoc length_append le_add1)
  also have "\<dots> \<le> length (requests_of (dataset p))" by simp
  finally show "length (c_hist (wl_cluster w) p) \<le> 2 ^ 54"
    using all_requests [OF f(1) within_brief [OF assms(2)] assms(3) fresh] assms(5) by simp
qed

lemma busy_front:
  assumes "full_inv hash K0 c" "settled c" "p \<in> set node_ids" "length (c_hist c p) \<le> k"
  shows "front c \<le> seq_of p (length (c_hist c p))" "front c \<le> 3 * k + 3"
proof -
  obtain e where e: "\<And>p. p \<in> set node_ids \<Longrightarrow> exec_next (c_node c p) = e" "\<And>s. 1 \<le> s \<Longrightarrow> s < e \<Longrightarrow> was_issued (c_hist c) s"
    using settled_front [OF assms(1,2)] by metis
  have "\<not> was_issued (c_hist c) (seq_of p (length (c_hist c p)))" using split_seq_of [OF assms(3)] by (simp add: was_issued_def)
  moreover have "1 \<le> seq_of p (length (c_hist c p))" using split_seq_of(3) [OF assms(3)] .
  moreover have "front c = e" using e(1) by (simp add: front_def node_ids_def)
  ultimately show "front c \<le> seq_of p (length (c_hist c p))" using e(2) linorder_not_le by blast
  then show "front c \<le> 3 * k + 3" using assms(3,4) by (auto simp: seq_of_def node_ids_def)
qed

section \<open>Admission\<close>

abbreviation work :: "Cluster \<Rightarrow> nat" where
  "work c \<equiv> (\<Sum>p\<leftarrow>node_ids. queued (c_sub c p))"

lemma carries_queued:
  assumes "carries c c'" "p \<in> set node_ids"
  shows "queued (c_sub c' p) \<le> queued (c_sub c p)"
    and "length (c_hist c p) < length (c_hist c' p) \<Longrightarrow> 0 < queued (c_sub c p) \<Longrightarrow> queued (c_sub c' p) < queued (c_sub c p)"
proof -
  have "c_sub c' p = Sub_Idle \<or> demand c' p = demand c p" "length (c_hist c p) \<le> length (c_hist c' p)"
    using assms by (auto simp: carries_def)
  then show "queued (c_sub c' p) \<le> queued (c_sub c p)"
    and "length (c_hist c p) < length (c_hist c' p) \<Longrightarrow> 0 < queued (c_sub c p) \<Longrightarrow> queued (c_sub c' p) < queued (c_sub c p)"
    by (auto simp: demand_def)
qed

lemma carries_work:
  assumes "carries c c'"
  shows "work c' \<le> work c" and "p \<in> set node_ids \<Longrightarrow> queued (c_sub c' p) < queued (c_sub c p) \<Longrightarrow> work c' < work c"
proof -
  have "queued (c_sub c' 1) \<le> queued (c_sub c 1)" "queued (c_sub c' 2) \<le> queued (c_sub c 2)" "queued (c_sub c' 3) \<le> queued (c_sub c 3)"
    using carries_queued(1) [OF assms] by (simp_all add: node_ids_def)
  then show "work c' \<le> work c" and "p \<in> set node_ids \<Longrightarrow> queued (c_sub c' p) < queued (c_sub c p) \<Longrightarrow> work c' < work c"
    by (auto simp: node_ids_def)
qed

lemma settled_queued:
  assumes "full_inv hash K0 c" "settled c" "p \<in> set node_ids"
  shows "c_sub c p \<noteq> Sub_Idle \<longleftrightarrow> 0 < queued (c_sub c p)"
proof
  assume "c_sub c p \<noteq> Sub_Idle"
  then have "waits_admission (c_sub c p)" using assms(2,3) by (auto simp: settled_def)
  then obtain ch chs where sub: "c_sub c p = Sub_Admit (ch # chs)" by (cases "c_sub c p" rule: waits_admission.cases) auto
  then have "ch \<noteq> []" using full_invD(1) [OF assms(1,3)] by (simp add: node_ok_def chunk_ok_def)
  with sub show "0 < queued (c_sub c p)" by simp
qed auto

text \<open>A round of the threads in a workload whose idle drivers have all reported the end of their input.\<close>

lemma workload_round:
  assumes w: "in_workload hash K0 early bs dataset w" "brief (c_hist (wl_cluster w))" and set: "settled (wl_cluster w)"
    and front: "front (wl_cluster w) \<le> 3 * 2 ^ 55 + 3"
    and over: "\<And>p. p \<in> set node_ids \<Longrightarrow> c_sub (wl_cluster w) p = Sub_Idle \<Longrightarrow> ru_pc (wl_run w) p \<noteq> Dr_Replay"
  obtains ws c' where "(workload_step hash)\<^sup>*\<^sup>* w (with_cluster w c')" "carries (wl_cluster w) c'" "settled c'" "full_inv hash K0 c'"
    "front (wl_cluster w) < front c'" "ws \<noteq> []"
    "c_hist c' = (c_hist (wl_cluster w))(proposer_of (front (wl_cluster w)) :=
       c_hist (wl_cluster w) (proposer_of (front (wl_cluster w))) @ ws)"
    "\<And>p. p \<in> set node_ids \<Longrightarrow> 3 * length (c_hist c' p) < front (wl_cluster w) + 65536"
proof -
  note f = workload_facts [OF w]
  let ?c = "wl_cluster w" and ?o = "proposer_of (front (wl_cluster w))"
  have "n_input_done (c_node ?c ?o)" if "c_sub ?c ?o = Sub_Idle"
    using over [OF proposer_of_id that] f(3) [OF proposer_of_id] by (simp add: on_trace_def)
  with thread_round [OF f(1) set f(2) front] that thread_workload_run show ?thesis by metis
qed

lemma admission_progress:
  assumes "in_workload hash K0 early bs dataset w" "within (wl_cluster w)" "settled (wl_cluster w)"
    and "\<And>p. p \<in> set node_ids \<Longrightarrow> c_sub (wl_cluster w) p = Sub_Idle \<Longrightarrow> ru_pc (wl_run w) p \<noteq> Dr_Replay"
    and "\<And>p. p \<in> set node_ids \<Longrightarrow> length (requests_of (dataset p)) \<le> 2 ^ 54"
    and "p \<in> set node_ids" "c_sub (wl_cluster w) p \<noteq> Sub_Idle"
  shows "\<exists>c'. (workload_step hash)\<^sup>*\<^sup>* w (with_cluster w c') \<and> within c' \<and> work c' < work (wl_cluster w)"
  using assms
proof (induction "seq_of p (length (c_hist (wl_cluster w) p)) - front (wl_cluster w)" arbitrary: w rule: less_induct)
  case less
  let ?c = "wl_cluster w" and ?o = "proposer_of (front (wl_cluster w))"
  note brief = within_brief [OF less.prems(2)]
  note f = workload_facts [OF less.prems(1) brief] and p = less.prems(6)
  have len: "length (c_hist ?c p) \<le> 2 ^ 54" by (rule busy_length(1) [OF less.prems(1,2) p less.prems(7) less.prems(5) [OF p]])
  have front: "front ?c \<le> 3 * 2 ^ 54 + 3" by (rule busy_front(2) [OF f(2) less.prems(3) p len])
  then have "front ?c \<le> 3 * 2 ^ 55 + 3" by simp
  from workload_round [OF less.prems(1) brief less.prems(3) this less.prems(4)] obtain ws c' where
    c': "(workload_step hash)\<^sup>*\<^sup>* w (with_cluster w c')" "carries ?c c'" "settled c'" "full_inv hash K0 c'"
      "front ?c < front c'" "ws \<noteq> []" "c_hist c' = (c_hist ?c)(?o := c_hist ?c ?o @ ws)"
      "\<And>p. p \<in> set node_ids \<Longrightarrow> 3 * length (c_hist c' p) < front ?c + 65536" by blast
  have in_bounds: "within c'" unfolding within_def using c'(8) front by fastforce
  show ?case
  proof (cases "work c' < work ?c")
    case True
    with c'(1) in_bounds show ?thesis by blast
  next
    case False
    have q: "queued (c_sub c' x) = queued (c_sub ?c x)" if "x \<in> set node_ids" for x
      using carries_work(2) [OF c'(2) that] carries_queued(1) [OF c'(2) that] False by linarith
    have idle: "c_sub c' x = Sub_Idle \<longleftrightarrow> c_sub ?c x = Sub_Idle" if "x \<in> set node_ids" for x
      using settled_queued [OF f(2) less.prems(3) that] settled_queued [OF c'(4,3) that] q [OF that] by metis
    have "length (c_hist ?c ?o) < length (c_hist c' ?o)" using c'(6,7) by simp
    then have "queued (c_sub ?c ?o) = 0" using carries_queued(2) [OF c'(2) proposer_of_id] q [OF proposer_of_id] by fastforce
    then have "?o \<noteq> p" using settled_queued [OF f(2) less.prems(3) p] less.prems(7) by auto
    then have same: "c_hist c' p = c_hist ?c p" by (simp add: c'(7))
    have "length (c_hist c' p) \<le> 2 ^ 54" using len same by simp
    note bound = busy_front(1) [OF c'(4,3) p this]
    let ?w = "with_cluster w c'"
    have "in_workload hash K0 early bs dataset ?w" by (rule workload_run [OF c'(1) less.prems(1)])
    moreover have "seq_of p (length (c_hist (wl_cluster ?w) p)) - front (wl_cluster ?w) < seq_of p (length (c_hist ?c p)) - front ?c"
      using bound c'(5) same by simp
    ultimately obtain c'' where "(workload_step hash)\<^sup>*\<^sup>* ?w (with_cluster ?w c'')" "within c''" "work c'' < work c'"
      using less.hyps [of ?w] c'(3) in_bounds idle less.prems(4,5,7) p by fastforce
    with c'(1) carries_work(1) [OF c'(2)] show ?thesis by (intro exI [of _ c'']) (auto intro: rtranclp_trans)
  qed
qed

section \<open>The end of all input\<close>

definition input_work :: "Workload \<Rightarrow> nat" where
  "input_work w = (\<Sum>p\<leftarrow>node_ids. 2 * length (wl_todo w p) + (if ru_pc (wl_run w) p = Dr_Replay then 1 else 0))"

lemma sum_node_ids_less:
  fixes f g :: "nat \<Rightarrow> nat"
  assumes "p \<in> set node_ids" "f p < g p" "\<And>x. x \<noteq> p \<Longrightarrow> f x = g x"
  shows "(\<Sum>x\<leftarrow>node_ids. f x) < (\<Sum>x\<leftarrow>node_ids. g x)"
proof -
  consider "p = 1" "f 2 = g 2" "f 3 = g 3" | "p = 2" "f 1 = g 1" "f 3 = g 3" | "p = 3" "f 1 = g 1" "f 2 = g 2"
    using assms(1) assms(3) [of 1] assms(3) [of 2] assms(3) [of 3] by (auto simp: node_ids_def)
  then show ?thesis using assms(2) by cases (simp_all add: node_ids_def)
qed

text \<open>An idle driver takes its next batch or reports the end of its input.\<close>

lemma driver_progress:
  assumes p: "p \<in> set node_ids" "ru_pc (wl_run w) p = Dr_Replay" "c_sub (wl_cluster w) p = Sub_Idle"
  shows "\<exists>w'. workload_step hash w w' \<and> input_work w' < input_work w \<and> c_hist (wl_cluster w') = c_hist (wl_cluster w)"
proof (cases "wl_todo w p")
  case Nil
  let ?c = "wl_cluster w"
  let ?w = "w\<lparr>wl_run := (wl_run w)\<lparr>ru_pc := (ru_pc (wl_run w))(p := Dr_Wait),
      ru_cluster := ?c\<lparr>c_node := (c_node ?c)(p := mark_input_done (c_node ?c p))\<rparr>\<rparr>\<rparr>"
  have "workload_step hash w ?w" by (rule workload_step.input_over [OF refl p Nil])
  moreover have "input_work ?w < input_work w" unfolding input_work_def using p(2) by (intro sum_node_ids_less [OF p(1)]) auto
  ultimately show ?thesis by (intro exI [of _ ?w]) simp
next
  case (Cons b batches)
  let ?c = "wl_cluster w" and ?scratch = "\<lambda>_. replicate kMaxValueBytes CHR 0x00"
  obtain pc n where sb: "submit_begin ?scratch b (c_node ?c p) = (pc, n)" by fastforce
  let ?w = "with_cluster w (?c\<lparr>c_sub := (c_sub ?c)(p := pc), c_node := (c_node ?c)(p := n)\<rparr>)
    \<lparr>wl_todo := (wl_todo w)(p := batches)\<rparr>"
  have "workload_step hash w ?w" by (rule workload_step.next_batch [OF refl p Cons _ sb]) simp
  moreover have "input_work ?w < input_work w" unfolding input_work_def using Cons by (intro sum_node_ids_less [OF p(1)]) auto
  ultimately show ?thesis by (intro exI [of _ ?w]) simp
qed

lemma input_ends:
  assumes "in_workload hash K0 early bs dataset w" "within (wl_cluster w)"
    and "\<And>p. p \<in> set node_ids \<Longrightarrow> length (requests_of (dataset p)) \<le> 2 ^ 54"
  shows "\<exists>w'. (workload_step hash)\<^sup>*\<^sup>* w w' \<and> within (wl_cluster w') \<and> settled (wl_cluster w') \<and>
    (\<forall>p\<in>set node_ids. ru_pc (wl_run w') p \<noteq> Dr_Replay)"
  using assms
proof (induction "(input_work w, work (wl_cluster w))" arbitrary: w rule: wf_induct_rule [OF wf_lex_prod [OF wf_less_than wf_less_than]])
  case (1 w)
  note brief = within_brief [OF "1.prems"(2)]
  note f = workload_facts [OF "1.prems"(1) brief]
  obtain c1 where c1: "(thread_step hash)\<^sup>*\<^sup>* (wl_cluster w) c1" "settled c1" "c_hist c1 = c_hist (wl_cluster w)" "carries (wl_cluster w) c1"
    using drain_to_settled [OF f(2) brief_short [OF brief]] by blast
  let ?w = "with_cluster w c1"
  have run: "(workload_step hash)\<^sup>*\<^sup>* w ?w" by (rule thread_workload_run [OF c1(1)])
  have w1: "in_workload hash K0 early bs dataset ?w" by (rule workload_run [OF run "1.prems"(1)])
  have in1: "within (wl_cluster ?w)" using "1.prems"(2) c1(3) by (simp add: within_def)
  have less: "input_work ?w = input_work w" "work c1 \<le> work (wl_cluster w)"
    using carries_work(1) [OF c1(4)] by (simp_all add: input_work_def)
  have goes_on: ?case if w2: "(workload_step hash)\<^sup>*\<^sup>* ?w w2" "within (wl_cluster w2)"
    and "input_work w2 < input_work w \<or> input_work w2 = input_work w \<and> work (wl_cluster w2) < work (wl_cluster w)" for w2
  proof -
    have "((input_work w2, work (wl_cluster w2)), (input_work w, work (wl_cluster w))) \<in> less_than <*lex*> less_than"
      using that(3) by auto
    from "1.hyps" [OF this workload_run [OF w2(1) w1] w2(2) "1.prems"(3)] run w2(1) show ?thesis by (meson rtranclp_trans)
  qed
  show ?case
  proof (cases "\<exists>p\<in>set node_ids. ru_pc (wl_run w) p = Dr_Replay \<and> c_sub c1 p = Sub_Idle")
    case True
    then obtain w2 where "workload_step hash ?w w2" "input_work w2 < input_work ?w" "c_hist (wl_cluster w2) = c_hist c1"
      using driver_progress [of _ ?w hash] by auto
    then show ?thesis using goes_on [of w2] less in1 by (auto simp: within_def)
  next
    case busy: False
    show ?thesis
    proof (cases "\<exists>p\<in>set node_ids. ru_pc (wl_run w) p = Dr_Replay")
      case True
      then obtain p where p: "p \<in> set node_ids" "c_sub c1 p \<noteq> Sub_Idle" using busy by blast
      have "settled (wl_cluster ?w)" "c_sub (wl_cluster ?w) p \<noteq> Sub_Idle" using c1(2) p(2) by simp_all
      moreover have "ru_pc (wl_run ?w) x \<noteq> Dr_Replay" if "x \<in> set node_ids" "c_sub (wl_cluster ?w) x = Sub_Idle" for x
        using busy that by auto
      ultimately obtain c2 where c2: "(workload_step hash)\<^sup>*\<^sup>* ?w (with_cluster ?w c2)" "within c2" "work c2 < work (wl_cluster ?w)"
        using admission_progress [OF w1 in1 _ _ "1.prems"(3) p(1)] by blast
      then show ?thesis using goes_on [OF c2(1)] less by (auto simp: input_work_def)
    next
      case False
      with run in1 c1(2) show ?thesis by (intro exI [of _ ?w]) simp
    qed
  qed
qed

section \<open>The end of the run\<close>

lemma rounds_to:
  assumes "in_workload hash K0 early bs dataset w" "brief (c_hist (wl_cluster w))" "settled (wl_cluster w)"
    and "N \<le> 3 * 2 ^ 55 + 3" "\<forall>p\<in>set node_ids. ru_pc (wl_run w) p \<noteq> Dr_Replay"
  shows "\<exists>c'. (workload_step hash)\<^sup>*\<^sup>* w (with_cluster w c') \<and> carries (wl_cluster w) c' \<and> settled c' \<and>
    brief (c_hist c') \<and> N \<le> front c'"
  using assms
proof (induction "N - front (wl_cluster w)" arbitrary: w rule: less_induct)
  case less
  show ?case
  proof (cases "N \<le> front (wl_cluster w)")
    case True
    with less.prems show ?thesis by (intro exI [of _ "wl_cluster w"]) (simp add: carries_refl)
  next
    case False
    then have "front (wl_cluster w) \<le> 3 * 2 ^ 55 + 3" using less.prems(4) by simp
    from workload_round [OF less.prems(1-3) this] less.prems(5) obtain c1 where
      c1: "(workload_step hash)\<^sup>*\<^sup>* w (with_cluster w c1)" "carries (wl_cluster w) c1" "settled c1" "front (wl_cluster w) < front c1"
        "\<And>p. p \<in> set node_ids \<Longrightarrow> 3 * length (c_hist c1 p) < front (wl_cluster w) + 65536" by metis
    let ?w = "with_cluster w c1"
    have "brief (c_hist c1)" unfolding brief_def using c1(5) less.prems(4) False by fastforce
    moreover have "N - front c1 < N - front (wl_cluster w)" using c1(4) False by simp
    ultimately obtain c2 where "(workload_step hash)\<^sup>*\<^sup>* ?w (with_cluster ?w c2)" "carries c1 c2" "settled c2" "brief (c_hist c2)" "N \<le> front c2"
      using less.hyps [of ?w] workload_run [OF c1(1) less.prems(1)] c1(3) less.prems(4,5) by auto
    with c1(1,2) carries_trans show ?thesis by (intro exI [of _ c2]) (auto intro: rtranclp_trans)
  qed
qed

lemma all_waits_over:
  assumes w: "in_workload hash K0 early bs dataset w" "within (wl_cluster w)" "settled (wl_cluster w)"
    and over: "\<forall>p\<in>set node_ids. ru_pc (wl_run w) p \<noteq> Dr_Replay"
  shows "\<exists>c'. (workload_step hash)\<^sup>*\<^sup>* w (with_cluster w c') \<and> brief (c_hist c') \<and>
    (\<forall>p\<in>set node_ids. pending_wait_over (c_node c' p))"
proof -
  let ?c = "wl_cluster w"
  note brief = within_brief [OF w(2)]
  note f = workload_facts [OF w(1) brief]
  obtain c' where c': "(workload_step hash)\<^sup>*\<^sup>* w (with_cluster w c')" "carries ?c c'" "settled c'" "brief (c_hist c')"
    "3 * 2 ^ 54 + 98307 \<le> front c'"
    using rounds_to [OF w(1) brief w(3) _ over, of "3 * 2 ^ 54 + 98307"] by auto
  have w': "in_workload hash K0 early bs dataset (with_cluster w c')" by (rule workload_run [OF c'(1) w(1)])
  have f': "reachable hash K0 c'" "full_inv hash K0 c'" using workload_facts(1,2) [OF w'] c'(4) by simp_all
  have "pending_wait_over (c_node c' p)" if p: "p \<in> set node_ids" for p
  proof -
    have "n_input_done (c_node ?c p)" using f(3) [OF p] over p by (simp add: on_trace_def)
    then have "c_sub ?c p = Sub_Idle" using full_invD(1) [OF f(2) p] by (simp add: node_ok_def)
    then have "3 * Suc (demand ?c p) \<le> front c'" using w(2) p c'(5) by (fastforce simp: within_def demand_def)
    from settled_requests_executed(2) [OF f' c'(3,2) p this] show ?thesis
      using wait_iff_executed [OF f'(1) c'(4) p] settled_owner(3) [OF f'(2) c'(3) p] by simp
  qed
  with c'(1,4) show ?thesis by blast
qed

definition all_reported :: "Workload \<Rightarrow> bool" where
  "all_reported w \<longleftrightarrow> (\<forall>p\<in>set node_ids. ru_pc (wl_run w) p = Dr_Replay \<or> ru_pc (wl_run w) p = Dr_Wait \<or> ru_finished (wl_run w) p \<noteq> 0)"

interpretation reporting: step_invariant "workload_init hash K0 early bs dataset" "workload_step hash" all_reported
  for hash K0 early bs dataset
proof unfold_locales
  show "all_reported w" if "workload_init hash K0 early bs dataset w" for w
    using that by (simp add: all_reported_def workload_init_def run_init_def)
  show "all_reported w'" if "all_reported w" "workload_step hash w w'" for w w'
    using that(2,1) by cases (auto simp: all_reported_def)
qed

fun driver_rank :: "driver_pc \<Rightarrow> nat" where
  "driver_rank Dr_Replay = 8"
| "driver_rank Dr_Wait = 7"
| "driver_rank (Dr_Barrier i) = Suc (5 - i)"
| "driver_rank Dr_Left = 0"

lemma drivers_leave:
  assumes "all_reported w" "\<forall>p\<in>set node_ids. ru_pc (wl_run w) p \<noteq> Dr_Replay"
    and "\<forall>p\<in>set node_ids. pending_wait_over (c_node (wl_cluster w) p)"
  shows "\<exists>w'. (workload_step hash)\<^sup>*\<^sup>* w w' \<and> wl_cluster w' = wl_cluster w \<and> (\<forall>p\<in>set node_ids. ru_pc (wl_run w') p = Dr_Left)"
  using assms
proof (induction "\<Sum>p\<leftarrow>node_ids. driver_rank (ru_pc (wl_run w) p)" arbitrary: w rule: less_induct)
  case less
  have goes_on: ?case if step: "workload_step hash w w1" "p \<in> set node_ids" "ru_pc (wl_run w1) = (ru_pc (wl_run w))(p := pc)"
    "driver_rank pc < driver_rank (ru_pc (wl_run w) p)" "pc \<noteq> Dr_Replay" "wl_cluster w1 = wl_cluster w" for w1 p pc
  proof -
    have rep: "all_reported w1" by (rule reporting.inv_step [OF less.prems(1) step(1)])
    have rank: "(\<Sum>p\<leftarrow>node_ids. driver_rank (ru_pc (wl_run w1) p)) < (\<Sum>p\<leftarrow>node_ids. driver_rank (ru_pc (wl_run w) p))"
      using step(3,4) by (intro sum_node_ids_less [OF step(2)]) simp_all
    have pcs: "\<forall>x\<in>set node_ids. ru_pc (wl_run w1) x \<noteq> Dr_Replay" using less.prems(2) step(3,5) by simp
    have "\<forall>x\<in>set node_ids. pending_wait_over (c_node (wl_cluster w1) x)" using less.prems(3) step(6) by simp
    from less.hyps [OF rank rep pcs this] step(1,6) show ?thesis by (metis converse_rtranclp_into_rtranclp)
  qed
  consider p where "p \<in> set node_ids" "ru_pc (wl_run w) p = Dr_Wait"
    | p i where "p \<in> set node_ids" "ru_pc (wl_run w) p = Dr_Barrier i" "\<forall>q\<in>set node_ids. ru_pc (wl_run w) q \<noteq> Dr_Wait"
    | "\<forall>p\<in>set node_ids. ru_pc (wl_run w) p = Dr_Left"
    using less.prems(2) by (metis driver_pc.exhaust)
  then show ?case
  proof cases
    case (1 p)
    with less.prems(3) have step: "workload_step hash w (w\<lparr>wl_run := (wl_run w)\<lparr>ru_pc := (ru_pc (wl_run w))(p := Dr_Barrier 1),
        ru_finished := (ru_finished (wl_run w))(p := 1)\<rparr>\<rparr>)"
      by (intro workload_step.report) simp_all
    show ?thesis by (rule goes_on [OF step 1(1), of "Dr_Barrier 1"]) (simp_all add: 1(2))
  next
    case (2 p i)
    then have step: "workload_step hash w (w\<lparr>wl_run := (wl_run w)\<lparr>ru_pc := (ru_pc (wl_run w))(p := barrier_step (ru_finished (wl_run w)) i)\<rparr>\<rparr>)"
      by (intro workload_step.barrier) simp_all
    have "i = 0 \<or> 3 < i \<or> ru_finished (wl_run w) i \<noteq> 0"
      using less.prems(1,2) 2(3) by (cases "i \<in> set node_ids") (fastforce simp: all_reported_def node_ids_def)+
    then have "driver_rank (barrier_step (ru_finished (wl_run w)) i) < driver_rank (ru_pc (wl_run w) p)"
      "barrier_step (ru_finished (wl_run w)) i \<noteq> Dr_Replay"
      by (auto simp: barrier_step_def 2(2))
    then show ?thesis by (intro goes_on [OF step 2(1)]) simp_all
  next
    case 3
    then show ?thesis by (intro exI [of _ w]) simp
  qed
qed

lemma workload_finishes:
  assumes "reach (workload_init hash K0 early bs dataset) (workload_step hash) w"
    and "\<forall>p\<in>set node_ids. length (c_hist (wl_cluster w) p) \<le> 2 ^ 54 \<and> length (requests_of (dataset p)) \<le> 2 ^ 54"
  shows "\<exists>w'. (workload_step hash)\<^sup>*\<^sup>* w w' \<and> brief (c_hist (wl_cluster w')) \<and>
    (\<forall>p\<in>set node_ids. wl_todo w' p = [] \<and> ru_pc (wl_run w') p = Dr_Left)"
proof -
  have "within (wl_cluster w)" unfolding within_def using assms(2) by fastforce
  then obtain w1 where w1: "(workload_step hash)\<^sup>*\<^sup>* w w1" "within (wl_cluster w1)" "settled (wl_cluster w1)"
    "\<forall>p\<in>set node_ids. ru_pc (wl_run w1) p \<noteq> Dr_Replay"
    using input_ends [OF assms(1)] assms(2) by blast
  have in1: "in_workload hash K0 early bs dataset w1" by (rule workload_run [OF w1(1) assms(1)])
  from all_waits_over [OF in1 w1(2-4)] obtain c2 where c2: "(workload_step hash)\<^sup>*\<^sup>* w1 (with_cluster w1 c2)" "brief (c_hist c2)"
    "\<forall>p\<in>set node_ids. pending_wait_over (c_node c2 p)" by blast
  have in2: "in_workload hash K0 early bs dataset (with_cluster w1 c2)" by (rule workload_run [OF c2(1) in1])
  from drivers_leave [of "with_cluster w1 c2" hash] reporting.inv_reach [OF in2] w1(4) c2(3) obtain w3 where
    w3: "(workload_step hash)\<^sup>*\<^sup>* (with_cluster w1 c2) w3" "wl_cluster w3 = c2" "\<forall>p\<in>set node_ids. ru_pc (wl_run w3) p = Dr_Left" by auto
  have "in_workload hash K0 early bs dataset w3" by (rule workload_run [OF w3(1) in2])
  then have "on_trace dataset w3 p" if "p \<in> set node_ids" for p using workload_facts(3) [OF _ _ that] w3(2) c2(2) by blast
  then have "\<forall>p\<in>set node_ids. wl_todo w3 p = []" using w3(3) by (simp add: on_trace_def)
  moreover have "(workload_step hash)\<^sup>*\<^sup>* w w3" using w1(1) c2(1) w3(1) by (meson rtranclp_trans)
  ultimately show ?thesis using w3(2,3) c2(2) by (intro exI [of _ w3]) simp
qed

text \<open>Property C6: a run can always finish. From every state that the drivers and threads reach while they replay
  their datasets, whatever the interleaving so far, they can go on until every driver has submitted its
  whole trace, has waited for its requests and has left the final loop: no state of the run is a dead end.\<close>

theorem workload_can_finish:
  assumes "reach (workload_init hash K0 early bs dataset) (workload_step hash) w"
    and "\<forall>p\<in>set node_ids. length (c_hist (wl_cluster w) p) \<le> 2 ^ 54 \<and> length (requests_of (dataset p)) \<le> 2 ^ 54"
  shows "\<exists>w'. (workload_step hash)\<^sup>*\<^sup>* w w' \<and> brief (c_hist (wl_cluster w')) \<and>
    (\<forall>p\<in>set node_ids. wl_todo w' p = [] \<and> ru_pc (wl_run w') p = Dr_Left)"
  using assms by (rule workload_finishes)

text \<open>Runs on given datasets from an empty cluster, and the datasets of one read at node 1.\<close>

definition demo_workload :: "(nat \<Rightarrow> string) \<Rightarrow> Workload" where
  "demo_workload dataset = \<lparr> wl_run = demo_start, wl_todo = (\<lambda>p. replay (\<lambda>_. False) 1 (dataset p)) \<rparr>"

definition demo_traces :: "nat \<Rightarrow> string" where
  "demo_traces p = (if p = 1 then ''1,G k'' else '''')"

abbreviation in_demo where
  "in_demo hash dataset \<equiv> in_workload hash Map.empty (\<lambda>_ _. False) (\<lambda>_. 1) dataset"

lemma demo_workload_facts:
  assumes "\<forall>p\<in>set node_ids. length (requests_of (dataset p)) \<le> 2 ^ 54"
  shows "in_demo hash dataset (demo_workload dataset)"
    and "\<forall>p\<in>set node_ids. length (c_hist (wl_cluster (demo_workload dataset)) p) \<le> 2 ^ 54 \<and> length (requests_of (dataset p)) \<le> 2 ^ 54"
proof -
  show "in_demo hash dataset (demo_workload dataset)"
    by (rule reach_init) (simp add: workload_init_def run_init_def demo_workload_def demo_start_def demo_initial)
  show "\<forall>p\<in>set node_ids. length (c_hist (wl_cluster (demo_workload dataset)) p) \<le> 2 ^ 54 \<and> length (requests_of (dataset p)) \<le> 2 ^ 54"
    using assms by (simp add: demo_workload_def demo_start_def demo_cluster_def)
qed

lemma demo_finishes:
  assumes "\<forall>p\<in>set node_ids. length (requests_of (dataset p)) \<le> 2 ^ 54"
  obtains w where "(workload_step hash)\<^sup>*\<^sup>* (demo_workload dataset) w" "in_demo hash dataset w" "brief (c_hist (wl_cluster w))"
    "\<And>p. p \<in> set node_ids \<Longrightarrow> ru_pc (wl_run w) p = Dr_Left"
  using workload_finishes [OF demo_workload_facts [OF assms]] workload_run demo_workload_facts(1) [OF assms] by metis

lemma demo_requests:
  "requests_of (demo_traces p) = (if p = 1 then
     [\<lparr> q_op = CHR ''G'', q_key_ptr = Some ''k'', q_key_len = 1, q_value_ptr = None, q_value_len = 0 \<rparr>] else [])"
proof -
  have "split_lines ''1,G k'' = [''1,G k'']" "split_lines '''' = []" by (subst split_lines.simps, simp)+
  moreover have "parse_line_view ''1,G k''
      = Some \<lparr> v_ts_us = 1, v_op = CHR ''G'', v_key_ptr = ''k'', v_key_len = 1, v_value_ptr = None, v_value_len = 0 \<rparr>"
    by (simp add: parse_line_view_def strip_eol_def is_eol_def after_char_def before_char_def parse_u64_def is_digit_def digit_value_def)
  ultimately show ?thesis by (simp add: demo_traces_def requests_of_def map_filter_simps request_of_def)
qed

theorem workload_can_finish_witness:
  "\<exists>w. (workload_step (\<lambda>_. 0))\<^sup>*\<^sup>* (demo_workload demo_traces) w \<and> ru_pc (wl_run w) 3 = Dr_Left"
proof -
  have "\<forall>p\<in>set node_ids. length (requests_of (demo_traces p)) \<le> 2 ^ 54" by (simp add: demo_requests)
  from workload_can_finish [OF demo_workload_facts [OF this]] show ?thesis by (auto simp: node_ids_def)
qed

text \<open>Property C7: the traces are executed. When any driver has left a run in which every driver replays its dataset,
  the client requests that a node has issued are its dataset: one for every line with a known operation, in
  the order of the lines, with the operation, key and value of the line as far as they fit into a proposal.
  All of them have been executed at the node and are counted as completed, the reads among them as reads.\<close>

theorem traces_executed:
  assumes "reach (workload_init hash K0 early bs dataset) (workload_step hash) w" "brief (c_hist (wl_cluster w))"
    and "p \<in> set node_ids" "ru_pc (wl_run w) p = Dr_Left" "q \<in> set node_ids"
  defines "n \<equiv> c_node (wl_cluster w) q" and "h \<equiv> c_hist (wl_cluster w) q" and "reqs \<equiv> filter valid_op (requests_of (dataset q))"
  shows "map content (filter is_request h) = map wanted reqs \<and>
    (\<forall>i<length h. is_request (h ! i) \<longrightarrow> seq_of q i < exec_next n) \<and> unat (n_ok_ops n) = length reqs \<and>
    unat (n_read_ops n) = length (filter (\<lambda>req. q_op req = CHR ''G'') reqs)"
  using workload_end_facts [OF assms(1-5)] unfolding n_def h_def reqs_def .

theorem traces_executed_witness:
  "\<exists>w. (workload_step (\<lambda>_. 0))\<^sup>*\<^sup>* (demo_workload demo_traces) w \<and> ru_pc (wl_run w) 2 = Dr_Left \<and>
     map content (filter is_request (c_hist (wl_cluster w) 1)) = [(CHR ''G'', [], [])]"
proof -
  have ids: "1 \<in> set node_ids" "2 \<in> set node_ids" by (simp_all add: node_ids_def)
  have "\<forall>p\<in>set node_ids. length (requests_of (demo_traces p)) \<le> 2 ^ 54" by (simp add: demo_requests)
  then obtain w where w: "(workload_step (\<lambda>_. 0))\<^sup>*\<^sup>* (demo_workload demo_traces) w" "in_demo (\<lambda>_. 0) demo_traces w"
    "brief (c_hist (wl_cluster w))" "ru_pc (wl_run w) 2 = Dr_Left" using demo_finishes ids(2) by metis
  from traces_executed [OF w(2,3) ids(2) w(4) ids(1)] w(1,4) show ?thesis
    by (intro exI [of _ w]) (simp add: demo_requests valid_op_def wanted_def)
qed

end
