(* ===== verification/Request_Accounting.thy ===== *)
theory Request_Accounting
  imports Workload_Progress
begin

text \<open>
  Where the requests of a dataset are at any moment of a run: not yet submitted, queued for admission, admitted and
  pending, completed, or counted as errors. \<open>error_ops_\<close> is changed by \<open>submit_borrowed_batch\<close> alone, which adds
  the requests with an unknown operation.
\<close>

section \<open>Only submissions count errors\<close>

lemma errors_complete_entry: "n_error_ops (fst (complete_entry e n w)) = n_error_ops n"
  by (simp add: complete_entry_def finish_request_def rdtsc_ordered_def record_latency_def Let_def)

lemma errors_advance: "n_error_ops (fst (advance_execute_locked hash n)) = n_error_ops n"
  by (rule advance_induct [where P = "\<lambda>m. n_error_ops m = n_error_ops n"])
    (simp_all add: fst_exec_one set_log_def errors_complete_entry)

lemma errors_handlers:
  "n_error_ops (fst (handle_proposal_locked hash m adv n)) = n_error_ops n"
  "n_error_ops (fst (handle_p1_locked hash m n)) = n_error_ops n"
  "n_error_ops (fst (handle_decide_locked hash m n)) = n_error_ops n"
proof -
  have d: "n_error_ops (fst (decide_locked hash seq v n)) = n_error_ops n" for seq v n
    by (simp add: decide_locked_def Let_def errors_advance) (simp add: set_log_def)
  show "n_error_ops (fst (handle_proposal_locked hash m adv n)) = n_error_ops n"
    by (simp add: handle_proposal_locked_def Let_def errors_advance set_log_def split: prod.split)
  show "n_error_ops (fst (handle_p1_locked hash m n)) = n_error_ops n"
    by (simp add: handle_p1_locked_def Let_def d set_log_def)
  show "n_error_ops (fst (handle_decide_locked hash m n)) = n_error_ops n"
    by (simp add: handle_decide_locked_def Let_def errors_advance set_log_def)
qed

lemma errors_chunk_loop: "handle_chunk_loop hash ms need w n = (need', w', n') \<Longrightarrow> n_error_ops n' = n_error_ops n"
proof (induction ms arbitrary: need w n)
  case (Cons m ms)
  show ?case
    using Cons.prems Cons.IH errors_handlers(1) [of hash m False n] errors_handlers(2,3) [of hash m n]
    by (auto split: prod.splits BandleMsgType.splits)
qed simp

lemma errors_handle_chunk: "n_error_ops (fst (handle_chunk hash ms n)) = n_error_ops n"
proof -
  obtain need v n1 where l: "handle_chunk_loop hash ms False False n = (need, v, n1)" by (metis prod_cases3)
  with errors_chunk_loop [OF l] errors_advance [of hash n1] show ?thesis by (simp add: handle_chunk_def split_beta)
qed

lemma errors_deliver_loop: "n_error_ops (deliver_loop hash ms n) = n_error_ops n"
  by (induction ms arbitrary: n) (simp_all add: errors_handlers)

lemma errors_assign: "assign_chunk ms n = (ms', n') \<Longrightarrow> n_error_ops n' = n_error_ops n"
  by (induction ms arbitrary: ms' n n') (auto dest: assign_one_counters(2) split: prod.splits)

lemma errors_submit_step: "submit_step hash p sub n rs = (pc, n', rs') \<Longrightarrow> n_error_ops n' = n_error_ops n"
proof -
  assume step: "submit_step hash p sub n rs = (pc, n', rs')"
  have "n_error_ops n1 = n_error_ops n" if "try_assign ch n = Some (ms, n1)" for ch ms n1
    using that errors_assign [of ch n ms n1] by (simp add: try_assign_def Let_def split: if_splits)
  with step show ?thesis
    by (cases "(hash, p, sub, n, rs)" rule: submit_step.cases)
      (auto simp: deliver_chunk_def errors_advance errors_deliver_loop split: option.splits bcast_pc.splits prod.splits)
qed

lemma errors_noop_step: "noop_step hash p now fin np n rs = (pc, n', rs') \<Longrightarrow> n_error_ops n' = n_error_ops n"
  by (cases "(hash, p, now, fin, np, n, rs)" rule: noop_step.cases)
    (auto simp: noop_reserve_def errors_handlers split: if_splits prod.splits)

lemma errors_recv_step: "recv_step hash buf rv n r = (rv', n', r') \<Longrightarrow> n_error_ops n' = n_error_ops n"
  by (cases rv) (auto simp: Let_def errors_handle_chunk split: if_splits prod.splits)

section \<open>Submitted requests\<close>

abbreviation invalid_op :: "BorrowedRequest \<Rightarrow> bool" where
  "invalid_op req \<equiv> \<not> valid_op req"

definition accounted :: "(nat \<Rightarrow> string) \<Rightarrow> Workload \<Rightarrow> bool" where
  "accounted dataset w \<longleftrightarrow> (\<forall>p\<in>set node_ids. \<exists>submitted. requests_of (dataset p) = submitted @ concat (wl_todo w p) \<and>
     n_error_ops (c_node (wl_cluster w) p) = of_nat (length (filter invalid_op submitted)))"

lemma accounted_same:
  assumes "accounted dataset w" "wl_todo w' = wl_todo w"
    and "\<And>p. n_error_ops (c_node (wl_cluster w') p) = n_error_ops (c_node (wl_cluster w) p)"
  shows "accounted dataset w'"
  using assms by (simp add: accounted_def)

lemma errors_submit_begin:
  assumes "submit_begin scratch reqs n = (pc, n')"
  shows "n_error_ops n' = n_error_ops n + of_nat (length (filter invalid_op reqs))"
  using assms build_proposals_spec [of scratch reqs 0 n] by (auto simp: submit_begin_def comp_def split: if_splits)

lemma accounted_step:
  assumes inv: "accounted dataset w" and step: "workload_step hash w w'"
  shows "accounted dataset w'"
  using step
proof cases
  case (next_batch c p reqs batches scratch pc n)
  show ?thesis unfolding accounted_def
  proof
    fix x assume x: "x \<in> set node_ids"
    obtain submitted where s: "requests_of (dataset x) = submitted @ concat (wl_todo w x)"
      "n_error_ops (c_node (wl_cluster w) x) = of_nat (length (filter invalid_op submitted))"
      using inv x by (auto simp: accounted_def)
    show "\<exists>submitted. requests_of (dataset x) = submitted @ concat (wl_todo w' x) \<and>
        n_error_ops (c_node (wl_cluster w') x) = of_nat (length (filter invalid_op submitted))"
    proof (cases "x = p")
      case True
      with s next_batch errors_submit_begin [OF next_batch(8)] show ?thesis by (intro exI [of _ "submitted @ reqs"]) simp
    next
      case False
      with s next_batch show ?thesis by (intro exI [of _ submitted]) simp
    qed
  qed
next
  case (submit c p pc n rs)
  with errors_submit_step [OF submit(4)] show ?thesis by (intro accounted_same [OF inv]) auto
next
  case (noop c p now fin pc n rs)
  with errors_noop_step [OF noop(4)] show ?thesis by (intro accounted_same [OF inv]) auto
next
  case (recv c p q buf pc n r)
  with errors_recv_step [OF recv(7)] show ?thesis by (intro accounted_same [OF inv]) auto
next
  case (input_over r p)
  then show ?thesis by (intro accounted_same [OF inv]) (auto simp: mark_input_done_def)
next
  case (report r p)
  then show ?thesis by (intro accounted_same [OF inv]) auto
next
  case (barrier r p i)
  then show ?thesis by (intro accounted_same [OF inv]) auto
qed

lemma accounted_init:
  assumes "workload_init hash K0 early bs dataset w"
  shows "accounted dataset w"
proof -
  have "requests_of (dataset p) = [] @ concat (wl_todo w p) \<and>
      n_error_ops (c_node (wl_cluster w) p) = of_nat (length (filter invalid_op []))" if "p \<in> set node_ids" for p
    using assms that initial_counters(4) [of hash K0 p]
    by (simp add: workload_init_def replay_concat run_init_def cluster_init_def)
  then show ?thesis unfolding accounted_def by blast
qed

interpretation accounting: step_invariant "workload_init hash K0 early bs dataset" "workload_step hash" "accounted dataset"
  for hash K0 early bs dataset
  by unfold_locales (auto intro: accounted_init accounted_step)

section \<open>Every request is in one place\<close>

lemma split_requests:
  assumes "finite (S :: nat set)"
  shows "card {i \<in> S. P i \<and> e \<le> f i} + card {i \<in> S. P i \<and> f i < (e :: nat)} = card {i \<in> S. P i}"
proof -
  have "card {i \<in> S. P i \<and> e \<le> f i} + card {i \<in> S. P i \<and> f i < e}
      = card ({i \<in> S. P i \<and> e \<le> f i} \<union> {i \<in> S. P i \<and> f i < e})"
    using assms by (intro card_Un_disjoint [symmetric]) auto
  also have "{i \<in> S. P i \<and> e \<le> f i} \<union> {i \<in> S. P i \<and> f i < e} = {i \<in> S. P i}" by auto
  finally show ?thesis .
qed

lemma admitted_count:
  assumes "reachable hash K0 c" "brief (c_hist c)" "p \<in> set node_ids"
  shows "unat (n_pending_count (c_node c p)) + unat (n_ok_ops (c_node c p)) = length (filter is_request (c_hist c p))"
  using request_counts [OF assms] split_requests [of "{..<length (c_hist c p)}" "\<lambda>i. is_request (c_hist c p ! i)"
      "exec_next (c_node c p)" "seq_of p"]
  by (simp add: length_filter_conv_card)

text \<open>Property C4: every request is counted exactly once. At any moment of a run on given datasets, under every interleaving,
  what a driver has submitted is a first part of its dataset. The valid requests of that part are, in order, those
  the node has issued, followed by those that wait in its submission queue for admission. \<open>pending_count_\<close> is
  the number of issued requests that the node has not executed yet, \<open>ok_ops_\<close> the number it has executed,
  \<open>read_ops_\<close> the number of reads among these, \<open>error_ops_\<close> the number of submitted requests with an unknown operation and \<open>total_ops_\<close>
  the completed and the failed ones together: so each submitted request is in the queue, pending, completed or
  an error, and never in two of these places.\<close>

theorem requests_complete_once:
  assumes "reach (workload_init hash K0 early bs dataset) (workload_step hash) w" "brief (c_hist (wl_cluster w))"
    and "p \<in> set node_ids" "length (requests_of (dataset p)) < 2 ^ 64"
  defines "n \<equiv> c_node (wl_cluster w) p" and "h \<equiv> c_hist (wl_cluster w) p" and "queue \<equiv> unissued (c_sub (wl_cluster w) p)"
  shows "\<exists>submitted. requests_of (dataset p) = submitted @ concat (wl_todo w p) \<and>
    map content (filter is_request h) @ map content queue = map wanted (filter valid_op submitted) \<and>
    unat (n_pending_count n) = card {i. i < length h \<and> is_request (h ! i) \<and> exec_next n \<le> seq_of p i} \<and>
    unat (n_ok_ops n) = card {i. i < length h \<and> is_request (h ! i) \<and> seq_of p i < exec_next n} \<and>
    unat (n_read_ops n) = card {i. i < length h \<and> is_read_request (h ! i) \<and> seq_of p i < exec_next n} \<and>
    unat (n_error_ops n) = length (filter invalid_op submitted) \<and> n_total_ops n = n_ok_ops n + n_error_ops n \<and>
    length submitted = length queue + unat (n_pending_count n) + unat (n_ok_ops n) + unat (n_error_ops n)"
proof -
  note f = workload_facts [OF assms(1,2)]
  obtain submitted where s: "requests_of (dataset p) = submitted @ concat (wl_todo w p)"
    "n_error_ops n = of_nat (length (filter invalid_op submitted))"
    using accounting.inv_reach [OF assms(1)] assms(3) unfolding accounted_def n_def by blast
  have "length (filter invalid_op submitted) \<le> length (requests_of (dataset p))"
    using length_filter_le [of invalid_op submitted] by (simp add: s(1) trans_le_add1)
  then have err: "unat (n_error_ops n) = length (filter invalid_op submitted)"
    using assms(4) by (simp only: s(2)) (rule unat_of_nat_u64, linarith)
  have trace: "map content (filter is_request h) @ map content queue = map wanted (filter valid_op submitted)"
    using f(3) [OF assms(3)] by (simp add: on_trace_def issued_trace_def s(1) h_def queue_def)
  from arg_cong [OF this, of length] have "length (filter is_request h) + length queue = length (filter valid_op submitted)" by simp
  moreover have "length submitted = length (filter valid_op submitted) + length (filter invalid_op submitted)"
    by (rule sum_length_filter_compl [symmetric])
  ultimately have "length submitted = length queue + unat (n_pending_count n) + unat (n_ok_ops n) + unat (n_error_ops n)"
    using admitted_count [OF f(1) assms(2,3)] err by (simp add: n_def h_def)
  with s(1) err trace request_counts [OF f(1) assms(2,3)] show ?thesis by (auto simp: n_def h_def)
qed

text \<open>A dataset with a read and a line whose operation is unknown: at the end one request is completed and one is an error.\<close>

definition mixed_traces :: "nat \<Rightarrow> string" where
  "mixed_traces p = (if p = 1 then ''1,G k'' @ [CHR 0x0A] @ ''2,X k'' else '''')"

lemma mixed_requests:
  "requests_of (mixed_traces p) = (if p = 1 then
     [\<lparr> q_op = CHR ''G'', q_key_ptr = Some ''k'', q_key_len = 1, q_value_ptr = None, q_value_len = 0 \<rparr>,
      \<lparr> q_op = CHR ''X'', q_key_ptr = Some ''k'', q_key_len = 1, q_value_ptr = None, q_value_len = 0 \<rparr>] else [])"
proof -
  have last: "split_lines ''2,X k'' = [''2,X k'']" "split_lines '''' = []" by (subst split_lines.simps, simp)+
  then have "split_lines (''1,G k'' @ [CHR 0x0A] @ ''2,X k'') = [''1,G k'', ''2,X k'']"
    by (subst split_lines.simps) (simp add: before_char_def after_char_def)
  moreover have "parse_line_view ''1,G k''
      = Some \<lparr> v_ts_us = 1, v_op = CHR ''G'', v_key_ptr = ''k'', v_key_len = 1, v_value_ptr = None, v_value_len = 0 \<rparr>"
    "parse_line_view ''2,X k''
      = Some \<lparr> v_ts_us = 2, v_op = CHR ''X'', v_key_ptr = ''k'', v_key_len = 1, v_value_ptr = None, v_value_len = 0 \<rparr>"
    by (simp_all add: parse_line_view_def strip_eol_def is_eol_def after_char_def before_char_def parse_u64_def is_digit_def digit_value_def)
  ultimately show ?thesis using last(2) by (simp add: mixed_traces_def requests_of_def map_filter_simps request_of_def)
qed

theorem requests_complete_once_witness:
  "\<exists>w. (workload_step (\<lambda>_. 0))\<^sup>*\<^sup>* (demo_workload mixed_traces) w \<and> ru_pc (wl_run w) 1 = Dr_Left \<and>
     unat (n_ok_ops (c_node (wl_cluster w) 1)) = 1 \<and> unat (n_error_ops (c_node (wl_cluster w) 1)) = 1 \<and>
     unat (n_pending_count (c_node (wl_cluster w) 1)) = 0 \<and> unissued (c_sub (wl_cluster w) 1) = []"
proof -
  have id: "1 \<in> set node_ids" by (simp add: node_ids_def)
  have "\<forall>p\<in>set node_ids. length (requests_of (mixed_traces p)) \<le> 2 ^ 54" by (simp add: mixed_requests)
  then obtain w where w: "(workload_step (\<lambda>_. 0))\<^sup>*\<^sup>* (demo_workload mixed_traces) w" "in_demo (\<lambda>_. 0) mixed_traces w"
    "brief (c_hist (wl_cluster w))" "ru_pc (wl_run w) 1 = Dr_Left" using demo_finishes id by metis
  have todo: "wl_todo w 1 = []" using workload_facts(3) [OF w(2,3) id] w(4) by (simp add: on_trace_def)
  have ok: "unat (n_ok_ops (c_node (wl_cluster w) 1)) = 1"
    using workload_end_facts [OF w(2,3) id w(4) id] by (simp add: mixed_requests valid_op_def is_write_op_def)
  have "length (requests_of (mixed_traces 1)) < 2 ^ 64" by (simp add: mixed_requests)
  from requests_complete_once [OF w(2,3) id this] have
    "unat (n_error_ops (c_node (wl_cluster w) 1)) = length (filter invalid_op (requests_of (mixed_traces 1))) \<and>
     length (requests_of (mixed_traces 1)) = length (unissued (c_sub (wl_cluster w) 1)) + unat (n_pending_count (c_node (wl_cluster w) 1)) +
       unat (n_ok_ops (c_node (wl_cluster w) 1)) + unat (n_error_ops (c_node (wl_cluster w) 1))"
    unfolding todo by auto
  with ok w(1,4) show ?thesis by (intro exI [of _ w]) (auto simp: mixed_requests valid_op_def is_write_op_def)
qed

end
