(* ===== verification/Consensus_Handlers.thy ===== *)
theory Consensus_Handlers
  imports Replica_Log
begin

text \<open>
  Properties of single handlers of a node: how far an execution runs, when the promises of \<open>P1\<close> messages
  make a decision, and what happens to a log slot that is used for two sequence numbers at once.
\<close>

section \<open>Executions are bounded by the log\<close>

text \<open>The decided entries among the \<open>kCompletionSlots\<close> entries of the log.\<close>

definition decided_in_log :: "Bandle \<Rightarrow> u64 set" where
  "decided_in_log n = {slot. slot < kCompletionSlots \<and> e_decided (n_log n slot)}"

lemma decided_in_log_finite [simp]: "finite (decided_in_log n)"
  by (rule finite_subset [OF subset_UNIV finite])

lemma decided_in_log_bound: "card (decided_in_log n) \<le> 65536"
proof -
  have "unat ` decided_in_log n \<subseteq> {..<65536}"
    by (auto simp: decided_in_log_def kCompletionSlots_def word_less_nat_alt)
  then have "card (unat ` decided_in_log n) \<le> 65536" by (metis card_lessThan card_mono finite_lessThan)
  moreover have "inj_on unat (decided_in_log n)" by (auto simp: inj_on_def word_unat_eq_iff)
  ultimately show ?thesis by (simp add: card_image)
qed

lemma decided_exec_one:
  assumes "entry_ready n (n_execute_next n)"
  shows "Suc (card (decided_in_log (fst (exec_one hash n w)))) = card (decided_in_log n)"
proof -
  let ?s = "log_slot (n_execute_next n)"
  have mem: "?s \<in> decided_in_log n"
    using assms log_slot_bound by (simp add: entry_ready_def decided_in_log_def Let_def)
  have "decided_in_log (fst (exec_one hash n w)) = decided_in_log n - {?s}"
    by (auto simp: decided_in_log_def reset_log_entry_def)
  then show ?thesis using card_Suc_Diff1 [OF decided_in_log_finite mem] by simp
qed

lemma decided_exec_iter:
  "ready_run hash k n w \<Longrightarrow> card (decided_in_log (fst (exec_iter hash k (n, w)))) + k = card (decided_in_log n)"
proof (induction k arbitrary: n w)
  case (Suc k)
  from Suc.prems have "ready_run hash (1 + k) n w" by simp
  then have "entry_ready n (n_execute_next n)" "ready_run hash k (fst (exec_one hash n w)) (snd (exec_one hash n w))"
    unfolding ready_run_add by (simp_all add: ready_run_def Let_def split_beta)
  with Suc.IH [of "fst (exec_one hash n w)" "snd (exec_one hash n w)"] decided_exec_one [of n hash w]
  show ?case by simp
qed simp

text \<open>Property C28: execution under the lock terminates. \<open>advance_execute_locked\<close> returns, from any state of the
  log, after executing at most 65536 entries; every entry it executes frees exactly one decided slot of
  the log.\<close>

theorem advance_terminates:
  "\<exists>k\<le>65536. advance_execute_locked hash n = exec_iter hash k (n, False) \<and>
     n_execute_next (fst (advance_execute_locked hash n)) = n_execute_next n + of_nat k \<and>
     card (decided_in_log (fst (advance_execute_locked hash n))) + k = card (decided_in_log n)"
proof -
  obtain k where k: "advance_execute_locked hash n = exec_iter hash k (n, False)" "ready_run hash k n False"
    using advance_loop_run [of hash n False] unfolding advance_execute_locked_def by blast
  note decided_exec_iter [OF k(2)]
  with k decided_in_log_bound [of n] show ?thesis
    by (intro exI [of _ k]) (simp add: exec_iter_execute_next)
qed

section \<open>Promises\<close>

text \<open>The mask of a set of senders.\<close>

definition promises :: "nat list \<Rightarrow> u8" where
  "promises senders = foldr (\<lambda>a m. m OR promise_bit (of_nat a)) senders 0"

lemma bit_promises:
  assumes "set senders \<subseteq> set node_ids" "i < 8"
  shows "bit (promises senders) i \<longleftrightarrow> Suc i \<in> set senders"
  using assms
proof (induction senders)
  case Nil
  then show ?case by (simp add: promises_def)
next
  case (Cons a senders)
  have a: "a \<in> {1, 2, 3}" using Cons.prems by (simp add: node_ids_def)
  then have "promise_bit (of_nat a) = push_bit (a - 1) 1" by (auto simp: promise_bit_def)
  then have "bit (promise_bit (of_nat a) :: u8) i \<longleftrightarrow> a - 1 \<le> i \<and> i < 8 \<and> bit (1 :: u8) (i - (a - 1))"
    by (simp only: bit_push_bit_iff possible_bit_word) auto
  then have "bit (promise_bit (of_nat a) :: u8) i \<longleftrightarrow> a = Suc i"
    using Cons.prems(2) a by (auto simp: bit_1_iff)
  with Cons show ?case by (simp add: promises_def bit_or_iff) blast
qed

lemma popcount_promises:
  assumes "set senders \<subseteq> set node_ids"
  shows "popcount8 (promises senders) = card (set senders)"
proof -
  have "popcount8 (promises senders) = card {i. i < 8 \<and> Suc i \<in> set senders}"
  proof -
    have "{x. bit (promises senders) x} \<inter> {0..<8} = {i. i < 8 \<and> Suc i \<in> set senders}"
      using bit_promises [OF assms] by auto
    then show ?thesis by (simp add: popcount8_def distinct_length_filter)
  qed
  also have "{i. i < 8 \<and> Suc i \<in> set senders} = (\<lambda>a. a - 1) ` set senders"
  proof (intro equalityI subsetI)
    fix x assume "x \<in> {i. i < 8 \<and> Suc i \<in> set senders}"
    then show "x \<in> (\<lambda>a. a - 1) ` set senders" by (intro image_eqI [of _ _ "Suc x"]) simp_all
  next
    fix x assume "x \<in> (\<lambda>a. a - 1) ` set senders"
    then obtain a where a: "a \<in> set senders" "x = a - 1" by blast
    then have "Suc x = a" "x < 8" using assms by (auto simp: node_ids_def)
    with a(1) show "x \<in> {i. i < 8 \<and> Suc i \<in> set senders}" by simp
  qed
  also have "card \<dots> = card (set senders)"
  proof (intro card_image inj_onI)
    fix x y assume "x \<in> set senders" "y \<in> set senders" "x - 1 = y - 1"
    moreover have "1 \<le> z" if "z \<in> set senders" for z using that assms by (auto simp: node_ids_def)
    ultimately show "x = y" by (metis eq_diff_iff)
  qed
  finally show ?thesis .
qed

text \<open>Property C29: decision by a quorum of promises. A \<open>P1\<close> message that does not promise value 1 or comes from
  no node of the cluster is ignored. Any other adds its sender to those recorded in the entry, and the
  entry is decided exactly when two different nodes are then recorded, however often each of them has
  sent its promise.\<close>

theorem p1_quorum:
  assumes conf: "n_cluster_size n = 3" "n_quorum n = 2"
    and entry: "e_p1_value1_promise_mask (claim_entry (b_seq (m_body msg)) n) = promises senders" "set senders \<subseteq> set node_ids"
  defines "a \<equiv> unat (b_sender (m_body msg))"
  defines "n1 \<equiv> set_log (log_slot (b_seq (m_body msg)))
    ((claim_entry (b_seq (m_body msg)) n)\<lparr>e_p1_value1_promise_mask := promises (a # senders)\<rparr>) n"
  shows "handle_p1_locked hash msg n =
    (if b_value (m_body msg) \<noteq> 1 \<or> b_promise (m_body msg) = 0 \<or> a \<notin> set node_ids then (n, False)
     else if 2 \<le> card (insert a (set senders)) then decide_locked hash (b_seq (m_body msg)) 1 n1
     else (n1, False))"
proof (cases "b_value (m_body msg) \<noteq> 1 \<or> b_promise (m_body msg) = 0 \<or> a \<notin> set node_ids")
  case True
  have "a \<notin> set node_ids \<longleftrightarrow> b_sender (m_body msg) < 1 \<or> 3 < b_sender (m_body msg)"
    by (auto simp: a_def node_ids_def word_less_nat_alt)
  with True conf show ?thesis by (auto simp: handle_p1_locked_def Let_def)
next
  case False
  then have a: "set (a # senders) \<subseteq> set node_ids" using entry(2) by simp
  have sender: "\<not> b_sender (m_body msg) < 1" "\<not> 3 < b_sender (m_body msg)" "b_sender (m_body msg) = of_nat a"
    using False by (auto simp: a_def node_ids_def word_less_nat_alt)
  have mask: "promises senders OR promise_bit (b_sender (m_body msg)) = promises (a # senders)"
    by (simp add: promises_def sender(3))
  have "card (set (a # senders)) \<le> card (set node_ids)" using a by (intro card_mono) simp_all
  then have "card (insert a (set senders)) \<le> 3" by (simp add: node_ids_def)
  then have "unat (of_nat (card (insert a (set senders))) :: u64) = card (insert a (set senders))"
    by (intro unat_of_nat_u64) simp
  then have "(2 :: u64) \<le> of_nat (popcount8 (promises (a # senders))) \<longleftrightarrow> 2 \<le> card (insert a (set senders))"
    using popcount_promises [OF a] by (simp add: word_le_nat_alt)
  then show ?thesis
    using False sender(1,2) conf
    by (simp add: handle_p1_locked_def Let_def entry(1) mask n1_def)
qed

definition fresh_node :: Bandle where
  "fresh_node = the (bandle_new 1 3 0 100 64 1 192 32 of_nat)"

definition demo_p1 :: BandleMessage where
  "demo_p1 = default_message\<lparr>m_type := P1, m_body := default_payload\<lparr>b_seq := 5, b_sender := 2, b_promise := 1\<rparr>\<rparr>"

theorem p1_quorum_witness:
  "\<not> e_decided (n_log (fst (handle_p1_locked (\<lambda>_. 0) demo_p1 fresh_node)) (log_slot 5))"
proof -
  have conf: "n_cluster_size fresh_node = 3" "n_quorum fresh_node = 2" "n_log fresh_node = (\<lambda>_. empty_log_entry)"
    by (simp_all add: fresh_node_def bandle_new_def)
  have msg: "b_seq (m_body demo_p1) = 5" "b_sender (m_body demo_p1) = 2" "b_value (m_body demo_p1) = 1"
    "b_promise (m_body demo_p1) = 1"
    by (simp_all add: demo_p1_def default_payload_def)
  have claim: "claim_entry 5 fresh_node = reset_log_entry 5"
    by (simp add: claim_entry_def conf empty_log_entry_def)
  from p1_quorum [OF conf(1,2), of demo_p1 "[]" "\<lambda>_. 0"] show ?thesis
    by (simp add: msg claim promises_def reset_log_entry_def node_ids_def set_log_def)
qed

section \<open>Slots shared by two sequence numbers\<close>

lemma accept_proposal_entry:
  "e_seq (fst (accept_proposal b e pl)) = e_seq e" "e_proposal_known (fst (accept_proposal b e pl))"
  by (simp_all add: accept_proposal_def Let_def)

lemma entry_ready_proposal:
  "entry_ready (fst (handle_proposal_locked hash msg False n)) t \<longleftrightarrow>
     t = b_seq (m_body msg) \<or> log_slot t \<noteq> log_slot (b_seq (m_body msg)) \<and> entry_ready n t"
  "n_execute_next (fst (handle_proposal_locked hash msg False n)) = n_execute_next n"
proof -
  have "e_seq (claim_entry q n) = q" for q by (simp add: claim_entry_def Let_def reset_log_entry_def)
  then show "entry_ready (fst (handle_proposal_locked hash msg False n)) t \<longleftrightarrow>
     t = b_seq (m_body msg) \<or> log_slot t \<noteq> log_slot (b_seq (m_body msg)) \<and> entry_ready n t"
    by (auto simp: handle_proposal_locked_def entry_ready_def Let_def set_log_def split_beta accept_proposal_entry)
  show "n_execute_next (fst (handle_proposal_locked hash msg False n)) = n_execute_next n"
    by (simp add: handle_proposal_locked_def Let_def set_log_def split_beta)
qed

lemma handle_chunk_delivers:
  assumes "\<forall>m\<in>set ms. m_type m = PROPOSAL"
  shows "fst (handle_chunk hash ms n) =
    (if ms = [] then n else fst (advance_execute_locked hash (deliver_loop hash ms n)))"
  by (simp add: handle_chunk_def handle_chunk_loop_proposals [OF assms] split_beta)

text \<open>A number whose entry is gone holds the execution up, until it is proposed again.\<close>

definition stuck_at :: "u64 \<Rightarrow> nat \<Rightarrow> Bandle \<Rightarrow> bool" where
  "stuck_at s d n \<longleftrightarrow> \<not> entry_ready n s \<and> unat (s - n_execute_next n) \<le> d"

lemma stuck_deliver:
  "stuck_at s d n \<Longrightarrow> \<forall>m\<in>set ms. b_seq (m_body m) \<noteq> s \<Longrightarrow> stuck_at s d (deliver_loop hash ms n)"
proof (induction ms arbitrary: n)
  case (Cons m ms)
  then have "stuck_at s d (fst (handle_proposal_locked hash m False n))"
    using entry_ready_proposal [of hash m n] by (auto simp: stuck_at_def)
  with Cons show ?case by simp
qed simp

lemma stuck_advance:
  assumes "stuck_at s d n"
  shows "stuck_at s d (fst (advance_execute_locked hash n))"
  using assms
proof (rule advance_induct)
  fix m v assume m: "stuck_at s d m" "entry_ready m (n_execute_next m)"
  then have "s - n_execute_next m \<noteq> 0" by (auto simp: stuck_at_def)
  then have "unat (s - n_execute_next m - 1) = unat (s - n_execute_next m) - 1" by (rule unat_minus_one)
  then have "unat (s - (n_execute_next m + 1)) \<le> d" using m(1) unfolding diff_diff_eq stuck_at_def by auto
  moreover have "\<not> entry_ready (fst (exec_one hash m v)) s"
    using m(1) by (simp add: stuck_at_def entry_ready_def Let_def reset_log_entry_def)
  ultimately show "stuck_at s d (fst (exec_one hash m v))" by (simp add: stuck_at_def)
qed

lemma stuck_batch:
  assumes "stuck_at s d n" "\<forall>m\<in>set ms. m_type m = PROPOSAL \<and> b_seq (m_body m) \<noteq> s"
  shows "stuck_at s d (handle_messages_batch hash ms n)"
  using assms
proof (induction hash ms n rule: handle_messages_batch.induct)
  case (1 hash ms n)
  have "stuck_at s d (fst (handle_chunk hash (take kHandleChunk ms) n))"
  proof -
    have ms: "\<forall>m\<in>set (take kHandleChunk ms). m_type m = PROPOSAL \<and> b_seq (m_body m) \<noteq> s" using 1(3) by (auto dest: in_set_takeD)
    then show ?thesis
      using 1(2) handle_chunk_delivers [of "take kHandleChunk ms" hash n] stuck_advance [OF stuck_deliver [OF 1(2)]] by simp
  qed
  with 1 show ?case by (subst handle_messages_batch.simps) (auto dest: in_set_dropD)
qed

lemma stuck_batches:
  "stuck_at s d n \<Longrightarrow> \<forall>ms\<in>set bs. \<forall>m\<in>set ms. m_type m = PROPOSAL \<and> b_seq (m_body m) \<noteq> s
    \<Longrightarrow> stuck_at s d (fold (handle_messages_batch hash) bs n)"
  by (induction bs arbitrary: n) (simp_all add: stuck_batch)

text \<open>While the entry is there, the missing proposals before it let the execution run past it.\<close>

lemma deliver_ready:
  "t \<in> (b_seq \<circ> m_body) ` set ms \<or> entry_ready n t \<Longrightarrow>
   \<forall>m\<in>set ms. b_seq (m_body m) = t \<or> log_slot (b_seq (m_body m)) \<noteq> log_slot t \<Longrightarrow>
   entry_ready (deliver_loop hash ms n) t"
proof (induction ms arbitrary: n)
  case (Cons m ms)
  have "t \<in> (b_seq \<circ> m_body) ` set ms \<or> entry_ready (fst (handle_proposal_locked hash m False n)) t"
    using Cons.prems entry_ready_proposal(1) [of hash m n t] by auto
  with Cons show ?case by simp
qed simp

lemma deliver_execute_next: "n_execute_next (deliver_loop hash ms n) = n_execute_next n"
  by (induction ms arbitrary: n) (simp_all add: entry_ready_proposal(2))

lemma advance_passes:
  assumes "\<And>j. j \<le> d \<Longrightarrow> entry_ready n (n_execute_next n + of_nat j)" "d < 65536"
  shows "d < unat (n_execute_next (fst (advance_execute_locked hash n)) - n_execute_next n)"
proof -
  obtain k where k: "advance_loop hash n False = exec_iter hash k (n, False)" "ready_run hash k n False"
    "case advance_loop hash n False of (m, v) \<Rightarrow> \<not> entry_ready m (n_execute_next m)"
    using advance_loop_run [of hash n False] by (elim exE conjE)
  have "k \<le> 65536" using decided_exec_iter [OF k(2)] decided_in_log_bound [of n] by linarith
  then have "unat (of_nat k :: u64) = k" by (simp add: unat_of_nat)
  moreover have "\<not> k \<le> d"
    using k(1,3) assms entry_ready_exec_iter [of n "n_execute_next n" 0 k k hash False]
    by (auto simp: split_beta exec_iter_execute_next)
  ultimately show ?thesis using k(1) by (simp add: advance_execute_locked_def exec_iter_execute_next)
qed

text \<open>Property C30: reuse of a log slot. An entry that is ready to be executed waits in the log until the \<open>d\<close> numbers
  before it have arrived; when they arrive in a batch, the execution runs past it. But if a proposal that is
  65536 numbers ahead of it comes first, the waiting entry is lost: whatever proposals arrive afterwards, in
  whatever batches, the execution never gets past its number unless it is proposed again, which no node
  does. Nothing in the handlers or in the constructor prevents it; only an admission window below the size of
  the log does.\<close>

theorem slot_reuse_drops_entry:
  assumes "entry_ready n s" "s = n_execute_next n + of_nat d" "0 < d" "d \<le> 64"
    and "\<forall>m\<in>set missing. m_type m = PROPOSAL"
      "map (b_seq \<circ> m_body) missing = map (\<lambda>j. n_execute_next n + of_nat j) [0..<d]"
    and "m_type msg = PROPOSAL" "b_seq (m_body msg) = s + 65536"
    and "\<forall>ms\<in>set bs. \<forall>m\<in>set ms. m_type m = PROPOSAL \<and> b_seq (m_body m) \<noteq> s"
  shows "d < unat (n_execute_next (handle_messages_batch hash missing n) - n_execute_next n) \<and>
    unat (s - n_execute_next (fold (handle_messages_batch hash) ([msg] # bs) n)) \<le> d \<and>
    \<not> entry_ready (fold (handle_messages_batch hash) ([msg] # bs) n) s"
proof -
  let ?x = "n_execute_next n"
  have len: "length missing = d" using arg_cong [OF assms(6), of length] by simp
  have seqs: "(b_seq \<circ> m_body) ` set missing = (\<lambda>j. ?x + of_nat j) ` {0..<d}"
    using arg_cong [OF assms(6), of set] by simp
  have ready: "entry_ready (deliver_loop hash missing n) (?x + of_nat j)" if j: "j \<le> d" for j
  proof (rule deliver_ready)
    show "?x + of_nat j \<in> (b_seq \<circ> m_body) ` set missing \<or> entry_ready n (?x + of_nat j)"
      unfolding seqs using assms(1,2) j by (cases "j = d") auto
    show "\<forall>m\<in>set missing. b_seq (m_body m) = ?x + of_nat j \<or> log_slot (b_seq (m_body m)) \<noteq> log_slot (?x + of_nat j)"
    proof
      fix m assume "m \<in> set missing"
      then have "b_seq (m_body m) \<in> (\<lambda>i. ?x + of_nat i) ` {0..<d}" unfolding seqs [symmetric] by auto
      then obtain i where i: "i < d" "b_seq (m_body m) = ?x + of_nat i" by auto
      then show "b_seq (m_body m) = ?x + of_nat j \<or> log_slot (b_seq (m_body m)) \<noteq> log_slot (?x + of_nat j)"
        using log_slot_inj [of i j ?x] j assms(4) by fastforce
    qed
  qed
  have ne: "missing \<noteq> []" using len assms(3) by auto
  have chunk: "take kHandleChunk missing = missing" "drop kHandleChunk missing = []" using len assms(4) by (simp_all add: kHandleChunk_def)
  have "d < unat (n_execute_next (handle_messages_batch hash missing n) - ?x)"
    using advance_passes [of d "deliver_loop hash missing n" hash] ready assms(4) ne handle_chunk_delivers [OF assms(5), of hash n]
    by (subst handle_messages_batch.simps) (simp add: chunk deliver_execute_next handle_messages_batch.simps [of hash "[]"])
  moreover have "stuck_at s d (fst (handle_proposal_locked hash msg False n))"
  proof -
    have "log_slot (s + 65536) = log_slot s" using log_slot_next_window [of "unat s"] by simp
    moreover have "unat (of_nat d :: u64) = d" using assms(4) by (simp add: unat_of_nat)
    ultimately show ?thesis using assms(2) by (simp add: stuck_at_def entry_ready_proposal assms(8))
  qed
  then have "stuck_at s d (handle_messages_batch hash [msg] n)"
    using handle_chunk_delivers [of "[msg]" hash n] assms(7)
    by (subst handle_messages_batch.simps) (simp add: kHandleChunk_def handle_messages_batch.simps [of hash "[]"] stuck_advance)
  then have "stuck_at s d (fold (handle_messages_batch hash) ([msg] # bs) n)" using stuck_batches [OF _ assms(9)] by simp
  ultimately show ?thesis by (simp add: stuck_at_def)
qed

text \<open>A new node has received proposal 2 and waits for 1. When 1 arrives both are executed, but not if 65538 comes before it.\<close>

definition demo_proposal :: "u64 \<Rightarrow> BandleMessage" where
  "demo_proposal seq = default_message\<lparr>m_type := PROPOSAL, m_body := default_payload\<lparr>b_seq := seq, b_op := CHR ''N''\<rparr>\<rparr>"

definition demo_waiting :: Bandle where
  "demo_waiting = fst (handle_proposal_locked (\<lambda>_. 0) (demo_proposal 2) False fresh_node)"

theorem slot_reuse_drops_entry_witness:
  "entry_ready demo_waiting 2 \<and> n_execute_next demo_waiting = 1 \<and>
   1 < unat (n_execute_next (handle_messages_batch (\<lambda>_. 0) [demo_proposal 1] demo_waiting) - 1) \<and>
   unat (2 - n_execute_next (fold (handle_messages_batch (\<lambda>_. 0)) [[demo_proposal 65538], [demo_proposal 1, demo_proposal 3]] demo_waiting)) \<le> 1"
proof -
  have p: "m_type (demo_proposal k) = PROPOSAL" "b_seq (m_body (demo_proposal k)) = k" for k by (simp_all add: demo_proposal_def)
  have w: "entry_ready demo_waiting 2" "n_execute_next demo_waiting = 1"
    by (simp_all add: demo_waiting_def entry_ready_proposal p fresh_node_def bandle_new_def)
  have "\<forall>ms\<in>set [[demo_proposal 1, demo_proposal 3]]. \<forall>m\<in>set ms. m_type m = PROPOSAL \<and> b_seq (m_body m) \<noteq> 2" by (simp add: p)
  note drop = slot_reuse_drops_entry [OF w(1) _ _ _ _ _ p(1) _ this, of 1 "[demo_proposal 1]" 65538 "\<lambda>_. 0"]
  have "1 < unat (n_execute_next (handle_messages_batch (\<lambda>_. 0) [demo_proposal 1] demo_waiting) - n_execute_next demo_waiting) \<and>
    unat (2 - n_execute_next (fold (handle_messages_batch (\<lambda>_. 0)) [[demo_proposal 65538], [demo_proposal 1, demo_proposal 3]] demo_waiting)) \<le> 1"
    by (rule conjI; rule drop [THEN conjunct1] drop [THEN conjunct2, THEN conjunct1]) (simp_all add: w p)
  with w show ?thesis unfolding w(2) by blast
qed

end
