(* ===== verification/Node_Statistics.thy ===== *)
theory Node_Statistics
  imports Run_Protocol Aggregate Consensus_Handlers
begin

text \<open>
  The statistics of a node over a run: the counters and the two latency histograms that \<open>stats\<close> reports are
  those of one list of read samples and one list of write samples, with one sample per completed request.
\<close>

section \<open>Counters and samples\<close>

text \<open>The statistics of the node; submission errors count in \<open>total_ops_\<close> and \<open>error_ops_\<close> alike.\<close>

definition stat_fields :: "Bandle \<Rightarrow> LatencyHistogram \<times> LatencyHistogram \<times> u64 \<times> u64 \<times> u64 \<times> u64" where
  "stat_fields n = (n_read_latency n, n_write_latency n, n_read_ops n, n_write_ops n, n_ok_ops n,
     n_total_ops n - n_error_ops n)"

definition stats_rep :: "Bandle \<Rightarrow> u64 list \<Rightarrow> u64 list \<Rightarrow> bool" where
  "stats_rep n rs ws \<longleftrightarrow> stat_fields n = (hist_of rs, hist_of ws, of_nat (length rs), of_nat (length ws),
     of_nat (length rs) + of_nat (length ws), of_nat (length rs) + of_nat (length ws))"

text \<open>Every completion belongs to an executed entry.\<close>

definition stats_ok :: "Bandle \<Rightarrow> bool" where
  "stats_ok n \<longleftrightarrow> (\<exists>rs ws. stats_rep n rs ws \<and> length rs + length ws \<le> exec_next n)"

lemma stats_ok_cong: "stat_fields n' = stat_fields n \<Longrightarrow> exec_next n' = exec_next n \<Longrightarrow> stats_ok n' = stats_ok n"
  by (simp add: stats_ok_def stats_rep_def)

lemma hist_of_snoc: "record_sample x (hist_of xs) = hist_of (xs @ [x])"
  by (simp add: hist_of_def)

lemma stats_rep_finish:
  assumes "stats_rep n rs ws"
  shows "\<exists>rs' ws'. stats_rep (fst (finish_request ps n w)) rs' ws' \<and> length rs' + length ws' = Suc (length rs + length ws)"
proof -
  have "\<exists>x. stats_rep (fst (finish_request ps n w)) (rs @ [x]) ws \<or> stats_rep (fst (finish_request ps n w)) rs (ws @ [x])"
    using assms
    by (cases "p_op (n_pending n ps) = CHR ''G''"; cases "0 < n_pending_count n")
      (auto simp: finish_defs stats_rep_def stat_fields_def atomic_record_eq hist_of_snoc algebra_simps)
  then show ?thesis
  proof (elim exE disjE)
    fix x assume "stats_rep (fst (finish_request ps n w)) (rs @ [x]) ws"
    then show ?thesis by (intro exI [of _ "rs @ [x]"] exI [of _ ws]) simp
  next
    fix x assume "stats_rep (fst (finish_request ps n w)) rs (ws @ [x])"
    then show ?thesis by (intro exI [of _ rs] exI [of _ "ws @ [x]"]) simp
  qed
qed

lemma stat_fields_updates [simp]:
  "stat_fields (set_log s e n) = stat_fields n" "stat_fields (n\<lparr>n_execute_next := x\<rparr>) = stat_fields n"
  "stat_fields (n\<lparr>n_kv := K\<rparr>) = stat_fields n" "stat_fields (n\<lparr>n_log_payloads := L\<rparr>) = stat_fields n"
  "stat_fields (noop_reserve now n) = stat_fields n" "stat_fields (mark_input_done n) = stat_fields n"
  by (simp_all add: stat_fields_def set_log_def noop_reserve_def mark_input_done_def)

lemma stats_rep_exec_one:
  assumes "stats_rep n rs ws"
  shows "\<exists>rs' ws'. stats_rep (fst (exec_one hash n w)) rs' ws' \<and> length rs' + length ws' \<le> Suc (length rs + length ws)"
proof -
  let ?e = "n_log n (log_slot (n_execute_next n))"
  have "stats_rep (fst (exec_one hash n w)) rs' ws' = stats_rep (fst (complete_entry ?e n w)) rs' ws'" for rs' ws'
    by (simp add: stats_rep_def fst_exec_one complete_entry_kv map_prod_def split_beta)
  moreover have "\<exists>rs' ws'. stats_rep (fst (complete_entry ?e n w)) rs' ws' \<and> length rs' + length ws' \<le> Suc (length rs + length ws)"
  proof (cases "completes_request ?e n")
    case True
    with stats_rep_finish [OF assms, of "pending_slot (e_client_req_id ?e)" w] show ?thesis
      by (fastforce simp: complete_entry_def)
  next
    case False
    with assms show ?thesis by (intro exI [of _ rs] exI [of _ ws]) (simp add: complete_entry_def)
  qed
  ultimately show ?thesis by simp
qed

lemma stats_ok_advance:
  assumes inv: "replica_inv hash K0 hist d n" and short: "short hist" and ok: "stats_ok n"
  shows "stats_ok (fst (advance_execute_locked hash n))"
proof -
  let ?P = "\<lambda>m. replica_inv hash K0 hist d m \<and> stats_ok m"
  have "?P (fst (advance_execute_locked hash n))"
  proof (rule advance_induct [where P = ?P])
    show "?P n" using inv ok by simp
    fix m v assume P: "?P m" and ready: "entry_ready m (n_execute_next m)"
    then obtain rs ws where rep: "stats_rep m rs ws" "length rs + length ws \<le> exec_next m" by (auto simp: stats_ok_def)
    have "stats_ok (fst (exec_one hash m v))"
      using stats_rep_exec_one [OF rep(1), of hash v] rep(2) P exec_next_exec_one [OF _ short, of hash K0 d m v]
      by (fastforce simp: stats_ok_def)
    with P replica_inv_exec_one [OF _ short ready, of hash K0 d v] show "?P (fst (exec_one hash m v))" by simp
  qed
  then show ?thesis ..
qed

section \<open>Steps of the cluster\<close>

lemma handle_proposal_stats: "stat_fields (fst (handle_proposal_locked hash m False n)) = stat_fields n"
  by (simp add: handle_proposal_locked_def Let_def split: prod.split)

lemma deliver_loop_stats: "stat_fields (deliver_loop hash ms n) = stat_fields n"
  by (induction ms arbitrary: n) (simp_all add: handle_proposal_stats)

lemma assign_chunk_stats: "assign_chunk ch n = (ms, n') \<Longrightarrow> stat_fields n' = stat_fields n"
proof (induction ch arbitrary: n ms)
  case (Cons m ch)
  obtain m1 n1 where a: "assign_one m n = (m1, n1)" by fastforce
  then have "stat_fields n1 = stat_fields n" by (auto simp: assign_one_def rdtsc_ordered_def Let_def stat_fields_def)
  with Cons a show ?case by (auto split: prod.splits)
qed simp

lemma submit_begin_stats:
  "submit_begin scratch reqs n = (pc, n') \<Longrightarrow> stat_fields n' = stat_fields n \<and> exec_next n' = exec_next n"
  by (auto simp: submit_begin_def build_proposals_spec stat_fields_def exec_next_def split: if_splits)

text \<open>A step changes the statistics of a node only by executing what it delivers.\<close>

definition delivers :: "(string \<Rightarrow> u64) \<Rightarrow> (string \<rightharpoonup> string) \<Rightarrow> history \<Rightarrow> Bandle \<Rightarrow> Bandle \<Rightarrow> bool" where
  "delivers hash K0 hist n n' \<longleftrightarrow> (\<exists>ms d. replica_inv hash K0 hist d (deliver_loop hash ms n) \<and>
     n' = fst (advance_execute_locked hash (deliver_loop hash ms n)))"

definition keeps_stats :: "Bandle \<Rightarrow> Bandle \<Rightarrow> bool" where
  "keeps_stats n n' \<longleftrightarrow> stat_fields n' = stat_fields n \<and> exec_next n' = exec_next n"

lemma keeps_stats_refl [simp]: "keeps_stats n n"
  by (simp add: keeps_stats_def)

lemma stats_ok_change:
  assumes "keeps_stats n n' \<or> delivers hash K0 hist n n'" "short hist" "stats_ok n"
  shows "stats_ok n'"
  using assms(1)
proof
  assume "keeps_stats n n'"
  with assms(3) stats_ok_cong [of n' n] show ?thesis by (simp add: keeps_stats_def)
next
  assume "delivers hash K0 hist n n'"
  then obtain ms d where "replica_inv hash K0 hist d (deliver_loop hash ms n)"
    "n' = fst (advance_execute_locked hash (deliver_loop hash ms n))" by (auto simp: delivers_def)
  moreover have "stats_ok (deliver_loop hash ms n)"
    using assms(3) stats_ok_cong [of "deliver_loop hash ms n" n] by (simp add: deliver_loop_stats exec_next_def deliver_loop_frame)
  ultimately show ?thesis using stats_ok_advance assms(2) by blast
qed

lemma delivers_at:
  assumes inv: "full_inv hash K0 c" "short (c_hist c)" and pq: "p \<in> set node_ids" "q \<in> set node_ids"
    and ms: "c_done c q p + length ms \<le> length (c_hist c p)"
      "map wire ms = take (length ms) (drop (c_done c q p) (c_hist c p))" "list_all wf_msg ms"
  shows "delivers hash K0 (c_hist c) (c_node c q) (fst (advance_execute_locked hash (deliver_loop hash ms (c_node c q))))"
proof -
  have "\<forall>i<length (c_hist c p). good_msg p i (c_hist c p ! i)"
    using full_invD(2) [OF inv(1) pq(1)] issue_inv_good by blast
  moreover have "\<forall>m\<in>set ms. wf_msg m" using ms(3) by (simp add: list_all_iff)
  ultimately have "replica_inv hash K0 (c_hist c) ((c_done c q)(p := c_done c q p + length ms)) (deliver_loop hash ms (c_node c q))"
    using replica_inv_deliver [OF inv(2) pq(1) _ full_invD(3) [OF inv(1) pq(2)] ms(1,2) _ in_flight_window [OF inv(1) pq]] by blast
  then show ?thesis by (auto simp: delivers_def)
qed

lemma delivers_own:
  assumes inv: "full_inv hash K0 c" "short (c_hist c)" and p: "p \<in> set node_ids"
    and own: "self_pending (c_sub c p) (c_noop c p) = map wire ms" "list_all wf_msg ms"
  shows "delivers hash K0 (c_hist c) (c_node c p) (fst (advance_execute_locked hash (deliver_loop hash ms (c_node c p))))"
proof -
  note D = full_invD [OF inv(1) p]
  have dr: "drop (c_done c p p) (c_hist c p) = map wire ms" using D(5) own(1) by simp
  then have "c_done c p p + length ms = length (c_hist c p)"
    using D(4) by (metis length_drop length_map le_add_diff_inverse)
  with dr own(2) show ?thesis by (intro delivers_at [OF inv p p]) simp_all
qed

lemma submit_change:
  assumes inv: "full_inv hash K0 c" "short (c_hist c)" and p: "p \<in> set node_ids"
    and step: "submit_step hash p (c_sub c p) (c_node c p) (c_ring c p) = (pc, n, rs)"
  shows "keeps_stats (c_node c p) n \<or> delivers hash K0 (c_hist c) (c_node c p) n"
proof (cases "c_sub c p")
  case (Sub_Admit chunks)
  show ?thesis
  proof (cases chunks)
    case (Cons ch chs)
    show ?thesis
    proof (cases "try_assign ch (c_node c p)")
      case (Some r)
      then have "assign_chunk ch (c_node c p) = r" by (auto simp: try_assign_def Let_def split: if_splits)
      moreover from this Some Sub_Admit Cons step have "snd r = n" by (auto split: prod.splits)
      ultimately have a: "assign_chunk ch (c_node c p) = (fst r, n)" by (cases r) simp
      have "same_log (c_node c p) n" using assign_chunk_spec [OF a] by simp
      with assign_chunk_stats [OF a] show ?thesis by (simp add: keeps_stats_def same_log_def exec_next_def)
    qed (use Sub_Admit Cons step in auto)
  qed (use Sub_Admit step in auto)
next
  case (Sub_Bcast ms bpc chs)
  then show ?thesis using step by (auto split: bcast_pc.splits prod.splits)
next
  case (Sub_Deliver ms chs)
  note D = full_invD [OF inv(1) p]
  have "c_noop c p = Np_Idle" "chunk_ok p ms" using D(1) sub_active_noop [OF D(1)] by (auto simp: node_ok_def Sub_Deliver)
  then have "self_pending (c_sub c p) (c_noop c p) = map wire ms" "list_all wf_msg ms"
    using chunk_ok_msgs [of p ms] by (simp_all add: Sub_Deliver list_all_iff)
  from delivers_own [OF inv p this] Sub_Deliver step show ?thesis by (auto simp: deliver_chunk_def)
qed (use step in auto)

lemma noop_change:
  assumes inv: "full_inv hash K0 c" "short (c_hist c)" and p: "p \<in> set node_ids"
    and step: "noop_step hash p now fin (c_noop c p) (c_node c p) (c_ring c p) = (pc, n, rs)"
  shows "keeps_stats (c_node c p) n \<or> delivers hash K0 (c_hist c) (c_node c p) n"
proof (cases "c_noop c p")
  case (Np_Deliver msg)
  note D = full_invD [OF inv(1) p]
  have "c_sub c p = Sub_Idle" "wf_msg msg" using noop_active_sub [OF D(1)] D(1) by (auto simp: node_ok_def Np_Deliver prop_ok_def)
  then have "self_pending (c_sub c p) (c_noop c p) = map wire [msg]" "list_all wf_msg [msg]" by (simp_all add: Np_Deliver)
  from delivers_own [OF inv p this] Np_Deliver step show ?thesis by (auto simp: handle_proposal_advance)
next
  case (Np_Send msg qs)
  with step show ?thesis by (cases qs) (auto split: if_splits prod.splits)
qed (use step in \<open>auto simp: keeps_stats_def exec_next_def noop_reserve_def stat_fields_def split: if_splits\<close>)

lemma recv_change:
  assumes inv: "full_inv hash K0 c" "short (c_hist c)" and pq: "p \<in> set node_ids" "q \<in> set node_ids" "p \<noteq> q"
    and step: "recv_step hash buf (c_recv c q p) (c_node c q) (c_ring c p q) = (pc, n, r)"
  shows "keeps_stats (c_node c q) n \<or> delivers hash K0 (c_hist c) (c_node c q) n"
proof (cases "c_recv c q p")
  case (Rv_Handle msgs)
  let ?ms = "take kHandleChunk msgs"
  have "q \<in> set (peers p)" using pq by (simp add: set_peers)
  note hd = link_recv_handle [OF full_invD(7) [OF inv(1) pq(1) this, unfolded Rv_Handle] step [unfolded Rv_Handle]]
  then have ms: "c_done c q p + length ?ms \<le> length (c_hist c p)"
    "map wire ?ms = take (length ?ms) (drop (c_done c q p) (c_hist c p))" "list_all wf_msg ?ms" by blast+
  show ?thesis
  proof (cases "msgs = []")
    case False
    then have "?ms \<noteq> []" by (simp add: kHandleChunk_def)
    then have "n = fst (advance_execute_locked hash (deliver_loop hash ?ms (c_node c q)))"
      using hd False handle_chunk_proposals [OF handled_types [OF full_invD(2) [OF inv(1) pq(1)] ms(2)]] by simp
    with delivers_at [OF inv pq(1,2) ms] show ?thesis by simp
  qed (use hd in simp)
qed (use step in \<open>auto simp: Let_def split: if_splits prod.splits\<close>)

lemma stats_ok_step:
  assumes step: "cluster_step hash c c'" and inv: "full_inv hash K0 c" "short (c_hist c)"
    and ok: "\<forall>p\<in>set node_ids. stats_ok (c_node c p)"
  shows "\<forall>p\<in>set node_ids. stats_ok (c_node c' p)"
proof -
  obtain p n where p: "p \<in> set node_ids" "c_node c' = (c_node c)(p := n)"
    "keeps_stats (c_node c p) n \<or> delivers hash K0 (c_hist c) (c_node c p) n"
    using step
  proof cases
    case (begin_submit p reqs scratch pc n)
    with submit_begin_stats [of scratch reqs "c_node c p" pc n] show ?thesis by (intro that [of p n]) (auto simp: keeps_stats_def)
  next
    case (submit p pc n rs)
    with submit_change [OF inv submit(2,3)] show ?thesis by (intro that [of p n]) auto
  next
    case (input_done p)
    have "keeps_stats (c_node c p) (mark_input_done (c_node c p))"
      by (simp add: keeps_stats_def exec_next_def) (simp add: mark_input_done_def)
    with input_done show ?thesis by (intro that [of p]) auto
  next
    case (noop p now fin pc n rs)
    with noop_change [OF inv noop(2,3)] show ?thesis by (intro that [of p n]) auto
  next
    case (recv p q buf pc n r)
    with recv_change [OF inv recv(2-4,6)] show ?thesis by (intro that [of q n]) auto
  qed
  with stats_ok_change [OF p(3) inv(2)] ok show ?thesis by simp
qed

section \<open>Statistics of a run\<close>

definition stats_inv :: "(string \<Rightarrow> u64) \<Rightarrow> (string \<rightharpoonup> string) \<Rightarrow> Cluster \<Rightarrow> bool" where
  "stats_inv hash K0 c \<longleftrightarrow>
     cluster_inv hash K0 c \<and> (short (c_hist c) \<longrightarrow> (\<forall>p\<in>set node_ids. stats_ok (c_node c p)))"

lemma stats_inv_step:
  assumes inv: "stats_inv hash K0 c" and step: "cluster_step hash c c'"
  shows "stats_inv hash K0 c'"
proof -
  obtain p ws where h: "c_hist c' = (c_hist c)(p := c_hist c p @ ws)" using step_history [OF step] by blast
  have "\<forall>p\<in>set node_ids. stats_ok (c_node c' p)" if "short (c_hist c')"
  proof -
    have "short (c_hist c)" using that h short_prefix by metis
    with inv stats_ok_step [OF step, of K0] show ?thesis by (simp add: stats_inv_def cluster_inv_def)
  qed
  with inv cluster_inv_step [OF _ step] show ?thesis by (simp add: stats_inv_def)
qed

lemma stats_rep_new:
  "bandle_new a b poll us batch workers window adm tsc = Some m \<Longrightarrow> stats_rep (bandle_start now (m\<lparr>n_kv := kv\<rparr>)) [] []"
  by (auto simp: bandle_new_def bandle_start_def stats_rep_def stat_fields_def hist_of_def split: if_splits)

lemma stats_ok_initial: "initial_node hash K0 p n \<Longrightarrow> stats_ok n"
  unfolding initial_node_def stats_ok_def by (metis stats_rep_new add.right_neutral le0 list.size(3))

lemma stats_inv_init: "cluster_init hash K0 c \<Longrightarrow> stats_inv hash K0 c"
  using cluster_inv_init stats_ok_initial by (fastforce simp: stats_inv_def cluster_init_def)

interpretation statistics: step_invariant "cluster_init hash K0" "cluster_step hash" "stats_inv hash K0" for hash K0
  by unfold_locales (auto intro: stats_inv_init stats_inv_step)

lemma stats_samples:
  assumes "reachable hash K0 c" "brief (c_hist c)" "p \<in> set node_ids"
  obtains rs ws where "s_read_latency (stats (c_node c p)) = hist_of rs" "s_write_latency (stats (c_node c p)) = hist_of ws"
    "unat (n_read_ops (c_node c p)) = length rs" "unat (n_write_ops (c_node c p)) = length ws"
    "unat (n_ok_ops (c_node c p)) = length rs + length ws"
    "n_total_ops (c_node c p) = n_ok_ops (c_node c p) + n_error_ops (c_node c p)"
proof -
  let ?n = "c_node c p"
  note short = brief_short [OF assms(2)]
  have "stats_inv hash K0 c" by (rule statistics.inv_reach [OF assms(1)])
  with short assms(3) have "stats_ok ?n" by (simp only: stats_inv_def simp_thms)
  then obtain rs ws where rep: "stats_rep ?n rs ws" "length rs + length ws \<le> exec_next ?n" by (auto simp: stats_ok_def)
  have "exec_next ?n \<le> 2 ^ 62"
    using replica_inv_next_bound [OF short full_invD(3) [OF reachable_inv [OF assms(1) short] assms(3)]] .
  with rep(2) have small: "length rs + length ws < 2 ^ 64" by simp
  have snap: "hist_snapshot (hist_of xs) = hist_of xs" for xs
    using snapshot_self [OF hist_wf_of] by (simp add: hist_snapshot_def)
  have f: "n_read_latency ?n = hist_of rs" "n_write_latency ?n = hist_of ws" "n_read_ops ?n = of_nat (length rs)"
    "n_write_ops ?n = of_nat (length ws)" "n_ok_ops ?n = of_nat (length rs + length ws)"
    "n_total_ops ?n - n_error_ops ?n = n_ok_ops ?n"
    using rep(1) by (simp_all add: stats_rep_def stat_fields_def)
  show ?thesis
  proof (rule that)
    show "s_read_latency (stats ?n) = hist_of rs" "s_write_latency (stats ?n) = hist_of ws"
      using f(1,2) snap by (simp_all add: stats_def)
    show "unat (n_read_ops ?n) = length rs" "unat (n_write_ops ?n) = length ws" "unat (n_ok_ops ?n) = length rs + length ws"
      using small unfolding f(3-5) by (intro unat_of_nat_u64; simp)+
    show "n_total_ops ?n = n_ok_ops ?n + n_error_ops ?n" using f(6) by (simp add: algebra_simps)
  qed
qed

text \<open>statistics of a node. In every reachable state the histograms that \<open>stats\<close> reports are those of
  a list of read samples and a list of write samples, whose lengths are the counters \<open>read_ops\<close> and
  \<open>write_ops\<close>; together they have one sample for every client request of the node that has been executed,
  and all other operations are submission errors.\<close>

theorem node_statistics:
  assumes "reachable hash K0 c" "brief (c_hist c)" "p \<in> set node_ids"
  defines "s \<equiv> stats (c_node c p)" and "h \<equiv> c_hist c p"
  shows "\<exists>rs ws. s_read_latency s = hist_of rs \<and> s_write_latency s = hist_of ws \<and>
    unat (s_read_ops s) = length rs \<and> unat (s_write_ops s) = length ws \<and>
    length rs + length ws = card {i. i < length h \<and> is_request (h ! i) \<and> seq_of p i < exec_next (c_node c p)} \<and>
    unat (s_ok_ops s) = length rs + length ws \<and> s_total_ops s = s_ok_ops s + s_error_ops s"
proof -
  obtain rs ws where "s_read_latency (stats (c_node c p)) = hist_of rs" "s_write_latency (stats (c_node c p)) = hist_of ws"
    "unat (n_read_ops (c_node c p)) = length rs" "unat (n_write_ops (c_node c p)) = length ws"
    "unat (n_ok_ops (c_node c p)) = length rs + length ws"
    "n_total_ops (c_node c p) = n_ok_ops (c_node c p) + n_error_ops (c_node c p)"
    using assms(1-3) by (rule stats_samples)
  moreover have "s_read_ops s = n_read_ops (c_node c p)" "s_write_ops s = n_write_ops (c_node c p)"
    "s_ok_ops s = n_ok_ops (c_node c p)" "s_total_ops s = n_total_ops (c_node c p)" "s_error_ops s = n_error_ops (c_node c p)"
    by (simp_all add: s_def stats_def)
  ultimately show ?thesis
    using request_counts [OF assms(1-3)] unfolding h_def by (intro exI [of _ rs] exI [of _ ws]) (simp add: s_def)
qed

theorem node_statistics_witness:
  "\<exists>c. reachable (\<lambda>_. 0) Map.empty c \<and> length (c_hist c 1) = 1 \<and>
     (\<exists>rs ws. s_read_latency (stats (c_node c 1)) = hist_of rs \<and> s_write_latency (stats (c_node c 1)) = hist_of ws \<and>
        length rs + length ws \<le> 1)"
proof -
  obtain c where c: "reachable (\<lambda>_. 0) Map.empty c" "length (c_hist c 1) = 1" "c_hist c 2 = []" "c_hist c 3 = []"
    using demo_run by blast
  then have "brief (c_hist c)" by (simp add: brief_def node_ids_def)
  from node_statistics [OF c(1) this, of 1] obtain rs ws where
    r: "s_read_latency (stats (c_node c 1)) = hist_of rs" "s_write_latency (stats (c_node c 1)) = hist_of ws"
    "length rs + length ws = card {i. i < length (c_hist c 1) \<and> is_request (c_hist c 1 ! i) \<and> seq_of 1 i < exec_next (c_node c 1)}"
    by (auto simp: node_ids_def)
  have "card {i. i < length (c_hist c 1) \<and> is_request (c_hist c 1 ! i) \<and> seq_of 1 i < exec_next (c_node c 1)} \<le> card {0 :: nat}"
    using c(2) by (intro card_mono) auto
  with c r show ?thesis by fastforce
qed

section \<open>From the nodes to the report\<close>

text \<open>The statistics file of node \<open>p\<close>, written after its driver has left the final loop.\<close>

definition stats_file :: "u64 \<Rightarrow> u64 \<Rightarrow> u64 \<Rightarrow> u64 \<Rightarrow> Run \<Rightarrow> nat \<Rightarrow> string" where
  "stats_file real_start work_done real_end hz r p =
     write_stats_csv (of_nat p) (finish_stats real_start work_done real_end hz (stats (c_node (ru_cluster r) p)))"

definition node_requests :: "Run \<Rightarrow> nat \<Rightarrow> nat" where
  "node_requests r p = length (filter is_request (c_hist (ru_cluster r) p))"

definition node_reads :: "Run \<Rightarrow> nat \<Rightarrow> nat" where
  "node_reads r p = length (filter is_read_request (c_hist (ru_cluster r) p))"

lemma stats_file_samples:
  assumes "reach (run_init hash K0) (run_step hash) r" "brief (c_hist (ru_cluster r))" "p \<in> set node_ids" "ru_pc r p = Dr_Left"
  obtains ns rs ws where "parse_csv (stats_file a b d hz r p) = Some ns" "ns_read_latency ns = hist_of rs"
    "ns_write_latency ns = hist_of ws" "unat (ns_read_ops ns) = length rs" "unat (ns_write_ops ns) = length ws"
    "unat (ns_ok_ops ns) = node_requests r p" "length rs + length ws = node_requests r p" "ns_node_id ns = of_nat p"
    "length rs = node_reads r p"
proof -
  let ?n = "c_node (ru_cluster r) p"
  let ?s = "finish_stats a b d hz (stats ?n)"
  obtain rs ws where w: "s_read_latency (stats ?n) = hist_of rs" "s_write_latency (stats ?n) = hist_of ws"
    "unat (n_read_ops ?n) = length rs" "unat (n_write_ops ?n) = length ws" "unat (n_ok_ops ?n) = length rs + length ws"
    using stats_samples [OF run_cluster [OF assms(1)] assms(2,3)] by metis
  have f: "s_read_latency ?s = hist_of rs" "s_write_latency ?s = hist_of ws" "s_read_ops ?s = n_read_ops ?n"
    "s_write_ops ?s = n_write_ops ?n" "s_ok_ops ?s = n_ok_ops ?n" using w by (simp_all add: finish_stats_def stats_def)
  have ok: "unat (n_ok_ops ?n) = node_requests r p" "unat (n_read_ops ?n) = node_reads r p"
    using run_end_facts [OF assms(1-4) assms(3)] by (simp_all add: node_requests_def node_reads_def)
  have "parse_csv (stats_file a b d hz r p) = Some (stats_of_run (of_nat p) ?s)"
    unfolding stats_file_def using hist_wf_of f(1,2) by (intro parse_written) simp_all
  from this show ?thesis
    by (rule that [where rs = rs and ws = ws]) (use w f ok in \<open>simp_all add: stats_of_run_def\<close>)
qed

lemma node_requests_bound: "brief (c_hist (ru_cluster r)) \<Longrightarrow> p \<in> set node_ids \<Longrightarrow> node_requests r p < 2 ^ 56"
proof -
  assume "brief (c_hist (ru_cluster r))" "p \<in> set node_ids"
  then have "Suc (length (c_hist (ru_cluster r) p)) < 2 ^ 56" unfolding brief_def by blast
  then show ?thesis using length_filter_le [of is_request "c_hist (ru_cluster r) p"] unfolding node_requests_def by linarith
qed

lemma unat_sum3: "unat a + unat b + unat c < 2 ^ 64 \<Longrightarrow> unat (a + (b + c) :: u64) = unat a + (unat b + unat c)"
  by (simp add: unat_word_ariths)

lemma report_facts:
  assumes "\<forall>p\<in>set node_ids. reach (run_init hash K0) (run_step hash) (r p) \<and> brief (c_hist (ru_cluster (r p))) \<and>
      ru_pc (r p) p = Dr_Left \<and> files (path p) = Some (stats_file (start p) (work p) (finish p) (hz p) (r p) p)"
  shows "\<exists>su rs ws. aggregate ld db files (map path node_ids) = Inr su \<and>
    cs_read (su_cluster su) = hist_of rs \<and> cs_write (su_cluster su) = hist_of ws \<and>
    unat (cs_total_reads (su_cluster su)) = length rs \<and> unat (cs_total_writes (su_cluster su)) = length ws \<and>
    unat (cs_total_ok (su_cluster su)) = length rs + length ws \<and>
    length rs + length ws = (\<Sum>p\<leftarrow>node_ids. node_requests (r p) p) \<and> length rs = (\<Sum>p\<leftarrow>node_ids. node_reads (r p) p)"
proof -
  let ?file = "\<lambda>p ns rs ws. parse_csv (stats_file (start p) (work p) (finish p) (hz p) (r p) p) = Some ns \<and>
    ns_read_latency ns = hist_of rs \<and> ns_write_latency ns = hist_of ws \<and> unat (ns_read_ops ns) = length rs \<and>
    unat (ns_write_ops ns) = length ws \<and> unat (ns_ok_ops ns) = node_requests (r p) p \<and>
    length rs + length ws = node_requests (r p) p \<and> length rs = node_reads (r p) p"
  have "\<forall>p\<in>set node_ids. \<exists>ns rs ws. ?file p ns rs ws"
  proof
    fix p assume p: "p \<in> set node_ids"
    then have "reach (run_init hash K0) (run_step hash) (r p)" "brief (c_hist (ru_cluster (r p)))" "ru_pc (r p) p = Dr_Left"
      using assms by blast+
    from stats_file_samples [OF this(1,2) p this(3)] show "\<exists>ns rs ws. ?file p ns rs ws" by metis
  qed
  then obtain ns rs ws where f: "\<And>p. p \<in> set node_ids \<Longrightarrow> ?file p (ns p) (rs p) (ws p)" by metis
  have ids: "1 \<in> set node_ids" "2 \<in> set node_ids" "3 \<in> set node_ids" by (simp_all add: node_ids_def)
  note f123 = f [OF ids(1)] f [OF ids(2)] f [OF ids(3)]
  have small: "node_requests (r p) p < 2 ^ 56" if "p \<in> set node_ids" for p
    using assms that by (intro node_requests_bound) auto
  note small123 = small [OF ids(1)] small [OF ids(2)] small [OF ids(3)]
  let ?nodes = "[ns 1, ns 2, ns 3]"
  have "read_all files (map path node_ids) = Inr ?nodes" using assms f123 by (simp add: node_ids_def)
  then have "aggregate ld db files (map path node_ids) = Inr (summarize ld db ?nodes)"
    by (simp add: aggregate_def node_ids_def)
  moreover have "cs_read (cluster_stats ?nodes) = hist_of (rs 1 @ rs 2 @ rs 3)"
    "cs_write (cluster_stats ?nodes) = hist_of (ws 1 @ ws 2 @ ws 3)"
    using f123 foldl_merge [of "[]" "[rs 1, rs 2, rs 3]"] foldl_merge [of "[]" "[ws 1, ws 2, ws 3]"]
    by (simp_all only: cluster_stats_def fold_add_node) (simp_all add: cluster_zero_def hist_of_def)
  moreover have "unat (cs_total_reads (cluster_stats ?nodes)) = length (rs 1 @ rs 2 @ rs 3)"
    "unat (cs_total_writes (cluster_stats ?nodes)) = length (ws 1 @ ws 2 @ ws 3)"
    "unat (cs_total_ok (cluster_stats ?nodes)) = (\<Sum>p\<leftarrow>node_ids. node_requests (r p) p)"
    unfolding cluster_stats_def fold_add_node using f123 small123
      unat_sum3 [of "ns_read_ops (ns 1)" "ns_read_ops (ns 2)" "ns_read_ops (ns 3)"]
      unat_sum3 [of "ns_write_ops (ns 1)" "ns_write_ops (ns 2)" "ns_write_ops (ns 3)"]
      unat_sum3 [of "ns_ok_ops (ns 1)" "ns_ok_ops (ns 2)" "ns_ok_ops (ns 3)"]
    by (simp_all add: cluster_zero_def node_ids_def)
  moreover have "length (rs 1 @ rs 2 @ rs 3) + length (ws 1 @ ws 2 @ ws 3) = (\<Sum>p\<leftarrow>node_ids. node_requests (r p) p)"
    "length (rs 1 @ rs 2 @ rs 3) = (\<Sum>p\<leftarrow>node_ids. node_reads (r p) p)"
    using f123 by (simp_all add: node_ids_def)
  ultimately show ?thesis
    by (intro exI [of _ "summarize ld db ?nodes"] exI [of _ "rs 1 @ rs 2 @ rs 3"] exI [of _ "ws 1 @ ws 2 @ ws 3"])
      (simp add: summarize_def Let_def)
qed

text \<open>Property C9: the report covers every request. When the aggregator is given the statistics files of the three
  nodes, each written after its driver has left the final loop, it reads them without an error; its counts
  of operations, reads and writes are those of the client requests issued by all nodes, every one of them
  counted once and every read as a read, and the histograms behind its percentiles have exactly one sample per request.\<close>

theorem report_covers_all_requests:
  assumes "\<forall>p\<in>set node_ids. reach (run_init hash K0) (run_step hash) (r p) \<and> brief (c_hist (ru_cluster (r p))) \<and>
      ru_pc (r p) p = Dr_Left \<and> files (path p) = Some (stats_file (start p) (work p) (finish p) (hz p) (r p) p)"
  shows "\<exists>su rs ws. aggregate ld db files (map path node_ids) = Inr su \<and>
    cs_read (su_cluster su) = hist_of rs \<and> cs_write (su_cluster su) = hist_of ws \<and>
    unat (cs_total_reads (su_cluster su)) = length rs \<and> unat (cs_total_writes (su_cluster su)) = length ws \<and>
    unat (cs_total_ok (su_cluster su)) = length rs + length ws \<and>
    length rs + length ws = (\<Sum>p\<leftarrow>node_ids. node_requests (r p) p) \<and> length rs = (\<Sum>p\<leftarrow>node_ids. node_reads (r p) p)"
  using assms by (rule report_facts)

theorem report_covers_all_requests_witness:
  "\<exists>(r :: nat \<Rightarrow> Run) su. aggregate (\<lambda>x. x) (\<lambda>x. x)
      (\<lambda>name. Some (stats_file 1 2 3 0 (r (length name)) (length name))) [''n'', ''nn'', ''nnn''] = Inr su \<and>
    unat (cs_total_ok (su_cluster su)) = node_requests (r 1) 1 + node_requests (r 2) 2 + node_requests (r 3) 3"
proof -
  let ?h = "\<lambda>_. 0 :: u64" and ?path = "\<lambda>p. replicate p CHR ''n''"
  let ?R = "\<lambda>p r. reach (run_init ?h Map.empty) (run_step ?h) r \<and> ru_pc r p = Dr_Left \<and> c_hist (ru_cluster r) = (\<lambda>_. [])"
  have "\<forall>p\<in>set node_ids. \<exists>r. ?R p r" using demo_end by blast
  then obtain r where r: "\<And>p. p \<in> set node_ids \<Longrightarrow> ?R p (r p)" by metis
  let ?files = "\<lambda>name :: string. Some (stats_file 1 2 3 0 (r (length name)) (length name))"
  have names: "map ?path node_ids = [''n'', ''nn'', ''nnn'']" by (simp add: node_ids_def numeral_eq_Suc)
  have "\<exists>su rs ws. aggregate (\<lambda>x. x) (\<lambda>x. x) ?files (map ?path node_ids) = Inr su \<and>
      cs_read (su_cluster su) = hist_of rs \<and> cs_write (su_cluster su) = hist_of ws \<and>
      unat (cs_total_reads (su_cluster su)) = length rs \<and> unat (cs_total_writes (su_cluster su)) = length ws \<and>
      unat (cs_total_ok (su_cluster su)) = length rs + length ws \<and>
      length rs + length ws = (\<Sum>p\<leftarrow>node_ids. node_requests (r p) p) \<and> length rs = (\<Sum>p\<leftarrow>node_ids. node_reads (r p) p)"
    by (rule report_covers_all_requests [of ?h Map.empty r ?files ?path "\<lambda>_. 1" "\<lambda>_. 2" "\<lambda>_. 3" "\<lambda>_. 0"])
      (use r in \<open>simp add: brief_def\<close>)
  then obtain su where "aggregate (\<lambda>x. x) (\<lambda>x. x) ?files [''n'', ''nn'', ''nnn''] = Inr su"
    "unat (cs_total_ok (su_cluster su)) = (\<Sum>p\<leftarrow>node_ids. node_requests (r p) p)" unfolding names by auto
  then show ?thesis by (intro exI [of _ r] exI [of _ su]) (simp add: node_ids_def)
qed

end
