(* ===== verification/Trace_Gen.thy ===== *)
theory Trace_Gen
  imports Node_Driver "HOL-Library.Sublist" "HOL-Library.Multiset"
begin

text \<open>
  The trace generator (\<open>src/bandle_trace_gen.cpp\<close>): it reads a dataset twice, first for the time stamp of
  the last operation, then to distribute the lines over the nodes, and pads every node's trace. Files are
  the strings read and written; a vector indexed by node is a list, node \<open>i\<close> at position \<open>i - 1\<close>.
\<close>

section \<open>Parsing\<close>

record ParsedOp =
  po_ts_us :: u64
  po_op :: char
  po_key :: string
  po_value :: string

definition empty_op :: ParsedOp where
  "empty_op = \<lparr> po_ts_us = 0, po_op = CHR ''G'', po_key = '''', po_value = '''' \<rparr>"

text \<open>The out parameter keeps what was assigned before a failure, and the value of an earlier line.\<close>

definition parse_stamp :: "string \<Rightarrow> ParsedOp \<Rightarrow> bool \<times> ParsedOp" where
  "parse_stamp ts_str out =
     (case stoull ts_str of
        None \<Rightarrow> (False, out)
      | Some (ts, pos) \<Rightarrow> (True, out\<lparr>po_ts_us := ts\<rparr>))"

definition parse_line :: "string \<Rightarrow> ParsedOp \<Rightarrow> bool \<times> ParsedOp" where
  "parse_line line out =
     (if line = [] \<or> hd line = CHR ''#'' then (False, out)
      else if CHR '','' \<notin> set line then (False, out)
      else let ts_str = before_char CHR '','' line;
               req = strip_eol (after_char CHR '','' line)
           in if length req < 3 \<or> req ! 1 \<noteq> CHR '' '' then (False, out)
              else let out1 = out\<lparr>po_op := req ! 0\<rparr>;
                       rest = drop 2 req
                   in if req ! 0 = CHR ''P'' \<or> req ! 0 = CHR ''U'' then
                        (if CHR '':'' \<notin> set rest then (False, out1)
                         else parse_stamp ts_str
                                (out1\<lparr>po_key := before_char CHR '':'' rest, po_value := after_char CHR '':'' rest\<rparr>))
                      else if req ! 0 = CHR ''D'' \<or> req ! 0 = CHR ''G'' then
                        parse_stamp ts_str (out1\<lparr>po_key := rest\<rparr>)
                      else (False, out1))"

section \<open>First pass\<close>

fun end_ts_loop :: "u64 \<Rightarrow> string list \<Rightarrow> ParsedOp \<Rightarrow> u64 \<Rightarrow> u64 \<Rightarrow> u64" where
  "end_ts_loop max_ops [] op1 tot end_ts = end_ts"
| "end_ts_loop max_ops (line # lines) op1 tot end_ts =
     (case parse_line line op1 of
        (False, op2) \<Rightarrow> end_ts_loop max_ops lines op2 tot end_ts
      | (True, op2) \<Rightarrow>
          if 0 < max_ops \<and> max_ops \<le> tot then end_ts
          else end_ts_loop max_ops lines op2 (tot + 1) (po_ts_us op2))"

section \<open>Second pass\<close>

record GenState =
  g_total :: u64
  g_last_ts :: "u64 list"
  g_read_counts :: "u64 list"
  g_write_counts :: "u64 list"
  g_outs :: "string list"

definition gen_start :: "nat \<Rightarrow> GenState" where
  "gen_start nodes = \<lparr> g_total = 0, g_last_ts = replicate nodes 0, g_read_counts = replicate nodes 0,
     g_write_counts = replicate nodes 0, g_outs = replicate nodes '''' \<rparr>"

text \<open>The search for the node with the fewest operations, then the oldest last time stamp; nodes from 1.\<close>

fun best_loop :: "(u64 \<times> u64) list \<Rightarrow> nat \<Rightarrow> u64 \<Rightarrow> u64 \<Rightarrow> nat \<Rightarrow> nat" where
  "best_loop [] i best_count best_last_ts best = best"
| "best_loop ((c, l) # rest) i best_count best_last_ts best =
     (if c < best_count \<or> (c = best_count \<and> l < best_last_ts)
      then best_loop rest (Suc i) c l i
      else best_loop rest (Suc i) best_count best_last_ts best)"

definition best_node :: "u64 list \<Rightarrow> u64 list \<Rightarrow> nat" where
  "best_node counts last_ts = best_loop (zip counts last_ts) 1 (- 1) (- 1) 1"

definition bump :: "nat \<Rightarrow> u64 list \<Rightarrow> u64 list" where
  "bump i xs = xs[i := xs ! i + 1]"

definition choose_target :: "bool \<Rightarrow> char \<Rightarrow> GenState \<Rightarrow> nat \<times> GenState" where
  "choose_target multinode_writes c g =
     (if c = CHR ''G'' then
        let t = best_node (g_read_counts g) (g_last_ts g)
        in (t, g\<lparr>g_read_counts := bump (t - 1) (g_read_counts g)\<rparr>)
      else
        let t = (if multinode_writes then best_node (g_write_counts g) (g_last_ts g) else 1)
        in (t, g\<lparr>g_write_counts := bump (t - 1) (g_write_counts g)\<rparr>))"

definition emit :: "nat \<Rightarrow> string \<Rightarrow> u64 \<Rightarrow> GenState \<Rightarrow> GenState" where
  "emit t line ts g =
     g\<lparr>g_outs := (g_outs g)[t - 1 := g_outs g ! (t - 1) @ line @ [CHR 0x0A]],
       g_last_ts := (g_last_ts g)[t - 1 := ts]\<rparr>"

definition assign_line :: "bool \<Rightarrow> string \<Rightarrow> ParsedOp \<Rightarrow> GenState \<Rightarrow> GenState" where
  "assign_line multinode_writes line p g =
     (case choose_target multinode_writes (po_op p) (g\<lparr>g_total := g_total g + 1\<rparr>) of
        (t, g1) \<Rightarrow> emit t line (po_ts_us p) g1)"

fun gen_loop :: "bool \<Rightarrow> u64 \<Rightarrow> string list \<Rightarrow> ParsedOp \<Rightarrow> GenState \<Rightarrow> GenState" where
  "gen_loop multi max_ops [] op1 g = g"
| "gen_loop multi max_ops (line # lines) op1 g =
     (case parse_line line op1 of
        (False, op2) \<Rightarrow> gen_loop multi max_ops lines op2 g
      | (True, op2) \<Rightarrow>
          if 0 < max_ops \<and> max_ops \<le> g_total g then g
          else gen_loop multi max_ops lines op2 (assign_line multi line op2 g))"

section \<open>Padding\<close>

definition pad_line :: "u64 \<Rightarrow> nat \<Rightarrow> string" where
  "pad_line end_ts i = show_u64 end_ts @ '',G __pad_node'' @ show_nat i"

definition pad_node :: "u64 \<Rightarrow> nat \<Rightarrow> GenState \<Rightarrow> GenState" where
  "pad_node end_ts i g =
     (if g_last_ts g ! (i - 1) < end_ts
      then let g1 = emit i (pad_line end_ts i) end_ts g
           in g1\<lparr>g_read_counts := bump (i - 1) (g_read_counts g1), g_total := g_total g1 + 1\<rparr>
      else g)"

definition pad_all :: "u64 \<Rightarrow> nat \<Rightarrow> GenState \<Rightarrow> GenState" where
  "pad_all end_ts nodes g = fold (pad_node end_ts) [1..<Suc nodes] g"

section \<open>The program\<close>

datatype gen_error = Gen_Usage | Gen_Uncaught | Gen_Nodes | Gen_No_Input | Gen_No_Operations

definition trace_gen :: "nat \<Rightarrow> u64 \<Rightarrow> bool \<Rightarrow> string \<Rightarrow> gen_error + GenState" where
  "trace_gen nodes max_ops multinode_writes input =
     (let lines = split_lines input;
          end_ts = end_ts_loop max_ops lines empty_op 0 0
      in if end_ts = 0 then Inl Gen_No_Operations
         else Inr (pad_all end_ts nodes (gen_loop multinode_writes max_ops lines empty_op (gen_start nodes))))"

text \<open>The arguments after the program name; \<open>files\<close> opens an input file. The outputs can all be opened.\<close>

fun gen_main :: "string list \<Rightarrow> (string \<Rightarrow> string option) \<Rightarrow> gen_error + GenState" where
  "gen_main (input_path # output_prefix # nodes_arg # max_arg # args) files =
     (case (stoi nodes_arg, stoull max_arg) of
        (Some nodes, Some (max_ops, _)) \<Rightarrow>
          let multinode_writes = (case args of [] \<Rightarrow> True | v # _ \<Rightarrow> v \<in> {''1'', ''true'', ''yes''})
          in if nodes < 1 then Inl Gen_Nodes
             else (case files input_path of
                     None \<Rightarrow> Inl Gen_No_Input
                   | Some input \<Rightarrow> trace_gen (nat nodes) max_ops multinode_writes input)
      | _ \<Rightarrow> Inl Gen_Uncaught)"
| "gen_main args files = Inl Gen_Usage"

section \<open>The lines that are distributed\<close>

definition op_of :: "string \<Rightarrow> ParsedOp" where
  "op_of line = snd (parse_line line empty_op)"

definition valid_line :: "string \<Rightarrow> bool" where
  "valid_line line = fst (parse_line line empty_op)"

lemma parse_line_out:
  "fst (parse_line line op1) = valid_line line"
  "valid_line line \<Longrightarrow> po_op (snd (parse_line line op1)) = po_op (op_of line) \<and>
     po_ts_us (snd (parse_line line op1)) = po_ts_us (op_of line)"
  by (auto simp: parse_line_def parse_stamp_def valid_line_def op_of_def Let_def split: option.splits prod.splits)

text \<open>The first \<open>max_ops\<close> lines that parse, or all of them when \<open>max_ops\<close> is 0, after \<open>k\<close> have been taken.\<close>

definition kept_from :: "u64 \<Rightarrow> nat \<Rightarrow> string list \<Rightarrow> string list" where
  "kept_from max_ops k lines =
     (let ls = filter valid_line lines in if max_ops = 0 then ls else take (unat max_ops - k) ls)"

lemma kept_from_skip: "\<not> valid_line line \<Longrightarrow> kept_from max_ops k (line # lines) = kept_from max_ops k lines"
  by (simp add: kept_from_def)

lemma kept_from_stop: "0 < max_ops \<Longrightarrow> unat max_ops \<le> k \<Longrightarrow> kept_from max_ops k lines = []"
  by (simp add: kept_from_def Let_def)

lemma kept_from_take:
  assumes "valid_line line" "\<not> (0 < max_ops \<and> unat max_ops \<le> k)"
  shows "kept_from max_ops k (line # lines) = line # kept_from max_ops (Suc k) lines"
proof (cases "max_ops = 0")
  case False
  then have "unat max_ops - k = Suc (unat max_ops - Suc k)" using assms(2) by (simp add: word_gt_0)
  with False assms(1) show ?thesis by (simp add: kept_from_def)
qed (simp add: kept_from_def assms(1))

lemma assign_line_cong:
  "po_op p = po_op q \<Longrightarrow> po_ts_us p = po_ts_us q \<Longrightarrow> assign_line multi line p g = assign_line multi line q g"
  by (simp add: assign_line_def)

lemma g_total_assign [simp]: "g_total (assign_line multi line p g) = g_total g + 1"
  by (simp add: assign_line_def choose_target_def emit_def Let_def)

lemma gen_loop_fold:
  assumes "unat (g_total g) + length lines < 2 ^ 64"
  shows "gen_loop multi max_ops lines op1 g =
    fold (\<lambda>l. assign_line multi l (op_of l)) (kept_from max_ops (unat (g_total g)) lines) g"
  using assms
proof (induction lines arbitrary: op1 g)
  case (Cons line lines)
  obtain ok op2 where p: "parse_line line op1 = (ok, op2)" by fastforce
  then have ok: "ok = valid_line line" using parse_line_out(1) [of line op1] by simp
  show ?case
  proof (cases ok)
    case False
    with Cons p ok show ?thesis by (simp add: kept_from_skip)
  next
    case True
    show ?thesis
    proof (cases "0 < max_ops \<and> max_ops \<le> g_total g")
      case stop: True
      with True p show ?thesis by (simp add: kept_from_stop word_le_nat_alt)
    next
      case more: False
      have same: "assign_line multi line op2 g = assign_line multi line (op_of line) g"
        using parse_line_out(2) [of line op1] True ok p by (intro assign_line_cong) auto
      have suc: "unat (g_total g + 1) = Suc (unat (g_total g))"
        using Cons.prems by (simp add: unat_word_ariths)
      have keep: "kept_from max_ops (unat (g_total g)) (line # lines)
          = line # kept_from max_ops (Suc (unat (g_total g))) lines"
        using True ok more by (intro kept_from_take) (auto simp: word_le_nat_alt)
      show ?thesis
        using True p more same keep Cons.IH [of "assign_line multi line (op_of line) g" op2] Cons.prems
        by (auto simp: suc)
    qed
  qed
qed (simp add: kept_from_def)

definition last_stamp :: "u64 \<Rightarrow> string list \<Rightarrow> u64" where
  "last_stamp d ls = (if ls = [] then d else po_ts_us (op_of (last ls)))"

lemma end_ts_loop_last:
  assumes "unat k + length lines < 2 ^ 64"
  shows "end_ts_loop max_ops lines op1 k d = last_stamp d (kept_from max_ops (unat k) lines)"
  using assms
proof (induction lines arbitrary: op1 k d)
  case (Cons line lines)
  obtain ok op2 where p: "parse_line line op1 = (ok, op2)" by fastforce
  then have ok: "ok = valid_line line" using parse_line_out(1) [of line op1] by simp
  show ?case
  proof (cases ok)
    case False
    with Cons p ok show ?thesis by (simp add: kept_from_skip)
  next
    case True
    show ?thesis
    proof (cases "0 < max_ops \<and> max_ops \<le> k")
      case stop: True
      with True p show ?thesis by (simp add: kept_from_stop word_le_nat_alt last_stamp_def)
    next
      case more: False
      have suc: "unat (k + 1) = Suc (unat k)" using Cons.prems by (simp add: unat_word_ariths)
      have keep: "kept_from max_ops (unat k) (line # lines) = line # kept_from max_ops (Suc (unat k)) lines"
        using True ok more by (intro kept_from_take) (auto simp: word_le_nat_alt)
      have "po_ts_us op2 = po_ts_us (op_of line)" using parse_line_out(2) [of line op1] True ok p by simp
      with True p more keep Cons.IH [of "k + 1" op2 "po_ts_us op2"] Cons.prems show ?thesis
        by (auto simp: suc last_stamp_def)
    qed
  qed
qed (simp add: kept_from_def last_stamp_def)

section \<open>The choice of a node\<close>

text \<open>Counts and time stamps compare lexicographically, as numbers of twice the width.\<close>

definition lex_key :: "u64 \<times> u64 \<Rightarrow> nat" where
  "lex_key = (\<lambda>(c, l). unat c * 2 ^ 64 + unat l)"

lemma lex_key_less: "lex_key (c, l) < lex_key (c', l') \<longleftrightarrow> c < c' \<or> (c = c' \<and> l < l')"
proof -
  have b: "unat l < 2 ^ 64" "unat l' < 2 ^ 64" by (rule unat_u64_bound)+
  consider "unat c < unat c'" | "unat c' < unat c" | "c = c'" using word_unat_eq_iff [of c c'] by linarith
  then show ?thesis
  proof cases
    case 1
    then have "Suc (unat c) * 2 ^ 64 \<le> unat c' * 2 ^ 64" by (intro mult_le_mono1) simp
    with 1 b show ?thesis by (simp add: lex_key_def word_less_nat_alt)
  next
    case 2
    then have "Suc (unat c') * 2 ^ 64 \<le> unat c * 2 ^ 64" by (intro mult_le_mono1) simp
    with 2 b show ?thesis by (auto simp: lex_key_def word_less_nat_alt)
  qed (simp add: lex_key_def word_less_nat_alt)
qed

lemma best_loop_spec:
  "(best_loop xs i bc bl b = b \<and> (\<forall>x\<in>set xs. lex_key (bc, bl) \<le> lex_key x)) \<or>
   (\<exists>j<length xs. best_loop xs i bc bl b = i + j \<and> lex_key (xs ! j) < lex_key (bc, bl) \<and>
      (\<forall>x\<in>set xs. lex_key (xs ! j) \<le> lex_key x))"
proof (induction xs arbitrary: i bc bl b)
  case (Cons x xs)
  obtain c l where x: "x = (c, l)" by fastforce
  show ?case
  proof (cases "lex_key (c, l) < lex_key (bc, bl)")
    case True
    then have step: "best_loop (x # xs) i bc bl b = best_loop xs (Suc i) c l i" by (simp add: x lex_key_less)
    from Cons.IH [of "Suc i" c l i] show ?thesis
    proof (elim disjE conjE exE)
      assume "best_loop xs (Suc i) c l i = i" "\<forall>x\<in>set xs. lex_key (c, l) \<le> lex_key x"
      then show ?thesis using step True x by (intro disjI2 exI [of _ 0]) simp
    next
      fix j assume "j < length xs" "best_loop xs (Suc i) c l i = Suc i + j" "lex_key (xs ! j) < lex_key (c, l)"
        "\<forall>x\<in>set xs. lex_key (xs ! j) \<le> lex_key x"
      then show ?thesis using step True x by (intro disjI2 exI [of _ "Suc j"]) auto
    qed
  next
    case False
    then have step: "best_loop (x # xs) i bc bl b = best_loop xs (Suc i) bc bl b" by (auto simp: x lex_key_less)
    from Cons.IH [of "Suc i" bc bl b] show ?thesis
    proof (elim disjE conjE exE)
      fix j assume "j < length xs" "best_loop xs (Suc i) bc bl b = Suc i + j" "lex_key (xs ! j) < lex_key (bc, bl)"
        "\<forall>x\<in>set xs. lex_key (xs ! j) \<le> lex_key x"
      then show ?thesis using step False x by (intro disjI2 exI [of _ "Suc j"]) auto
    qed (use step False x in auto)
  qed
qed simp

lemma best_node_spec:
  assumes "length counts = n" "length stamps = n" "0 < n"
  shows "1 \<le> best_node counts stamps \<and> best_node counts stamps \<le> n \<and>
    (\<forall>j<n. counts ! (best_node counts stamps - 1) \<le> counts ! j)"
proof -
  let ?xs = "zip counts stamps"
  let ?t = "best_node counts stamps"
  have len: "length ?xs = n" using assms by simp
  have max: "lex_key (c, l) \<le> lex_key (- 1, - 1)" for c l
    using lex_key_less [of "- 1" "- 1" c l] by (simp add: not_less)
  have "1 \<le> ?t \<and> ?t \<le> n \<and> (\<forall>x\<in>set ?xs. lex_key (?xs ! (?t - 1)) \<le> lex_key x)"
    using best_loop_spec [of ?xs 1 "- 1" "- 1" 1] unfolding best_node_def [symmetric]
  proof (elim disjE conjE exE)
    assume a: "?t = 1" "\<forall>x\<in>set ?xs. lex_key (- 1, - 1) \<le> lex_key x"
    have "lex_key (?xs ! 0) \<le> lex_key (- 1, - 1)" using max by (cases "?xs ! 0") simp
    with a assms(3) show ?thesis by (auto intro: le_trans)
  qed (use len in auto)
  moreover have "?xs ! j \<in> set ?xs" if "j < n" for j using that len nth_mem by metis
  ultimately have "1 \<le> ?t \<and> ?t \<le> n" and le: "\<And>j. j < n \<Longrightarrow> lex_key (?xs ! (?t - 1)) \<le> lex_key (?xs ! j)"
    by blast+
  moreover have "counts ! (?t - 1) \<le> counts ! j" if "j < n" for j
    using le [OF that] lex_key_less [of "counts ! j" "stamps ! j" "counts ! (?t - 1)" "stamps ! (?t - 1)"]
      \<open>1 \<le> ?t \<and> ?t \<le> n\<close> that assms by (auto simp: not_less [symmetric])
  ultimately show ?thesis by blast
qed

section \<open>Distribution\<close>

definition is_read :: "string \<Rightarrow> bool" where
  "is_read l \<longleftrightarrow> po_op (op_of l) = CHR ''G''"

abbreviation reads :: "string list \<Rightarrow> nat" where
  "reads ls \<equiv> length (filter is_read ls)"

abbreviation writes :: "string list \<Rightarrow> nat" where
  "writes ls \<equiv> length (filter (\<lambda>l. \<not> is_read l) ls)"

definition unlines :: "string list \<Rightarrow> string" where
  "unlines ls = concat (map (\<lambda>l. l @ [CHR 0x0A]) ls)"

lemma unlines_append: "unlines (ls @ ms) = unlines ls @ unlines ms"
  by (simp add: unlines_def)

text \<open>The lines of node \<open>i\<close> are \<open>share i\<close>: what was promised for them, and how the state records it.\<close>

definition fair :: "bool \<Rightarrow> nat \<Rightarrow> string list \<Rightarrow> (nat \<Rightarrow> string list) \<Rightarrow> bool" where
  "fair multi nodes ls share \<longleftrightarrow>
     (\<forall>i\<in>{1..nodes}. subseq (share i) ls) \<and> mset ls = (\<Sum>i\<in>{1..nodes}. mset (share i)) \<and>
     (\<forall>i\<in>{1..nodes}. \<forall>j\<in>{1..nodes}. reads (share i) \<le> reads (share j) + 1) \<and>
     (multi \<longrightarrow> (\<forall>i\<in>{1..nodes}. \<forall>j\<in>{1..nodes}. writes (share i) \<le> writes (share j) + 1)) \<and>
     (\<not> multi \<longrightarrow> (\<forall>i\<in>{1..nodes}. i \<noteq> 1 \<longrightarrow> writes (share i) = 0))"

definition records :: "nat \<Rightarrow> (nat \<Rightarrow> string list) \<Rightarrow> GenState \<Rightarrow> bool" where
  "records nodes share g \<longleftrightarrow>
     length (g_last_ts g) = nodes \<and> length (g_read_counts g) = nodes \<and> length (g_write_counts g) = nodes \<and>
     length (g_outs g) = nodes \<and>
     (\<forall>i\<in>{1..nodes}. g_outs g ! (i - 1) = unlines (share i) \<and> g_last_ts g ! (i - 1) = last_stamp 0 (share i) \<and>
        unat (g_read_counts g ! (i - 1)) = reads (share i) \<and> unat (g_write_counts g ! (i - 1)) = writes (share i))"

lemma nth_update_node:
  "length xs = nodes \<Longrightarrow> 1 \<le> t \<Longrightarrow> t \<le> nodes \<Longrightarrow> 1 \<le> i \<Longrightarrow>
   xs[t - 1 := v] ! (i - 1) = (if i = t then v else xs ! (i - 1))"
  by (auto simp: nth_list_update)

lemma fair_le:
  assumes "\<forall>i\<in>{1..nodes}. subseq (share i) ls" "t \<in> {1..nodes}"
  shows "reads (share t) \<le> length ls" "writes (share t) \<le> length ls"
proof -
  have "length (share t) \<le> length ls" using assms by (auto intro: list_emb_length)
  then show "reads (share t) \<le> length ls" "writes (share t) \<le> length ls"
    by (auto intro: le_trans [OF length_filter_le])
qed

lemma even_step:
  assumes "\<forall>i\<in>S. \<forall>j\<in>S. f i \<le> f j + (1 :: nat)" "t \<in> S" "\<forall>j\<in>S. f t \<le> f j" "i \<in> S" "j \<in> S"
  shows "(if i = t then f t + 1 else f i) \<le> (if j = t then f t + 1 else f j) + 1"
proof -
  have "f i \<le> f j + 1" "f t \<le> f j" "f i \<le> f t + 1" using assms by blast+
  then show ?thesis by simp
qed

lemma fair_add:
  assumes fair: "fair multi nodes ls share" and t: "t \<in> {1..nodes}"
    and least: "is_read l \<Longrightarrow> \<forall>j\<in>{1..nodes}. reads (share t) \<le> reads (share j)"
      "\<not> is_read l \<Longrightarrow> if multi then \<forall>j\<in>{1..nodes}. writes (share t) \<le> writes (share j) else t = 1"
  shows "fair multi nodes (ls @ [l]) (share(t := share t @ [l]))"
proof -
  have sub: "\<forall>i\<in>{1..nodes}. subseq (share i) ls" using fair by (simp add: fair_def)
  have "subseq ((share(t := share t @ [l])) i) (ls @ [l])" if "i \<in> {1..nodes}" for i
    using sub that by (auto intro: list_emb_append_mono list_emb_prefix)
  moreover have "mset (ls @ [l]) = (\<Sum>i\<in>{1..nodes}. mset ((share(t := share t @ [l])) i))"
  proof -
    have "(\<Sum>i\<in>{1..nodes} - {t}. mset ((share(t := share t @ [l])) i)) = (\<Sum>i\<in>{1..nodes} - {t}. mset (share i))"
      by (intro sum.cong) auto
    then show ?thesis
      using fair t sum.remove [of "{1..nodes}" t "\<lambda>i. mset (share i)"]
        sum.remove [of "{1..nodes}" t "\<lambda>i. mset ((share(t := share t @ [l])) i)"]
      by (simp add: fair_def)
  qed
  moreover have "reads ((share(t := share t @ [l])) i) \<le> reads ((share(t := share t @ [l])) j) + 1"
    if "i \<in> {1..nodes}" "j \<in> {1..nodes}" for i j
  proof (cases "is_read l")
    case True
    with least(1) fair have "\<forall>j\<in>{1..nodes}. reads (share t) \<le> reads (share j)"
      "\<forall>i\<in>{1..nodes}. \<forall>j\<in>{1..nodes}. reads (share i) \<le> reads (share j) + 1" by (simp_all add: fair_def)
    from even_step [OF this(2) t this(1) that] True show ?thesis by (simp split: if_splits)
  next
    case False
    with fair that show ?thesis by (simp add: fair_def)
  qed
  moreover have "writes ((share(t := share t @ [l])) i) \<le> writes ((share(t := share t @ [l])) j) + 1"
    if "multi" "i \<in> {1..nodes}" "j \<in> {1..nodes}" for i j
  proof (cases "is_read l")
    case False
    with least(2) fair that have "\<forall>j\<in>{1..nodes}. writes (share t) \<le> writes (share j)"
      "\<forall>i\<in>{1..nodes}. \<forall>j\<in>{1..nodes}. writes (share i) \<le> writes (share j) + 1" by (simp_all add: fair_def)
    from even_step [OF this(2) t this(1) that(2,3)] False show ?thesis by (simp split: if_splits)
  next
    case True
    with fair that show ?thesis by (simp add: fair_def)
  qed
  moreover have "writes ((share(t := share t @ [l])) i) = 0" if "\<not> multi" "i \<in> {1..nodes}" "i \<noteq> 1" for i
    using fair that least(2) by (cases "is_read l") (simp_all add: fair_def)
  ultimately show ?thesis by (simp add: fair_def)
qed


lemma bump_node:
  assumes "length xs = nodes" "t \<in> {1..nodes}" "i \<in> {1..nodes}" "unat (xs ! (t - 1)) + 1 < 2 ^ 64"
  shows "unat (bump (t - 1) xs ! (i - 1)) = (if i = t then unat (xs ! (t - 1)) + 1 else unat (xs ! (i - 1)))"
  using assms nth_update_node [OF assms(1), of t i "xs ! (t - 1) + 1"]
  by (simp add: bump_def unat_word_ariths del: One_nat_def)

lemma records_emit:
  assumes rec: "records nodes share g" and t: "t \<in> {1..nodes}"
    and room: "reads (share t) + 1 < 2 ^ 64" "writes (share t) + 1 < 2 ^ 64"
    and rc: "g_read_counts g' = (if is_read l then bump (t - 1) (g_read_counts g) else g_read_counts g)"
    and wc: "g_write_counts g' = (if is_read l then g_write_counts g else bump (t - 1) (g_write_counts g))"
    and outs: "g_outs g' = (g_outs g)[t - 1 := g_outs g ! (t - 1) @ l @ [CHR 0x0A]]"
    and last: "g_last_ts g' = (g_last_ts g)[t - 1 := po_ts_us (op_of l)]"
  shows "records nodes (share(t := share t @ [l])) g'"
proof -
  have len: "length (g_last_ts g) = nodes" "length (g_read_counts g) = nodes" "length (g_write_counts g) = nodes"
    "length (g_outs g) = nodes" using rec by (simp_all add: records_def)
  have at: "g_outs g ! (i - 1) = unlines (share i)" "g_last_ts g ! (i - 1) = last_stamp 0 (share i)"
    "unat (g_read_counts g ! (i - 1)) = reads (share i)" "unat (g_write_counts g ! (i - 1)) = writes (share i)"
    if "i \<in> {1..nodes}" for i using rec that by (simp_all add: records_def)
  have "g_outs g' ! (i - 1) = unlines ((share(t := share t @ [l])) i) \<and>
      g_last_ts g' ! (i - 1) = last_stamp 0 ((share(t := share t @ [l])) i)" if "i \<in> {1..nodes}" for i
    using that t nth_update_node [OF len(4)] nth_update_node [OF len(1)]
    by (auto simp: outs last at unlines_append last_stamp_def simp del: One_nat_def) (simp_all add: unlines_def)
  moreover have "unat (g_read_counts g' ! (i - 1)) = reads ((share(t := share t @ [l])) i)" if "i \<in> {1..nodes}" for i
    using bump_node [OF len(2) t that] at(3) [OF that] at(3) [OF t] room by (auto simp: rc simp del: One_nat_def)
  moreover have "unat (g_write_counts g' ! (i - 1)) = writes ((share(t := share t @ [l])) i)" if "i \<in> {1..nodes}" for i
    using bump_node [OF len(3) t that] at(4) [OF that] at(4) [OF t] room by (auto simp: wc simp del: One_nat_def)
  ultimately show ?thesis using len by (simp add: records_def rc wc outs last bump_def)
qed

lemma chosen_target:
  assumes rec: "records nodes share g" and "0 < nodes"
    and t: "t = fst (choose_target multi (po_op (op_of l)) (g\<lparr>g_total := k\<rparr>))"
  shows "t \<in> {1..nodes}"
    and "is_read l \<Longrightarrow> \<forall>j\<in>{1..nodes}. reads (share t) \<le> reads (share j)"
    and "\<not> is_read l \<Longrightarrow> if multi then \<forall>j\<in>{1..nodes}. writes (share t) \<le> writes (share j) else t = 1"
proof -
  have len: "length (g_last_ts g) = nodes" "length (g_read_counts g) = nodes" "length (g_write_counts g) = nodes"
    using rec by (simp_all add: records_def)
  let ?r = "best_node (g_read_counts g) (g_last_ts g)" and ?w = "best_node (g_write_counts g) (g_last_ts g)"
  note r = best_node_spec [OF len(2,1) assms(2)] and w = best_node_spec [OF len(3,1) assms(2)]
  have at: "unat (g_read_counts g ! (i - 1)) = reads (share i)" "unat (g_write_counts g ! (i - 1)) = writes (share i)"
    if "i \<in> {1..nodes}" for i using rec that by (simp_all add: records_def)
  have tv: "t = (if is_read l then ?r else if multi then ?w else 1)"
    by (simp add: t choose_target_def is_read_def Let_def)
  show inr: "t \<in> {1..nodes}" using r w assms(2) by (simp add: tv)
  have le: "unat (g_read_counts g ! (?r - 1)) \<le> unat (g_read_counts g ! (j - 1))"
    "unat (g_write_counts g ! (?w - 1)) \<le> unat (g_write_counts g ! (j - 1))" if "j \<in> {1..nodes}" for j
    using r w that by (auto simp: word_le_nat_alt [symmetric])
  show "\<forall>j\<in>{1..nodes}. reads (share t) \<le> reads (share j)" if "is_read l"
    using le(1) at(1) inr that by (auto simp: tv simp del: One_nat_def)
  show "if multi then \<forall>j\<in>{1..nodes}. writes (share t) \<le> writes (share j) else t = 1" if "\<not> is_read l"
    using le(2) at(2) inr that by (auto simp: tv simp del: One_nat_def)
qed

lemma assign_step:
  assumes rec: "records nodes share g" and fair: "fair multi nodes ls share" and "0 < nodes" "length ls + 1 < 2 ^ 64"
  shows "\<exists>share'. records nodes share' (assign_line multi l (op_of l) g) \<and> fair multi nodes (ls @ [l]) share'"
proof -
  define t where "t = fst (choose_target multi (po_op (op_of l)) (g\<lparr>g_total := g_total g + 1\<rparr>))"
  note ct = chosen_target [OF rec assms(3) t_def]
  have sub: "\<forall>i\<in>{1..nodes}. subseq (share i) ls" using fair by (simp add: fair_def)
  have "records nodes (share(t := share t @ [l])) (assign_line multi l (op_of l) g)"
  proof (rule records_emit [OF rec ct(1)])
    show "reads (share t) + 1 < 2 ^ 64" "writes (share t) + 1 < 2 ^ 64"
      using fair_le [OF sub ct(1)] assms(4) by linarith+
  qed (simp_all add: assign_line_def t_def choose_target_def emit_def is_read_def Let_def split: prod.split)
  with fair_add [OF fair ct] show ?thesis by blast
qed

lemma assign_all:
  assumes "records nodes share g" "fair multi nodes ls share" "0 < nodes" "length ls + length ops < 2 ^ 64"
  shows "\<exists>share'. records nodes share' (fold (\<lambda>l. assign_line multi l (op_of l)) ops g) \<and> fair multi nodes (ls @ ops) share'"
  using assms
proof (induction ops arbitrary: ls share g)
  case (Cons l ops)
  from assign_step [OF Cons.prems(1-3), of l] Cons.prems(4) obtain share1 where
    "records nodes share1 (assign_line multi l (op_of l) g)" "fair multi nodes (ls @ [l]) share1" by auto
  from Cons.IH [OF this Cons.prems(3)] Cons.prems(4) show ?case by simp
qed auto

lemma records_start: "records nodes (\<lambda>_. []) (gen_start nodes)" "fair multi nodes [] (\<lambda>_. [])"
  by (auto simp: records_def gen_start_def unlines_def last_stamp_def fair_def)

section \<open>Generator and driver read lines alike\<close>

lemma split_at_char: "c \<in> set s \<Longrightarrow> s = before_char c s @ c # after_char c s"
  by (induction s) (auto simp: before_char_def after_char_def)

lemma strip_eol_keeps:
  assumes "strip_eol b \<noteq> []"
  shows "strip_eol (a @ b) = a @ strip_eol b"
proof -
  have "dropWhile is_eol (rev b) \<noteq> []" using assms by (simp add: strip_eol_def)
  then show ?thesis by (auto simp: strip_eol_def dropWhile_append)
qed

lemma stoull_digits:
  assumes "s \<noteq> []" "list_all is_digit s"
  shows "stoull s = (if 2 ^ 64 \<le> digits_value s then None else Some (of_nat (digits_value s), length s))"
proof -
  have h: "is_digit (hd s)" using assms by (cases s) auto
  then have "dropWhile is_space s = s" using digit_not_special(1) by (cases s) auto
  moreover have tw: "takeWhile is_digit s = s" using assms(2) by (auto simp: list_all_iff takeWhile_eq_all_conv)
  moreover have "dropWhile is_digit s = []"
    using takeWhile_dropWhile_id [of is_digit s] unfolding tw by (rule append_self_conv [THEN iffD1])
  ultimately show ?thesis using assms(1) digit_not_special [OF h]
    by (simp add: stoull_def Let_def del: takeWhile_eq_all_conv dropWhile_eq_Nil_conv)
qed

lemma parse_stamp_True:
  "parse_stamp ts_str out = (True, p) \<longleftrightarrow> (\<exists>ts pos. stoull ts_str = Some (ts, pos) \<and> p = out\<lparr>po_ts_us := ts\<rparr>)"
  by (auto simp: parse_stamp_def split: option.splits)

lemma parse_line_True:
  assumes "parse_line line op1 = (True, p)"
  defines "req \<equiv> strip_eol (after_char CHR '','' line)"
  shows "line \<noteq> []" "hd line \<noteq> CHR ''#''" "CHR '','' \<in> set line" "3 \<le> length req" "req ! 1 = CHR '' ''"
    "po_op p = req ! 0" "\<exists>pos. stoull (before_char CHR '','' line) = Some (po_ts_us p, pos)"
    "po_op p \<in> {CHR ''P'', CHR ''U''} \<Longrightarrow> CHR '':'' \<in> set (drop 2 req) \<and>
       po_key p = before_char CHR '':'' (drop 2 req) \<and> po_value p = after_char CHR '':'' (drop 2 req)"
    "po_op p \<notin> {CHR ''P'', CHR ''U''} \<Longrightarrow> po_op p \<in> {CHR ''D'', CHR ''G''} \<and> po_key p = drop 2 req"
  using assms(1) unfolding parse_line_def Let_def req_def [symmetric]
  by (auto simp: parse_stamp_True split: if_splits)

text \<open>the generator and the driver agree on lines. A line that the generator keeps, with a
  time stamp of digits only, a key that is not empty and, for reads and deletes, no colon in the key, is
  accepted by the driver with the same time stamp, operation, key and value.\<close>

theorem generator_driver_agree:
  assumes ok: "parse_line line op1 = (True, p)" and digits: "list_all is_digit (before_char CHR '','' line)"
    and key: "po_key p \<noteq> []" "po_op p \<notin> {CHR ''P'', CHR ''U''} \<Longrightarrow> CHR '':'' \<notin> set (po_key p)"
    and len: "length line < 2 ^ 32"
  shows "\<exists>v. parse_line_view line = Some v \<and> v_ts_us v = po_ts_us p \<and> v_op v = po_op p \<and>
    take (unat (v_key_len v)) (v_key_ptr v) = po_key p \<and>
    v_value_ptr v = (if po_op p \<in> {CHR ''P'', CHR ''U''} then Some (po_value p) else None)"
proof -
  define req where "req = strip_eol (after_char CHR '','' line)"
  note t = parse_line_True [OF ok, folded req_def]
  have "req \<noteq> []" using t(4) by auto
  then have "strip_eol ((before_char CHR '','' line @ '','') @ after_char CHR '','' line)
      = (before_char CHR '','' line @ '','') @ req" unfolding req_def by (rule strip_eol_keeps)
  then have strip: "strip_eol line = before_char CHR '','' line @ CHR '','' # req"
    using split_at_char [OF t(3)] by simp
  have nc: "CHR '','' \<notin> set (before_char CHR '','' line)" by (auto simp: before_char_def dest: set_takeWhileD)
  have ba: "before_char CHR '','' (strip_eol line) = before_char CHR '','' line"
    "after_char CHR '','' (strip_eol line) = req" "CHR '','' \<in> set (strip_eol line)"
    by (simp_all add: strip before_char_append after_char_append nc)
  have ne: "before_char CHR '','' line \<noteq> []" using t(7) by (auto simp: stoull_def)
  then have ts: "parse_u64 (before_char CHR '','' line) = Some (po_ts_us p)"
    using t(7) digits by (auto simp: stoull_digits parse_u64_spec split: if_splits)
  have colon: "before_char CHR '':'' (drop 2 req) = po_key p"
    "(if CHR '':'' \<in> set (drop 2 req) then Some (after_char CHR '':'' (drop 2 req)) else None)
       = (if po_op p \<in> {CHR ''P'', CHR ''U''} then Some (po_value p) else None)"
    using t(8,9) key(2) before_char_whole [of "CHR '':''" "drop 2 req"]
    by (cases "po_op p \<in> {CHR ''P'', CHR ''U''}"; simp)+
  have "length req \<le> length line" using arg_cong [OF strip, of length] length_dropWhile_le [of is_eol "rev line"]
    by (simp add: strip_eol_def)
  then have "length (po_key p) < 2 ^ 32"
    using len length_before_char_le [of "CHR '':''" "drop 2 req"] colon(1) by simp
  then have kl: "unat (of_nat (length (po_key p)) :: u32) = length (po_key p)" by (simp add: unat_of_nat)
  have pre: "take (length (po_key p)) (drop 2 req) = po_key p"
    using colon(1) by (metis before_char_def takeWhile_eq_take)
  have "\<not> length req < 2" using t(4) by simp
  with t(1,2,5,6) ba ts colon key(1) kl pre show ?thesis
    by (simp add: parse_line_view_def Let_def del: insert_iff)
qed

theorem generator_driver_agree_witness:
  "\<exists>v. parse_line_view ''12,P k:v:w'' = Some v \<and> v_ts_us v = 12 \<and> v_value_ptr v = Some ''v:w''"
proof -
  have ok: "parse_line ''12,P k:v:w'' empty_op =
      (True, \<lparr> po_ts_us = 12, po_op = CHR ''P'', po_key = ''k'', po_value = ''v:w'' \<rparr>)"
    by (simp add: parse_line_def strip_eol_def is_eol_def after_char_def before_char_def parse_stamp_def stoull_def
        is_space_def is_digit_def digits_value_def digit_value_def empty_op_def)
  have "list_all is_digit (before_char CHR '','' ''12,P k:v:w'')" by (simp add: before_char_def is_digit_def)
  from generator_driver_agree [OF ok this] show ?thesis by auto
qed

section \<open>Padding\<close>

lemma pad_line_show: "pad_line end_ts i = show_line end_ts CHR ''G'' (''__pad_node'' @ show_nat i) None"
  by (simp add: pad_line_def show_line_def)

lemma parse_line_show:
  assumes "key \<noteq> []" "\<not> is_eol (last key)" "c = CHR ''G'' \<or> c = CHR ''D''"
  shows "parse_line (show_line ts c key None) op1 = (True, op1\<lparr>po_op := c, po_key := key, po_ts_us := ts\<rparr>)"
proof -
  have nodig: "\<not> is_digit CHR '',''" "\<not> is_digit CHR ''#''" by (simp_all add: is_digit_def)
  have s: "show_line ts c key None = show_u64 ts @ CHR '','' # c # CHR '' '' # key" by (simp add: show_line_def)
  have ne: "show_u64 ts \<noteq> []" by (simp add: show_u64_def)
  have hd: "hd (show_u64 ts @ x) \<noteq> CHR ''#''" for x
    using digits_no_char [OF nodig(2), of ts] hd_in_set [OF ne] ne by (auto simp del: hd_in_set)
  have ba: "before_char CHR '','' (show_line ts c key None) = show_u64 ts"
    "after_char CHR '','' (show_line ts c key None) = c # CHR '' '' # key"
    using digits_no_char [OF nodig(1), of ts] by (simp_all add: s before_char_append after_char_append)
  have "strip_eol (c # CHR '' '' # key) = c # CHR '' '' # key"
    using strip_eol_append [of "[]" "c # CHR '' '' # key"] assms(1,2) by simp
  moreover have "3 \<le> length (c # CHR '' '' # key)" using assms(1) by (cases key) simp_all
  ultimately show ?thesis
    unfolding parse_line_def Let_def ba using assms(3) hd
    by (auto simp: s parse_stamp_def stoull_show_u64)
qed

lemma op_of_pad: "po_op (op_of (pad_line end_ts i)) = CHR ''G''" "po_ts_us (op_of (pad_line end_ts i)) = end_ts"
proof -
  have "is_digit (last (''__pad_node'' @ show_nat i))" using show_nat_digits [OF last_in_set [OF show_nat_not_Nil]] by simp
  then have "\<not> is_eol (last (''__pad_node'' @ show_nat i))" by (auto simp: is_eol_def is_digit_def)
  then show "po_op (op_of (pad_line end_ts i)) = CHR ''G''" "po_ts_us (op_of (pad_line end_ts i)) = end_ts"
    by (simp_all add: op_of_def pad_line_show parse_line_show)
qed

definition padding :: "u64 \<Rightarrow> string list \<Rightarrow> nat \<Rightarrow> string list" where
  "padding end_ts ls i = (if last_stamp 0 ls < end_ts then [pad_line end_ts i] else [])"

lemma records_pad:
  assumes rec: "records nodes share g" and i: "i \<in> {1..nodes}"
    and room: "reads (share i) + 1 < 2 ^ 64" "writes (share i) + 1 < 2 ^ 64"
  shows "records nodes (share(i := share i @ padding end_ts (share i) i)) (pad_node end_ts i g)"
proof (cases "g_last_ts g ! (i - 1) < end_ts")
  case True
  with rec i have "padding end_ts (share i) i = [pad_line end_ts i]" by (simp add: records_def padding_def)
  moreover have "records nodes (share(i := share i @ [pad_line end_ts i])) (pad_node end_ts i g)"
    using True by (intro records_emit [OF rec i room])
      (simp_all add: pad_node_def emit_def op_of_pad is_read_def Let_def)
  ultimately show ?thesis by simp
next
  case False
  with rec i have "padding end_ts (share i) i = []" by (simp add: records_def padding_def)
  with rec False show ?thesis by (simp add: pad_node_def)
qed

lemma records_pad_fold:
  assumes "records nodes share g" "set is \<subseteq> {1..nodes}" "distinct is"
    and "\<forall>i\<in>{1..nodes}. reads (share i) + 1 < 2 ^ 64 \<and> writes (share i) + 1 < 2 ^ 64"
  shows "records nodes (\<lambda>i. if i \<in> set is then share i @ padding end_ts (share i) i else share i) (fold (pad_node end_ts) is g)"
  using assms(1-3)
proof (induction "is" rule: rev_induct)
  case (snoc k ks)
  let ?sh = "\<lambda>i. if i \<in> set ks then share i @ padding end_ts (share i) i else share i"
  have "records nodes (?sh(k := ?sh k @ padding end_ts (?sh k) k)) (pad_node end_ts k (fold (pad_node end_ts) ks g))"
    using snoc assms(4) by (intro records_pad) auto
  moreover have "?sh(k := ?sh k @ padding end_ts (?sh k) k)
      = (\<lambda>i. if i \<in> set (ks @ [k]) then share i @ padding end_ts (share i) i else share i)"
    using snoc.prems by auto
  ultimately show ?case by simp
qed simp

lemma trace_gen_shares:
  fixes max_ops :: u64
  assumes "1 \<le> nodes" "length (split_lines input) < 2 ^ 63"
  defines "ops \<equiv> kept_from max_ops 0 (split_lines input)"
  shows "if last_stamp 0 ops = 0 then trace_gen nodes max_ops multi input = Inl Gen_No_Operations
    else \<exists>g share. trace_gen nodes max_ops multi input = Inr g \<and> fair multi nodes ops share \<and>
      (\<forall>i\<in>{1..nodes}. g_outs g ! (i - 1) = unlines (share i @ padding (last_stamp 0 ops) (share i) i))"
proof -
  let ?ls = "split_lines input"
  have len: "length ops \<le> length ?ls" 
    by (auto simp: ops_def kept_from_def Let_def intro: min.coboundedI1)
  have end_ts: "end_ts_loop max_ops ?ls empty_op 0 0 = last_stamp 0 ops"
    using end_ts_loop_last [of 0 ?ls] assms(2) by (simp add: ops_def)
  have loop: "gen_loop multi max_ops ?ls empty_op (gen_start nodes)
      = fold (\<lambda>l. assign_line multi l (op_of l)) ops (gen_start nodes)"
    using gen_loop_fold [of "gen_start nodes" ?ls] assms(2) by (simp add: ops_def gen_start_def)
  from assign_all [OF records_start, of nodes ops multi] assms(1,2) len loop obtain share where
    rec: "records nodes share (gen_loop multi max_ops ?ls empty_op (gen_start nodes))" and
    fair: "fair multi nodes ops share" by auto
  have sub: "\<forall>i\<in>{1..nodes}. subseq (share i) ops" using fair by (simp add: fair_def)
  have "reads (share i) + 1 < 2 ^ 64 \<and> writes (share i) + 1 < 2 ^ 64" if "i \<in> {1..nodes}" for i
    using fair_le [OF sub that] len assms(2) by auto
  then have "records nodes (\<lambda>i. if i \<in> set [1..<Suc nodes] then share i @ padding (last_stamp 0 ops) (share i) i else share i)
      (pad_all (last_stamp 0 ops) nodes (gen_loop multi max_ops ?ls empty_op (gen_start nodes)))"
    unfolding pad_all_def by (intro records_pad_fold [OF rec]) auto
  then have "\<forall>i\<in>{1..nodes}. g_outs (pad_all (last_stamp 0 ops) nodes
        (gen_loop multi max_ops ?ls empty_op (gen_start nodes))) ! (i - 1)
      = unlines (share i @ padding (last_stamp 0 ops) (share i) i)"
    by (auto simp: records_def)
  with fair show ?thesis by (auto simp: trace_gen_def Let_def end_ts)
qed

text \<open>Property C23: distribution of a trace. When the last operation has time stamp 0 the generator reports
  that there are no operations, even if there are. Otherwise it deals out exactly the first \<open>max_ops\<close> lines
  that parse, or all: every node's file is a subsequence of them, each line goes to one node, the numbers of
  reads of two nodes differ by at most one, the numbers of writes do so too with multi-node writes and are
  all with node 1 otherwise; and behind the lines of a node whose last time stamp is before the end comes
  one padding read at the end.\<close>

theorem trace_gen_distributes:
  fixes max_ops :: u64
  assumes "1 \<le> nodes" "length (split_lines input) < 2 ^ 63"
  defines "ops \<equiv> kept_from max_ops 0 (split_lines input)"
  shows "if last_stamp 0 ops = 0 then trace_gen nodes max_ops multi input = Inl Gen_No_Operations
    else \<exists>g share. trace_gen nodes max_ops multi input = Inr g \<and> fair multi nodes ops share \<and>
      (\<forall>i\<in>{1..nodes}. g_outs g ! (i - 1) = unlines (share i @ padding (last_stamp 0 ops) (share i) i))"
  unfolding ops_def using assms(1,2) by (rule trace_gen_shares)

theorem trace_gen_distributes_witness:
  "\<exists>g share. trace_gen 2 0 True ''5,G a'' = Inr g \<and> fair True 2 [''5,G a''] share"
proof -
  have lines: "split_lines ''5,G a'' = [''5,G a'']" by (subst split_lines.simps) simp
  have p: "parse_line ''5,G a'' empty_op = (True, \<lparr> po_ts_us = 5, po_op = CHR ''G'', po_key = ''a'', po_value = '''' \<rparr>)"
    by (simp add: parse_line_def strip_eol_def is_eol_def after_char_def before_char_def parse_stamp_def stoull_def
        is_space_def is_digit_def digits_value_def digit_value_def empty_op_def)
  have kept: "kept_from 0 0 [''5,G a''] = [''5,G a'']" by (simp add: kept_from_def valid_line_def p)
  have "last_stamp 0 [''5,G a''] = 5" by (simp add: last_stamp_def op_of_def p)
  with trace_gen_distributes [of 2 "''5,G a''" 0 True] show ?thesis unfolding lines kept by auto
qed

end
