(* ===== verification/Pipeline.thy ===== *)
theory Pipeline
  imports Workload_Progress Node_Statistics Trace_Gen
begin

text \<open>
  The programs one after the other: the generator writes a trace for every node, the drivers replay these files
  over the shared memory, and the aggregator reads the statistics that they write at the end.
\<close>

section \<open>Lines of the generated traces\<close>







lemma q_op_request_of [simp]: "q_op (request_of v) = v_op v"
  by (simp add: request_of_def)


section \<open>From the trace to the report\<close>








end
