(* ===== verification/Spec2Isabelle.thy ===== *)
theory Spec2Isabelle
  imports Cxl_Memory Payload_Coherence Node_Shutdown Driver_Setup Request_Accounting Pipeline
begin

text \<open>
  Verification of Bandle-CXL, a replicated key-value store for three nodes that exchange proposals through
  rings in shared CXL memory.

  \<^bold>\<open>The program.\<close> A driver (\<open>src/main.cpp\<close>) reads its options, clears the shared memory, constructs a
  \<open>Bandle\<close> object, preloads it and replays a trace in batches. The object (\<open>src/bandle.cpp\<close>) gives every
  request a sequence number of the residue class of its node, writes the proposal into one ring per peer,
  delivers it to itself and waits for the log to be executed in sequence order; receivers move proposals
  from the rings to the log, and a proposer fills unused numbers with no-ops once the input is done. The
  log is applied to a sharded map (\<open>src/kv_store.cpp\<close>). Rings (\<open>include/message_queue.h\<close>) rest on
  non-temporal stores and cache flushes (\<open>src/cxl_memory.cpp\<close>). Latencies go to histograms
  (\<open>include/latency_histogram.h\<close>), are written to a file per node and summarised by
  \<open>src/bandle_aggregate.cpp\<close>; traces are made by \<open>src/bandle_trace_gen.cpp\<close>.

  \<^bold>\<open>Theories and what they show.\<close>
  \<^item> \<open>Prelude\<close>: words, lists, array copies, and the locale \<open>step_invariant\<close> of state machines.
  \<^item> \<open>Cxl_Memory\<close>: a block of memory as the list of its bytes. \<open>nt_memcpy\<close> copies its range and zeroes up to the
    next multiple of 8, and its three bodies do the same; \<open>clflush\<close> touches exactly the lines of its range.
  \<^item> \<open>Message_Queue\<close>, \<open>Ring_Refinement\<close>: descriptors, payload slots and every operation of
    \<open>SpscRingView\<close>, with 64-bit positions that wrap. The locale \<open>bounded_channel\<close> states the contract of a
    queue, the interpretation \<open>spsc\<close> proves it for the rings, and batches are all or nothing.
  \<^item> \<open>Payload_Coherence\<close>: the same rings with payload memory that is not cache coherent: what the reader has
    loaded stays in its cache until it is evicted. A first lap over cold slots gives the results of coherent
    memory; a slot that is read again from a warm cache delivers old bytes.
  \<^item> \<open>Kv_Store\<close>: shards as association lists, \<open>std::hash\<close> a parameter. Batched application equals the
    application of the operations one by one to a single map; locking order, progress reports, snapshots.
  \<^item> \<open>Latency_Histogram\<close>: bucket arithmetic at 64 bits, relative error, merging, order statistics; the second copy of the
    bucket arithmetic in \<open>bandle.cpp\<close> computes the same index.
  \<^item> \<open>Bandle_Node\<close>, \<open>Bandle_Execution\<close>: the state of a node as a record, its handlers and
    \<open>advance_execute_locked\<close>, which terminates and equals execution one entry at a time.
  \<^item> \<open>Bandle_Requests\<close>: from client requests to proposals, and their admission.
  \<^item> \<open>Consensus_Handlers\<close>: the number of entries executed, the promises of \<open>P1\<close>, and how a proposal
    65536 numbers ahead makes the execution stop at the entry whose slot it takes.
  \<^item> \<open>Bandle_Threads\<close>: the submitter, the proposer of no-ops and the receivers as step functions with a
    program counter between any two accesses to shared data.
  \<^item> \<open>Replica_Log\<close>, \<open>Link_Invariant\<close>, \<open>Bandle_Cluster\<close>, \<open>Cluster_Properties\<close>: three nodes, six rings and
    their threads as an inductive step relation. An invariant relates every log and every ring to the history
    of issued proposals; it gives agreement of the replicas, unique numbers, delivery in order, that no
    proposal in flight is lost, and convergence of quiescent states.
  \<^item> \<open>Receiver_Threads\<close>: the receive threads as \<open>start\<close> creates them, one for all sources or one per source, with
    their loops and the batch buffer into which they read and from which they handle messages. The steps on the
    buffer simulate those of a receiver that keeps the messages it has read at its control point, as the cluster
    has one for every link; so both configurations refine the cluster, and a thread handles the next messages of its source.
  \<^item> \<open>Request_Completion\<close>: a second invariant of the same steps, for the pending slots: every admitted request is
    completed once, and \<open>wait_for_all_pending\<close> returns when all own requests are executed.
  \<^item> \<open>Cluster_Progress\<close>: from every reachable state there is a run, by a measure on the work in hand, that drains
    the rings and lets the owner of the next number issue it; so no combination of full rings, closed
    windows and waiting threads is a deadlock, and every request can complete.
  \<^item> \<open>Run_Protocol\<close>: the start-up of the drivers on the shared memory, with the run id handshake and the
    warm-up of the pages, and the end of a run with its loop over \<open>node_finished\<close>, as step relations. In \<open>boot_trans\<close> a
    node that is ready waits for the others, as with the start signal of the scripts; \<open>early_trans\<close> lets it send at
    once, and a message sent so early can be damaged by the warm-up of node 1.
  \<^item> \<open>Pending_Wait\<close>: the condition variable of \<open>wait_for_all_pending\<close>: the handlers notify exactly when the last
    pending request completes, so that no wake-up is lost.
  \<^item> \<open>Node_Shutdown\<close>: the closing phase, in which drivers stop their nodes one after the other while the threads of all
    nodes go on. After \<open>stop\<close> has cleared \<open>running_\<close>, every thread of the node leaves its loop within a number of its
    own steps bounded by the messages left or still being sent, under every interleaving, so that the joins
    return. The phase begins when all nodes have reported: nothing is submitted and no new no-op is begun.
  \<^item> \<open>Text_Formats\<close>, \<open>Node_Driver\<close>: \<open>std::stoull\<close>, \<open>std::getline\<close> and decimal output; command line, trace
    lines, preload, replay and the statistics file. A printed configuration is read back as it was.
  \<^item> \<open>Trace_Gen\<close>: both passes of the generator: which lines are dealt out, how evenly, and how traces are
    padded; that the driver reads the lines that the generator keeps.
  \<^item> \<open>Aggregate\<close>: statistics files read back; totals, medians, 99th percentiles and means of reads and writes, over all
    nodes and for each of them; accuracy of the mean.
  \<^item> \<open>Node_Statistics\<close>: a third invariant of the cluster, for counters and histograms; with the end of a run, the
    file format and the aggregator it shows that the report counts every request of every node once.
  \<^item> \<open>Workload_Run\<close>: runs in which every driver replays its own dataset, batch by batch, and reports the end of its
    input when it has none left. They refine the runs of \<open>Run_Protocol\<close>, and an invariant relates what a node has
    issued, what it is submitting and what it has not yet read to the lines of its trace.
  \<^item> \<open>Workload_Progress\<close>: each such run can be continued until all drivers have left, by a lexicographic measure on
    the input and the work in hand; at its end the client requests of every node are its trace, executed and
    counted.
  \<^item> \<open>Request_Accounting\<close>: where the requests of a dataset are at any moment of such a run: each submitted one is queued
    for admission, pending, completed or an error, and the counters of the node say how many are where.
  \<^item> \<open>Pipeline\<close>: generator, drivers and aggregator one after the other: the report counts every write and every read
    of the trace that was dealt out, and besides them only the padding reads.
  \<^item> \<open>Driver_Setup\<close>: the driver from the command line to a started node, with every error exit, over an environment
    that says which files and devices can be opened; clock arithmetic.
  \<^item> This theory: start-up, construction and preload bring the cluster into a starting state of a run on the
    datasets that the drivers have opened.

  \<^bold>\<open>Bounds and hypotheses.\<close> Cluster properties are about runs in which no node issues \<open>2 ^ 60\<close> proposals
  (\<open>short\<close>, or \<open>brief\<close> where request ids of 56 bits matter), so that sequence numbers do not wrap, and about
  admission windows up to 32766 and batches up to 10921, which keep the numbers in flight apart in the log
  of 65536 slots. That runs can finish is shown for datasets of up to \<open>2 ^ 54\<close> requests per node, so that the
  no-ops that are added stay within \<open>brief\<close>. Both are satisfied by the defaults of the driver. No definition uses fuel: the loops that
  spin until another thread acts are steps that may repeat, and all others terminate. The step relations let
  the proposer see any value of \<open>all_nodes_finished\<close>, and end where a node is stopped; what follows is the closing phase of \<open>Node_Shutdown\<close>. Rounding of
  floating-point numbers is a parameter; where a property needs it, it is monotone and exact on integers.

  \<^bold>\<open>Memory.\<close> The cluster properties take every access to shared memory as atomic and in program order, which is
  what the acquire and release operations and the fences of the code are for, and the payload memory as coherent.
  The last is an assumption on the machine that the code does not enforce: \<open>Payload_Coherence\<close> shows for which
  uses of a ring it is justified and what happens otherwise.

  \<^bold>\<open>Not modelled.\<close> CPU pinning, sleeping and pausing, the ready file and the wait for the start signal, and the
  layout of printed text, which have no effect on the state that is modelled; the file system, the device, the
  clock and the time stamp counter, whose answers are arguments; effects of weak memory ordering. The shell
  scripts, the YCSB binding and the files that CMake generates are not part of the development.
\<close>

section \<open>From the command lines to the cluster\<close>

text \<open>The state once every driver has passed the start-up, and has preloaded and started its node.\<close>

definition started_run :: "Boot \<Rightarrow> (nat \<Rightarrow> Bandle) \<Rightarrow> Run" where
  "started_run b nodes = \<lparr> ru_cluster = \<lparr> c_node = nodes, c_ring = sh_rings (bo_shared b), c_sub = (\<lambda>_. Sub_Idle),
       c_noop = (\<lambda>_. Np_Idle), c_recv = (\<lambda>_ _. Rv_Idle), c_hist = (\<lambda>_. []), c_done = (\<lambda>_ _. 0) \<rparr>,
     ru_finished = sh_finished (bo_shared b), ru_pc = (\<lambda>_. Dr_Replay) \<rparr>"

definition started_workload ::
  "(nat \<Rightarrow> nat \<Rightarrow> bool) \<Rightarrow> Boot \<Rightarrow> (nat \<Rightarrow> u64) \<Rightarrow> (nat \<Rightarrow> Prepared) \<Rightarrow> Workload" where
  "started_workload early b now r = \<lparr> wl_run = started_run b (\<lambda>p. bandle_start (now p) (pr_node (r p))),
     wl_todo = (\<lambda>p. replay (early p) (o_batch_size (pr_options (r p))) (pr_dataset (r p))) \<rparr>"

lemma driver_node_kv:
  assumes "driver_node node_id opts tsc = Some n"
  shows "n_kv n = empty_store" "o_cluster_size opts = 3"
    "unat (n_admission_window n) \<le> max 1 (unat (o_admission_window opts))"
    "unat (n_admission_batch n) \<le> max 1 (unat (o_admission_batch opts))"
  using assms by (auto simp: driver_node_def bandle_new_def split: if_splits)

lemma preloaded_node_initial:
  assumes new: "driver_node (of_nat p) opts tsc = Some n"
    and win: "unat (o_admission_window opts) \<le> 32766" "unat (o_admission_batch opts) \<le> 10921"
  shows "initial_node hash (preload_spec (unat cnt) contents) p (bandle_start now (preload hash cnt contents n))"
proof -
  note f = driver_node_kv [OF new]
  obtain kv where kv: "preload hash cnt contents n = n\<lparr>n_kv := kv\<rparr>" "kv_wf hash kv"
    "kv_lookup hash kv = preload_spec (unat cnt) contents"
    using preload_at [OF f(1)] by blast
  have "window_ok (bandle_start now (n\<lparr>n_kv := kv\<rparr>))"
    using f(3,4) win by (auto simp: window_ok_def bandle_start_def)
  moreover have "bandle_new (of_nat p) 3 (o_poll_idle_us opts) (o_noop_us opts) (o_batch_size opts)
      (unat (o_pipeline_workers opts)) (o_admission_window opts) (o_admission_batch opts) tsc = Some n"
    using new f(2) by (simp add: driver_node_def)
  ultimately show ?thesis unfolding initial_node_def kv(1) using kv(2,3) by blast
qed

text \<open>Property C16: the drivers set up the cluster. Three drivers that get through their set-up with the node ids 1 to 3,
  the same new run id, admission parameters that fit the log and the same text to preload bring the shared
  memory and the nodes, whatever the memory held before, into a starting state of a run on their datasets,
  with the preloaded lines as the initial contents of every replica, so that the properties of such runs hold.\<close>

theorem drivers_start_cluster:
  assumes "reach (boot_init run_id) (boot_trans run_id) b" "\<forall>p\<in>set node_ids. bo_pc b p = Bo_Ready"
    and "\<forall>p\<in>set node_ids. driver_setup hash (ev p) (tsc p) (args p) = Inr (r p) \<and> pr_id (r p) = of_nat p \<and>
      o_run_id (pr_options (r p)) = run_id"
    and "\<forall>p\<in>set node_ids. unat (o_admission_window (pr_options (r p))) \<le> 32766 \<and>
      unat (o_admission_batch (pr_options (r p))) \<le> 10921"
    and "\<forall>p\<in>set node_ids. o_preload_count (pr_options (r p)) = cnt \<and> preload_text (ev p) (pr_options (r p)) = contents"
  shows "workload_init hash (preload_spec (unat cnt) contents) early (\<lambda>p. o_batch_size (pr_options (r p)))
    (\<lambda>p. pr_dataset (r p)) (started_workload early b now r)"
proof -
  have "1 \<in> set node_ids" by (simp add: node_ids_def)
  with assms(2) started_over_empty_rings [OF assms(1), of 1] have
    "\<forall>i. sh_finished (bo_shared b) i = 0" "\<forall>x y. ring_rep ring_cap (sh_rings (bo_shared b) x y) []" by simp_all
  moreover have "initial_node hash (preload_spec (unat cnt) contents) p (bandle_start (now p) (pr_node (r p)))"
    if p: "p \<in> set node_ids" for p
  proof -
    obtain n where "driver_node (of_nat p) (pr_options (r p)) (tsc p) = Some n" "pr_node (r p) = preload hash cnt contents n"
      using assms(3,5) p unfolding driver_setup_Inr by metis
    with preloaded_node_initial [of p "pr_options (r p)" "tsc p" n hash cnt contents "now p"] assms(4) p show ?thesis by simp
  qed
  ultimately show ?thesis by (simp add: workload_init_def run_init_def cluster_init_def started_run_def started_workload_def)
qed

definition node_args :: "nat \<Rightarrow> string list" where
  "node_args p = [''/dev/dax0.0'', show_nat p, ''9000'', ''--dataset'', ''d'', ''--run-id'', ''42'']"

lemma node_config: "p \<in> set node_ids \<Longrightarrow>
  driver_config (node_args p) = Inr (''/dev/dax0.0'', of_nat p, default_options\<lparr>o_dataset := ''d'', o_run_id := 42\<rparr>)"
proof -
  assume "p \<in> set node_ids"
  then have "unat (of_nat p :: u64) = p" by (auto simp: node_ids_def)
  then have "stoull (show_nat p) = Some (of_nat p, length (show_nat p))"
    using stoull_show_u64 [of "of_nat p"] by (simp add: show_u64_def)
  moreover have "stoull ''9000'' = Some (9000, 4)" "stoull ''42'' = Some (42, 2)"
    by (simp_all add: stoull_def is_space_def is_digit_def digits_value_def digit_value_def Let_def)
  ultimately show ?thesis
    by (simp add: node_args_def apply_option_def parse_run_token_def default_options_def)
qed

lemma node_setup:
  assumes "p \<in> set node_ids"
  shows "\<exists>r. driver_setup hash (sample_env None) of_nat (node_args p) = Inr r \<and> pr_id r = of_nat p \<and>
    pr_options r = default_options\<lparr>o_dataset := ''d'', o_run_id := 42\<rparr>"
proof -
  let ?opts = "default_options\<lparr>o_dataset := ''d'', o_run_id := 42\<rparr>"
  have "unat (of_nat p :: u64) = p" using assms by (auto simp: node_ids_def)
  then have "\<exists>n. driver_node (of_nat p) ?opts of_nat = Some n"
    unfolding driver_node_supported using assms by (simp add: default_options_def)
  then obtain n where "driver_node (of_nat p) ?opts of_nat = Some n" ..
  moreover have "open_dataset (sample_env None) ?opts = Inr ''1,G k''" by (simp add: open_dataset_Inr sample_env_def)
  ultimately show ?thesis by (simp add: driver_setup_def node_config [OF assms] Let_def) (simp add: sample_env_def)
qed

theorem drivers_start_cluster_witness:
  "\<exists>b r. workload_init (\<lambda>_. 7) (preload_spec 0 ''1,G k'') (\<lambda>_ _. False) (\<lambda>p. o_batch_size (pr_options (r p)))
       (\<lambda>p. pr_dataset (r p)) (started_workload (\<lambda>_ _. False) b (\<lambda>_. 0) r) \<and>
     driver_setup (\<lambda>_. 7) (sample_env None) of_nat (node_args 3) = Inr (r 3)"
proof -
  obtain b where b: "reach (boot_init 42) (boot_trans 42) b" "\<forall>p\<in>set node_ids. bo_pc b p = Bo_Ready" using all_ready [of 42] by auto
  have "\<forall>p\<in>set node_ids. \<exists>r. driver_setup (\<lambda>_. 7) (sample_env None) of_nat (node_args p) = Inr r \<and> pr_id r = of_nat p \<and>
      pr_options r = default_options\<lparr>o_dataset := ''d'', o_run_id := 42\<rparr>" using node_setup by blast
  then obtain r where r: "\<And>p. p \<in> set node_ids \<Longrightarrow> driver_setup (\<lambda>_. 7) (sample_env None) of_nat (node_args p) = Inr (r p) \<and>
      pr_id (r p) = of_nat p \<and> pr_options (r p) = default_options\<lparr>o_dataset := ''d'', o_run_id := 42\<rparr>" by metis
  have t: "preload_text (sample_env None) (pr_options (r p)) = ''1,G k''" if "p \<in> set node_ids" for p
    using r [OF that] by (simp add: preload_text_def preload_path_def sample_env_def default_options_def)
  have "workload_init (\<lambda>_. 7) (preload_spec (unat (0 :: u64)) ''1,G k'') (\<lambda>_ _. False) (\<lambda>p. o_batch_size (pr_options (r p)))
      (\<lambda>p. pr_dataset (r p)) (started_workload (\<lambda>_ _. False) b (\<lambda>_. 0) r)"
    by (rule drivers_start_cluster [OF b, where ev = "\<lambda>_. sample_env None" and tsc = "\<lambda>_. of_nat" and args = node_args])
      (use r t in \<open>auto simp: default_options_def\<close>)
  moreover have "3 \<in> set node_ids" by (simp add: node_ids_def)
  ultimately show ?thesis using r by (intro exI [of _ b] exI [of _ r]) simp
qed

end
